(* ===== verification/VG_Prelude.thy ===== *)
theory VG_Prelude
  imports Main "HOL-Library.Word"
begin

section \<open>Shared types, bit lemmas and simplification sets\<close>

text \<open>
  The types and lemmas every component of the library shares: the C integer widths, arrays of
  bytes read bit by bit in network order (the most significant bit of the first byte is bit 0,
  as an address prefix counts them), and the named collections the component proofs draw on.
\<close>

unbundle bit_operations_syntax

type_synonym u8 = "8 word"
type_synonym u16 = "16 word"
type_synonym u32 = "32 word"
type_synonym u64 = "64 word"
type_synonym bytes = "8 word list"

named_theorems vg_defs \<open>definitions of straight-line routines, unfolded by the component proofs\<close>
named_theorems vg_frame \<open>what an operation leaves unchanged\<close>

subsection \<open>Bits of a byte array in network order\<close>

definition bit_at :: "bytes \<Rightarrow> nat \<Rightarrow> bool" where
  "bit_at a i = bit (a ! (i div 8)) (7 - i mod 8)"

definition agree :: "nat \<Rightarrow> bytes \<Rightarrow> bytes \<Rightarrow> bool" where
  "agree n a b \<longleftrightarrow> (\<forall>i<n. bit_at a i = bit_at b i)"

lemma agree_refl [simp, intro]: "agree n a a"
  by (simp add: agree_def)

lemma agree_sym: "agree n a b \<Longrightarrow> agree n b a"
  by (auto simp: agree_def)

lemma agree_trans: "agree n a b \<Longrightarrow> agree n b c \<Longrightarrow> agree n a c"
  by (auto simp: agree_def)

lemma agree_mono: "agree n a b \<Longrightarrow> m \<le> n \<Longrightarrow> agree m a b"
  by (auto simp: agree_def)

lemma agree_0 [simp]: "agree 0 a b"
  by (simp add: agree_def)

lemma byte_eq_iff: "(a :: u8) = b \<longleftrightarrow> (\<forall>j<8. bit a (7 - j) = bit b (7 - j))"
proof
  assume h: "\<forall>j<8. bit a (7 - j) = bit b (7 - j)"
  show "a = b"
  proof (rule bit_word_eqI)
    fix n assume "n < LENGTH(8)"
    then have "7 - n < 8" and "n = 7 - (7 - n)" by simp_all
    with h show "bit a n = bit b n" by metis
  qed
qed simp

lemma bit_at_byte: "j < 8 \<Longrightarrow> bit_at a (8 * q + j) = bit (a ! q) (7 - j)"
  by (simp add: bit_at_def)

text \<open>Agreement on whole bytes is equality of the bytes.\<close>

lemma agree_bytes:
  "agree (8 * k) a b \<longleftrightarrow> (\<forall>q<k. a ! q = b ! q)"
proof
  assume h: "agree (8 * k) a b"
  show "\<forall>q<k. a ! q = b ! q"
  proof (intro allI impI)
    fix q assume q: "q < k"
    have "bit (a ! q) (7 - j) = bit (b ! q) (7 - j)" if "j < 8" for j
    proof -
      from q that have "8 * q + j < 8 * k" by linarith
      with h have "bit_at a (8 * q + j) = bit_at b (8 * q + j)" by (simp add: agree_def)
      with that show ?thesis by (simp add: bit_at_byte)
    qed
    then show "a ! q = b ! q" by (simp add: byte_eq_iff)
  qed
next
  assume "\<forall>q<k. a ! q = b ! q"
  then show "agree (8 * k) a b" by (auto simp: agree_def bit_at_def)
qed

lemma agree_split:
  "agree (m + n) a b \<longleftrightarrow> agree m a b \<and> (\<forall>j<n. bit_at a (m + j) = bit_at b (m + j))"
proof
  assume "agree (m + n) a b"
  then show "agree m a b \<and> (\<forall>j<n. bit_at a (m + j) = bit_at b (m + j))"
    by (auto simp: agree_def)
next
  assume h: "agree m a b \<and> (\<forall>j<n. bit_at a (m + j) = bit_at b (m + j))"
  show "agree (m + n) a b"
    unfolding agree_def
  proof (intro allI impI)
    fix i assume i: "i < m + n"
    show "bit_at a i = bit_at b i"
    proof (cases "i < m")
      case True
      with h show ?thesis by (simp add: agree_def)
    next
      case False
      with i have "i = m + (i - m)" and "i - m < n" by simp_all
      with h show ?thesis by metis
    qed
  qed
qed

lemma agree_all_eq:
  assumes "length a = k" and "length b = k"
  shows "agree (8 * k) a b \<longleftrightarrow> a = b"
  using assms by (auto simp: agree_bytes intro: nth_equalityI)

subsection \<open>Words\<close>

lemma unat_u8: "unat (x :: u8) < 256"
proof -
  have "unat x < 2 ^ LENGTH(8)" by (rule unsigned_less)
  then show ?thesis by simp
qed

lemma unat_ucast_8_32 [simp]: "unat (ucast (x :: u8) :: u32) = unat x"
  using unat_u8 [of x] by (simp add: unsigned_ucast_eq take_bit_nat_eq_self_iff)

lemma uint_ucast_8_32 [simp]: "uint (ucast (x :: u8) :: u32) = uint x"
proof -
  have "uint x < 2 ^ LENGTH(8)" by (rule unsigned_less)
  then show ?thesis by (simp add: unsigned_ucast_eq take_bit_int_eq_self_iff)
qed

subsection \<open>Lists\<close>

lemma take_eq_iff_nth:
  "n \<le> length a \<Longrightarrow> n \<le> length b \<Longrightarrow> take n a = take n b \<longleftrightarrow> (\<forall>q<n. a ! q = b ! q)"
  by (auto simp: list_eq_iff_nth_eq)

end
