(* ===== verification/IntrusiveList.thy ===== *)
theory IntrusiveList
  imports VG_Prelude
begin

section \<open>Intrusive lists: list.h\<close>

text \<open>
  The links of \<open>src/src/list.h\<close> on an explicit store. A \<open>struct vg_list\<close> node is an address of
  type \<open>'n\<close> (a list head or the link field of one pool record); the store maps every address to
  its \<open>prev\<close> and \<open>next\<close>. A \<open>struct vg_hlist_node\<close> is the number of the record that embeds it;
  \<open>pprev\<close> points at whatever points at the node, which is a bucket head or another node's \<open>next\<close>
  field (\<open>hslot\<close>). The assignments are made in the order of the code, each reading the store the
  previous one left. \<open>dll\<close> and \<open>hchain\<close> say which HOL list a head represents.
\<close>

subsection \<open>Doubly linked lists\<close>

record 'n vg_links =
  prev :: "'n \<Rightarrow> 'n"
  "next" :: "'n \<Rightarrow> 'n"

definition set_prev :: "'n \<Rightarrow> 'n \<Rightarrow> 'n vg_links \<Rightarrow> 'n vg_links" where
  "set_prev n v L = L\<lparr>prev := (prev L)(n := v)\<rparr>"

definition set_next :: "'n \<Rightarrow> 'n \<Rightarrow> 'n vg_links \<Rightarrow> 'n vg_links" where
  "set_next n v L = L\<lparr>next := (next L)(n := v)\<rparr>"

definition vg_list_init :: "'n \<Rightarrow> 'n vg_links \<Rightarrow> 'n vg_links" where
  "vg_list_init head L = (let L = set_prev head head L in set_next head head L)"

definition vg_list_empty :: "'n \<Rightarrow> 'n vg_links \<Rightarrow> bool" where
  "vg_list_empty head L \<longleftrightarrow> next L head = head"

definition vg_list_add_tail :: "'n \<Rightarrow> 'n \<Rightarrow> 'n vg_links \<Rightarrow> 'n vg_links" where
  "vg_list_add_tail node head L =
     (let L = set_prev node (prev L head) L;
          L = set_next node head L;
          L = set_next (prev L head) node L
      in set_prev head node L)"

definition vg_list_del :: "'n \<Rightarrow> 'n vg_links \<Rightarrow> 'n vg_links" where
  "vg_list_del node L =
     (let L = set_next (prev L node) (next L node) L;
          L = set_prev (next L node) (prev L node) L;
          L = set_prev node node L
      in set_next node node L)"

text \<open>Following \<open>next\<close> from the head until it comes back, at most \<open>fuel\<close> nodes.\<close>

fun walk_next :: "nat \<Rightarrow> 'n vg_links \<Rightarrow> 'n \<Rightarrow> 'n \<Rightarrow> 'n list" where
  "walk_next 0 L head l = []"
| "walk_next (Suc fuel) L head l = (if l = head then [] else l # walk_next fuel L head (next L l))"

subsection \<open>Hash chains\<close>

datatype hslot = Bucket nat | NextOf nat

record vg_hlinks =
  first :: "nat \<Rightarrow> nat option"
  hnext :: "nat \<Rightarrow> nat option"
  pprev :: "nat \<Rightarrow> hslot option"

fun read_slot :: "vg_hlinks \<Rightarrow> hslot \<Rightarrow> nat option" where
  "read_slot H (Bucket b) = first H b"
| "read_slot H (NextOf n) = hnext H n"

fun write_slot :: "hslot \<Rightarrow> nat option \<Rightarrow> vg_hlinks \<Rightarrow> vg_hlinks" where
  "write_slot (Bucket b) v H = H\<lparr>first := (first H)(b := v)\<rparr>"
| "write_slot (NextOf n) v H = H\<lparr>hnext := (hnext H)(n := v)\<rparr>"

definition set_pprev :: "nat \<Rightarrow> hslot option \<Rightarrow> vg_hlinks \<Rightarrow> vg_hlinks" where
  "set_pprev n v H = H\<lparr>pprev := (pprev H)(n := v)\<rparr>"

definition vg_hlist_add_head :: "nat \<Rightarrow> nat \<Rightarrow> vg_hlinks \<Rightarrow> vg_hlinks" where
  "vg_hlist_add_head node b H =
     (let H = write_slot (NextOf node) (first H b) H;
          H = (case hnext H node of None \<Rightarrow> H | Some m \<Rightarrow> set_pprev m (Some (NextOf node)) H);
          H = write_slot (Bucket b) (Some node) H
      in set_pprev node (Some (Bucket b)) H)"

text \<open>\<open>node->pprev\<close> is never NULL for a linked node; a store where it is has no meaning in C and
  is left unchanged here.\<close>

definition vg_hlist_del :: "nat \<Rightarrow> vg_hlinks \<Rightarrow> vg_hlinks" where
  "vg_hlist_del node H =
     (case pprev H node of
        None \<Rightarrow> H
      | Some s \<Rightarrow>
          (let H = write_slot s (hnext H node) H;
               H = (case hnext H node of None \<Rightarrow> H | Some m \<Rightarrow> set_pprev m (pprev H node) H);
               H = write_slot (NextOf node) None H
           in set_pprev node None H))"

subsection \<open>What a head represents\<close>

fun linked :: "'n vg_links \<Rightarrow> 'n list \<Rightarrow> bool" where
  "linked L [] = True"
| "linked L [a] = True"
| "linked L (a # b # r) = (next L a = b \<and> prev L b = a \<and> linked L (b # r))"

definition dll :: "'n vg_links \<Rightarrow> 'n \<Rightarrow> 'n list \<Rightarrow> bool" where
  "dll L head xs \<longleftrightarrow> distinct (head # xs) \<and> linked L (head # xs @ [head])"

fun hchain :: "vg_hlinks \<Rightarrow> hslot \<Rightarrow> nat list \<Rightarrow> bool" where
  "hchain H s [] = (read_slot H s = None)"
| "hchain H s (x # xs) =
     (read_slot H s = Some x \<and> pprev H x = Some s \<and> hchain H (NextOf x) xs)"

lemmas link_defs = set_prev_def set_next_def Let_def

lemma linked_append: "linked L (xs @ y # ys) \<longleftrightarrow> linked L (xs @ [y]) \<and> linked L (y # ys)"
  by (induction L xs rule: linked.induct) auto

lemma linked_cong:
  "linked L zs \<Longrightarrow> (\<And>x. x \<in> set (butlast zs) \<Longrightarrow> next L' x = next L x) \<Longrightarrow>
   (\<And>x. x \<in> set (tl zs) \<Longrightarrow> prev L' x = prev L x) \<Longrightarrow> linked L' zs"
proof (induction L zs rule: linked.induct)
  case (3 L a b r)
  have "linked L' (b # r)"
  proof (rule "3.IH")
    show "linked L (b # r)" using "3.prems"(1) by simp
  next
    fix x assume "x \<in> set (butlast (b # r))"
    then have "x \<in> set (butlast (a # b # r))" by simp
    then show "next L' x = next L x" by (rule "3.prems"(2))
  next
    fix x assume "x \<in> set (tl (b # r))"
    then have "x \<in> set (tl (a # b # r))" by simp
    then show "prev L' x = prev L x" by (rule "3.prems"(3))
  qed
  moreover have "next L' a = next L a" "prev L' b = prev L b"
    using "3.prems"(2) [of a] "3.prems"(3) [of b] by simp_all
  ultimately show ?case using "3.prems"(1) by simp
qed simp_all

lemma linked_next: "linked L (xs @ a # b # ys) \<Longrightarrow> next L a = b \<and> prev L b = a"
  by (subst (asm) linked_append) simp

lemma dll_init: "dll (vg_list_init h L) h []"
  by (simp add: dll_def vg_list_init_def link_defs)

lemma dll_empty: "dll L h xs \<Longrightarrow> vg_list_empty h L \<longleftrightarrow> xs = []"
  by (cases xs) (auto simp: dll_def vg_list_empty_def)

lemma dll_first: "dll L h (x # xs) \<Longrightarrow> next L h = x"
  by (simp add: dll_def)

text \<open>A list that avoids every node an operation touches keeps its meaning.\<close>

lemma dll_frame:
  assumes rep: "dll L h xs"
    and same: "\<And>x. x \<in> set (h # xs) \<Longrightarrow> next L' x = next L x \<and> prev L' x = prev L x"
  shows "dll L' h xs"
proof -
  have "linked L' (h # xs @ [h])"
  proof (rule linked_cong)
    show "linked L (h # xs @ [h])" using rep by (simp add: dll_def)
    show "next L' x = next L x" if "x \<in> set (butlast (h # xs @ [h]))" for x
    proof -
      from that have "x \<in> set (h # xs)" by (simp add: butlast_append)
      then show ?thesis using same by blast
    qed
    show "prev L' x = prev L x" if "x \<in> set (tl (h # xs @ [h]))" for x
    proof -
      from that have "x \<in> set (h # xs)" by auto
      then show ?thesis using same by blast
    qed
  qed
  then show ?thesis using rep by (simp add: dll_def)
qed

lemma dll_last:
  assumes "dll L h xs"
  shows "prev L h = last (h # xs)"
proof -
  have "butlast (h # xs) @ [last (h # xs)] = h # xs"
    by (rule append_butlast_last_id) simp
  then have "butlast (h # xs) @ last (h # xs) # [h] = h # xs @ [h]"
    by (metis append.assoc append_Cons append_Nil)
  moreover have "linked L (h # xs @ [h])" using assms by (simp add: dll_def)
  ultimately have "linked L (butlast (h # xs) @ last (h # xs) # [h])" by (simp only:)
  then show ?thesis using linked_next by metis
qed

text \<open>The two neighbours of a member.\<close>

lemma dll_split:
  assumes "dll L h (as @ x # bs)"
  shows "prev L x = last (h # as)" and "next L x = hd (bs @ [h])"
proof -
  have l: "linked L ((h # as) @ x # bs @ [h])" using assms by (simp add: dll_def)
  have "butlast (h # as) @ [last (h # as)] = h # as" by (rule append_butlast_last_id) simp
  then have "(h # as) @ x # bs @ [h] = butlast (h # as) @ last (h # as) # x # bs @ [h]"
    by (metis append.assoc append_Cons append_Nil)
  with l show "prev L x = last (h # as)" using linked_next by metis
  have "bs @ [h] = hd (bs @ [h]) # tl (bs @ [h])" by simp
  with l show "next L x = hd (bs @ [h])" using linked_next by metis
qed

subsection \<open>The operations on represented lists\<close>

lemma add_tail_links:
  "node \<noteq> head \<Longrightarrow> prev L head \<noteq> node \<Longrightarrow>
   next (vg_list_add_tail node head L) = (next L)(node := head, prev L head := node)"
  "node \<noteq> head \<Longrightarrow> prev L head \<noteq> node \<Longrightarrow>
   prev (vg_list_add_tail node head L) = (prev L)(node := prev L head, head := node)"
  by (simp_all add: vg_list_add_tail_def link_defs)

lemma dll_add_tail:
  assumes rep: "dll L h xs" and new: "node \<notin> set (h # xs)"
  shows "dll (vg_list_add_tail node h L) h (xs @ [node])"
proof -
  let ?L = "vg_list_add_tail node h L"
  have pl: "prev L h = last (h # xs)" using rep by (rule dll_last)
  have pm: "last (h # xs) \<in> set (h # xs)" by (rule last_in_set) simp
  have ne: "node \<noteq> h" "prev L h \<noteq> node" using new pl pm by auto
  note nx = add_tail_links(1) [OF ne] and pv = add_tail_links(2) [OF ne]
  have split: "butlast (h # xs) @ [last (h # xs)] = h # xs"
    by (rule append_butlast_last_id) simp
  have dist: "distinct (h # xs)" using rep by (simp add: dll_def)
  have "linked ?L (h # xs)"
  proof (rule linked_cong)
    have "linked L ((h # xs) @ [h])" using rep by (simp add: dll_def)
    then show "linked L (h # xs)" by (metis linked_append split append.assoc append_Cons append_Nil)
    show "next ?L x = next L x" if "x \<in> set (butlast (h # xs))" for x
    proof -
      have "x \<noteq> last (h # xs)" using that dist split by (metis distinct_append disjoint_iff list.set_intros(1))
      moreover have "x \<noteq> node" using that new by (metis in_set_butlastD)
      ultimately show ?thesis by (simp add: nx pl)
    qed
    show "prev ?L x = prev L x" if "x \<in> set (tl (h # xs))" for x
      using that new dist by (auto simp: pv)
  qed
  moreover have "linked ?L (last (h # xs) # [node, h])"
    using ne pl new pm by (auto simp: nx pv)
  ultimately have "linked ?L (butlast (h # xs) @ last (h # xs) # [node, h])"
    using split by (subst linked_append) simp
  then have "linked ?L (h # (xs @ [node]) @ [h])"
    using split by (metis append.assoc append_Cons append_Nil)
  then show ?thesis using dist new by (auto simp: dll_def)
qed

lemma add_tail_frame:
  assumes rep: "dll L h xs" and oth: "dll L h' ys" and new: "node \<notin> set (h # xs)"
    and disj: "set (h' # ys) \<inter> set (node # h # xs) = {}"
  shows "dll (vg_list_add_tail node h L) h' ys"
proof (rule dll_frame [OF oth])
  fix x assume x: "x \<in> set (h' # ys)"
  have pl: "prev L h \<in> set (h # xs)" unfolding dll_last [OF rep] by (rule last_in_set) simp
  then have ne: "node \<noteq> h" "prev L h \<noteq> node" using new by auto
  from x pl disj have "x \<noteq> node" "x \<noteq> h" "x \<noteq> prev L h" by auto
  then show "next (vg_list_add_tail node h L) x = next L x \<and>
      prev (vg_list_add_tail node h L) x = prev L x"
    by (simp add: add_tail_links [OF ne])
qed

lemma del_links:
  "prev L x \<noteq> x \<Longrightarrow> next L x \<noteq> x \<Longrightarrow>
   next (vg_list_del x L) = (next L)(prev L x := next L x, x := x)"
  "prev L x \<noteq> x \<Longrightarrow> next L x \<noteq> x \<Longrightarrow>
   prev (vg_list_del x L) = (prev L)(next L x := prev L x, x := x)"
  by (simp_all add: vg_list_del_def link_defs)

lemma dll_neighbours:
  assumes rep: "dll L h (as @ x # bs)"
  shows "prev L x \<in> set (h # as)" "next L x \<in> set (h # bs)" "prev L x \<noteq> x" "next L x \<noteq> x"
proof -
  show p: "prev L x \<in> set (h # as)" unfolding dll_split(1) [OF rep] by (rule last_in_set) simp
  show n: "next L x \<in> set (h # bs)" unfolding dll_split(2) [OF rep] by (cases bs) simp_all
  have "x \<noteq> h" "x \<notin> set as" "x \<notin> set bs" using rep by (auto simp: dll_def)
  with p n show "prev L x \<noteq> x" "next L x \<noteq> x" by auto
qed

lemma dll_del:
  assumes rep: "dll L h (as @ x # bs)"
  shows "dll (vg_list_del x L) h (as @ bs)"
proof -
  let ?L = "vg_list_del x L" and ?p = "last (h # as)" and ?s = "hd (bs @ [h])"
  have dist: "distinct (h # as @ x # bs)" using rep by (simp add: dll_def)
  have whole: "linked L ((h # as) @ x # bs @ [h])" using rep by (simp add: dll_def)
  note nb = dll_neighbours(3,4) [OF rep]
  have nx: "next ?L = (next L)(?p := ?s, x := x)" and pv: "prev ?L = (prev L)(?s := ?p, x := x)"
    using del_links [OF nb] dll_split [OF rep] by simp_all
  have pin: "?p \<in> set (h # as)" by (rule last_in_set) simp
  have sin: "?s \<in> set (h # bs)" by (cases bs) simp_all
  have splP: "butlast (h # as) @ [?p] = h # as" by (rule append_butlast_last_id) simp
  have splS: "?s # tl (bs @ [h]) = bs @ [h]" by simp
  have left: "linked ?L (h # as)"
  proof (rule linked_cong)
    have "linked L ((h # as) @ [x])" using whole by (subst (asm) linked_append) simp
    then show "linked L (h # as)" by (metis linked_append splP append.assoc append_Cons append_Nil)
    show "next ?L y = next L y" if "y \<in> set (butlast (h # as))" for y
    proof -
      have "y \<noteq> ?p" using that dist splP
        by (metis distinct_append disjoint_iff list.set_intros(1) append_Cons)
      moreover have "y \<noteq> x" using that dist by (auto dest: in_set_butlastD split: if_splits)
      ultimately show ?thesis by (simp add: nx)
    qed
    show "prev ?L y = prev L y" if "y \<in> set (tl (h # as))" for y
      using that dist sin by (auto simp: pv)
  qed
  have right: "linked ?L (bs @ [h])"
  proof (rule linked_cong)
    have "linked L (x # bs @ [h])" using whole by (subst (asm) linked_append) simp
    then show "linked L (bs @ [h])" by (cases bs) simp_all
    show "next ?L y = next L y" if "y \<in> set (butlast (bs @ [h]))" for y
      using that dist pin by (auto simp: nx)
    show "prev ?L y = prev L y" if "y \<in> set (tl (bs @ [h]))" for y
      using that dist by (cases bs) (auto simp: pv)
  qed
  have "?p \<noteq> x" "?s \<noteq> x" using dist pin sin by auto
  then have "next ?L ?p = ?s" "prev ?L ?s = ?p" by (simp_all add: nx pv)
  moreover have "linked ?L (?s # tl (bs @ [h]))" using right by (simp only: splS)
  ultimately have "linked ?L (?p # ?s # tl (bs @ [h]))" unfolding linked.simps by blast
  with left have "linked ?L (butlast (h # as) @ ?p # ?s # tl (bs @ [h]))"
    unfolding linked_append [of ?L _ ?p] splP by (rule conjI)
  then have "linked ?L (h # (as @ bs) @ [h])"
    using splP splS by (metis append.assoc append_Cons append_Nil)
  then show ?thesis using dist by (simp add: dll_def)
qed

lemma del_frame:
  assumes rep: "dll L h (as @ x # bs)" and oth: "dll L h' ys"
    and disj: "set (h' # ys) \<inter> set (h # as @ x # bs) = {}"
  shows "dll (vg_list_del x L) h' ys"
proof (rule dll_frame [OF oth])
  fix y assume y: "y \<in> set (h' # ys)"
  have "prev L x \<in> set (h # as @ x # bs)" "next L x \<in> set (h # as @ x # bs)"
    using dll_neighbours(1,2) [OF rep] by auto
  with y disj have "y \<noteq> x" "y \<noteq> prev L x" "y \<noteq> next L x" by auto
  then show "next (vg_list_del x L) y = next L y \<and> prev (vg_list_del x L) y = prev L y"
    by (simp add: del_links [OF dll_neighbours(3,4) [OF rep]])
qed

lemma walk_dll:
  assumes "dll L h xs" and "length xs < fuel"
  shows "walk_next fuel L h (next L h) = xs"
proof -
  have "walk_next fuel L h (next L a) = ys"
    if "linked L (a # ys @ [h])" "h \<notin> set ys" "length ys < fuel" for a ys fuel
    using that
  proof (induction ys arbitrary: a fuel)
    case Nil
    then show ?case by (cases fuel) simp_all
  next
    case (Cons y ys)
    then show ?case by (cases fuel) auto
  qed
  then show ?thesis using assms by (simp add: dll_def)
qed

subsection \<open>Hash chains: the operations\<close>

lemma hchain_cong:
  "hchain H s xs \<Longrightarrow> read_slot H' s = read_slot H s \<Longrightarrow>
   (\<And>x. x \<in> set xs \<Longrightarrow> hnext H' x = hnext H x \<and> pprev H' x = pprev H x) \<Longrightarrow> hchain H' s xs"
proof (induction xs arbitrary: s)
  case Nil
  then show ?case by simp
next
  case (Cons x xs)
  have x: "hnext H' x = hnext H x" "pprev H' x = pprev H x" using Cons.prems(3) [of x] by simp_all
  have "hchain H' (NextOf x) xs"
    using Cons.prems x by (intro Cons.IH) simp_all
  then show ?case using Cons.prems x by simp
qed

lemma hchain_member:
  "hchain H s (as @ x # bs) \<Longrightarrow>
     pprev H x = Some (if as = [] then s else NextOf (last as)) \<and> hchain H (NextOf x) bs"
proof (induction as arbitrary: s)
  case Nil
  then show ?case by simp
next
  case (Cons a as)
  then have "hchain H (NextOf a) (as @ x # bs)" by simp
  from Cons.IH [OF this] show ?case by (cases as) simp_all
qed

lemma add_head_links:
  assumes "first H b \<noteq> Some node"
  shows "first (vg_hlist_add_head node b H) = (first H)(b := Some node)"
    and "hnext (vg_hlist_add_head node b H) = (hnext H)(node := first H b)"
    and "pprev (vg_hlist_add_head node b H) =
      (case first H b of None \<Rightarrow> pprev H | Some m \<Rightarrow> (pprev H)(m := Some (NextOf node)))
        (node := Some (Bucket b))"
  using assms by (auto simp: vg_hlist_add_head_def Let_def set_pprev_def split: option.splits)

lemma hchain_add_head:
  assumes rep: "hchain H (Bucket b) xs" and d: "distinct xs" and new: "node \<notin> set xs"
  shows "hchain (vg_hlist_add_head node b H) (Bucket b) (node # xs)"
proof (cases xs)
  case Nil
  with rep new show ?thesis by (simp add: add_head_links)
next
  case (Cons m ms)
  with rep new have f: "first H b = Some m" and ne: "first H b \<noteq> Some node" by auto
  have "hchain (vg_hlist_add_head node b H) (NextOf m) ms"
  proof (rule hchain_cong)
    show "hchain H (NextOf m) ms" using rep Cons by simp
    have "m \<noteq> node" "m \<notin> set ms" "node \<notin> set ms" using d new Cons by auto
    then show "read_slot (vg_hlist_add_head node b H) (NextOf m) = read_slot H (NextOf m)"
      and "\<And>x. x \<in> set ms \<Longrightarrow> hnext (vg_hlist_add_head node b H) x = hnext H x \<and>
        pprev (vg_hlist_add_head node b H) x = pprev H x"
      using f by (auto simp: add_head_links [OF ne])
  qed
  then show ?thesis using Cons f new by (simp add: add_head_links [OF ne])
qed

lemma hchain_add_head_frame:
  assumes rep: "hchain H (Bucket b) xs" and oth: "hchain H (Bucket b') ys" and ne: "b' \<noteq> b"
    and disj: "set ys \<inter> set (node # xs) = {}" and new: "node \<notin> set xs"
  shows "hchain (vg_hlist_add_head node b H) (Bucket b') ys"
proof -
  have f: "first H b \<noteq> Some node" and m: "first H b = Some m \<Longrightarrow> m \<in> set xs" for m
    using rep new by (cases xs; auto)+
  show ?thesis
    using oth
  proof (rule hchain_cong)
    fix y assume "y \<in> set ys"
    with disj m have "y \<noteq> node" "first H b \<noteq> Some y" by auto
    then show "hnext (vg_hlist_add_head node b H) y = hnext H y \<and>
        pprev (vg_hlist_add_head node b H) y = pprev H y"
      by (auto simp: add_head_links [OF f] split: option.splits)
  qed (use ne in \<open>simp add: add_head_links [OF f]\<close>)
qed

lemma hdel_links:
  assumes "pprev H x = Some s" and "s \<noteq> NextOf x" and "hnext H x \<noteq> Some x"
  shows "first (vg_hlist_del x H) = (case s of Bucket b \<Rightarrow> (first H)(b := hnext H x) | _ \<Rightarrow> first H)"
    and "hnext (vg_hlist_del x H) =
      (case s of Bucket b \<Rightarrow> hnext H | NextOf p \<Rightarrow> (hnext H)(p := hnext H x))(x := None)"
    and "pprev (vg_hlist_del x H) =
      (case hnext H x of None \<Rightarrow> pprev H | Some m \<Rightarrow> (pprev H)(m := Some s))(x := None)"
  using assms
  by (cases s; cases "hnext H x"; simp add: vg_hlist_del_def Let_def set_pprev_def)+

text \<open>A slot outside the nodes of a chain: a bucket head or the \<open>next\<close> field of another node.\<close>

definition outer :: "hslot \<Rightarrow> nat list \<Rightarrow> bool" where
  "outer s xs \<longleftrightarrow> (case s of Bucket b \<Rightarrow> True | NextOf p \<Rightarrow> p \<notin> set xs)"

lemma hchain_del:
  "hchain H s (as @ x # bs) \<Longrightarrow> distinct (as @ x # bs) \<Longrightarrow> outer s (as @ x # bs) \<Longrightarrow>
   hchain (vg_hlist_del x H) s (as @ bs)"
proof (induction as arbitrary: s)
  case Nil
  have pp: "pprev H x = Some s" and tl: "hchain H (NextOf x) bs" using Nil.prems by simp_all
  have ne: "s \<noteq> NextOf x" using Nil.prems(3) by (auto simp: outer_def)
  have nx: "hnext H x \<noteq> Some x" using tl Nil.prems(2) by (cases bs) auto
  note dl = hdel_links [OF pp ne nx]
  have s': "read_slot (vg_hlist_del x H) s = hnext H x"
    using ne by (cases s) (simp_all add: dl)
  show ?case
  proof (cases bs)
    case Nil
    then show ?thesis using tl s' by simp
  next
    case (Cons m ms)
    then have m: "hnext H x = Some m" "m \<noteq> x" using tl Nil.prems(2) by auto
    have "hchain (vg_hlist_del x H) (NextOf m) ms"
    proof (rule hchain_cong)
      show "hchain H (NextOf m) ms" using tl Cons by simp
    qed (use Cons Nil.prems(2,3) m in \<open>auto simp: dl outer_def split: hslot.splits\<close>)
    then show ?thesis using Cons m s' by (simp add: dl)
  qed
next
  case (Cons a as)
  have pp: "pprev H x = Some (NextOf (last (a # as)))" and tl: "hchain H (NextOf x) bs"
    using hchain_member [OF Cons.prems(1)] by simp_all
  have la: "last (a # as) \<in> set (a # as)" by (rule last_in_set) simp
  have ne: "NextOf (last (a # as)) \<noteq> NextOf x" using la Cons.prems(2) by auto
  have nx: "hnext H x \<noteq> Some x" using tl Cons.prems(2) by (cases bs) auto
  note dl = hdel_links [OF pp ne nx]
  have "hchain (vg_hlist_del x H) (NextOf a) (as @ bs)"
    using Cons.prems by (intro Cons.IH) (auto simp: outer_def)
  moreover have "read_slot (vg_hlist_del x H) s = read_slot H s"
    using Cons.prems(3) la by (cases s) (auto simp: dl outer_def)
  moreover have "pprev (vg_hlist_del x H) a = pprev H a"
    using Cons.prems(2) tl by (cases bs) (auto simp: dl)
  ultimately show ?case using Cons.prems(1) by simp
qed

lemma hchain_del_frame:
  assumes rep: "hchain H (Bucket b) (as @ x # bs)" and d: "distinct (as @ x # bs)"
    and oth: "hchain H (Bucket b') ys" and ne: "b' \<noteq> b" and disj: "set ys \<inter> set (as @ x # bs) = {}"
  shows "hchain (vg_hlist_del x H) (Bucket b') ys"
proof -
  let ?s = "if as = [] then Bucket b else NextOf (last as)"
  have pp: "pprev H x = Some ?s" and tl: "hchain H (NextOf x) bs"
    using hchain_member [OF rep] by simp_all
  have sne: "?s \<noteq> NextOf x" using d last_in_set [of as] by auto
  have nx: "hnext H x \<noteq> Some x" and nxt: "hnext H x = Some m \<Longrightarrow> m \<in> set bs" for m
    using tl d by (cases bs; auto)+
  note dl = hdel_links [OF pp sne nx]
  show ?thesis
    using oth
  proof (rule hchain_cong)
    show "read_slot (vg_hlist_del x H) (Bucket b') = read_slot H (Bucket b')"
      using ne by (simp add: dl)
    fix y assume "y \<in> set ys"
    then have "y \<noteq> x" "y \<notin> set bs" "as \<noteq> [] \<Longrightarrow> y \<noteq> last as" using disj by auto
    then show "hnext (vg_hlist_del x H) y = hnext H y \<and> pprev (vg_hlist_del x H) y = pprev H y"
      using nxt by (auto simp: dl split: option.splits)
  qed
qed

subsection \<open>The contract of a list store\<close>

text \<open>
  What the drop table relies on: a store in which heads represent lists, with the operations of
  \<open>list.h\<close> acting on the represented lists and leaving disjoint lists alone.
\<close>

locale list_store =
  fixes rep :: "'s \<Rightarrow> 'n \<Rightarrow> 'n list \<Rightarrow> bool"
    and init :: "'n \<Rightarrow> 's \<Rightarrow> 's"
    and add_tail :: "'n \<Rightarrow> 'n \<Rightarrow> 's \<Rightarrow> 's"
    and del :: "'n \<Rightarrow> 's \<Rightarrow> 's"
    and is_empty :: "'n \<Rightarrow> 's \<Rightarrow> bool"
  assumes rep_distinct: "rep L h xs \<Longrightarrow> distinct (h # xs)"
    and rep_init: "rep (init h L) h []"
    and init_frame: "rep L h' ys \<Longrightarrow> h \<notin> set (h' # ys) \<Longrightarrow> rep (init h L) h' ys"
    and rep_empty: "rep L h xs \<Longrightarrow> is_empty h L \<longleftrightarrow> xs = []"
    and rep_add: "rep L h xs \<Longrightarrow> n \<notin> set (h # xs) \<Longrightarrow> rep (add_tail n h L) h (xs @ [n])"
    and add_frame: "rep L h xs \<Longrightarrow> rep L h' ys \<Longrightarrow> n \<notin> set (h # xs) \<Longrightarrow>
      set (h' # ys) \<inter> set (n # h # xs) = {} \<Longrightarrow> rep (add_tail n h L) h' ys"
    and rep_del: "rep L h (as @ x # bs) \<Longrightarrow> rep (del x L) h (as @ bs)"
    and del_frame: "rep L h (as @ x # bs) \<Longrightarrow> rep L h' ys \<Longrightarrow>
      set (h' # ys) \<inter> set (h # as @ x # bs) = {} \<Longrightarrow> rep (del x L) h' ys"
begin

lemma move_tail:
  assumes a: "rep L h (as @ x # bs)" and b: "rep L h' ys"
    and disj: "set (h' # ys) \<inter> set (h # as @ x # bs) = {}"
  shows "rep (add_tail x h' (del x L)) h (as @ bs)"
    and "rep (add_tail x h' (del x L)) h' (ys @ [x])"
proof -
  have a': "rep (del x L) h (as @ bs)" using a by (rule rep_del)
  have b': "rep (del x L) h' ys" using a b disj by (rule del_frame)
  have x: "x \<notin> set (h' # ys)" "x \<notin> set (h # as @ bs)"
    using disj rep_distinct [OF a] by auto
  show "rep (add_tail x h' (del x L)) h' (ys @ [x])" using b' x(1) by (rule rep_add)
  have "set (h # as @ bs) \<inter> set (x # h' # ys) = {}" using disj x by auto
  then show "rep (add_tail x h' (del x L)) h (as @ bs)" using add_frame [OF b' a' x(1)] by blast
qed

lemma init_two: "h \<noteq> h' \<Longrightarrow> rep (init h (init h' L)) h [] \<and> rep (init h (init h' L)) h' []"
  using rep_init init_frame [OF rep_init, of h h'] by auto

end

lemma dll_init_frame: "dll L h' ys \<Longrightarrow> h \<notin> set (h' # ys) \<Longrightarrow> dll (vg_list_init h L) h' ys"
  by (rule dll_frame) (auto simp: vg_list_init_def link_defs)

lemma dll_distinct: "dll L h xs \<Longrightarrow> distinct (h # xs)"
  by (simp add: dll_def)

interpretation il: list_store dll vg_list_init vg_list_add_tail vg_list_del vg_list_empty
  by unfold_locales
    (fact dll_distinct dll_init dll_init_frame dll_empty dll_add_tail add_tail_frame dll_del
      del_frame)+

end
