(* ===== verification/Libc.thy ===== *)
theory Libc
  imports VG_Prelude
begin

section \<open>The C library routines the sources call\<close>

text \<open>
  C strings are \<open>string\<close> values without the terminating NUL. The routines here are the parts
  of the C library whose results the sources depend on: \<open>inet_pton\<close> and \<open>inet_ntop\<close>, decimal
  and hexadecimal printing, \<open>strchr\<close> splitting and character classes.
\<close>

subsection \<open>Characters and decimal numbers\<close>

definition is_digit :: "char \<Rightarrow> bool" where
  "is_digit ch \<longleftrightarrow> 48 \<le> (of_char ch :: nat) \<and> (of_char ch :: nat) \<le> 57"

definition digit_val :: "char \<Rightarrow> nat" where
  "digit_val ch = of_char ch - 48"

definition hex_val :: "char \<Rightarrow> nat option" where
  "hex_val ch =
     (let n = of_char ch :: nat in
      if 48 \<le> n \<and> n \<le> 57 then Some (n - 48)
      else if 97 \<le> n \<and> n \<le> 102 then Some (n - 87)
      else if 65 \<le> n \<and> n \<le> 70 then Some (n - 55)
      else None)"

fun dec_string :: "nat \<Rightarrow> string" where
  "dec_string n = (if n < 10 then [char_of (48 + n)]
     else dec_string (n div 10) @ [char_of (48 + n mod 10)])"

declare dec_string.simps [simp del]

definition hex_digit :: "nat \<Rightarrow> char" where
  "hex_digit n = (if n < 10 then char_of (48 + n) else char_of (87 + n))"

fun hex_string :: "nat \<Rightarrow> string" where
  "hex_string n = (if n < 16 then [hex_digit n] else hex_string (n div 16) @ [hex_digit (n mod 16)])"

declare hex_string.simps [simp del]

text \<open>
  \<open>strchr\<close>: the text before the first occurrence of a character and, if it occurs, the text
  after it.
\<close>

fun split_at :: "char \<Rightarrow> string \<Rightarrow> string \<times> string option" where
  "split_at c [] = ([], None)"
| "split_at c (x # xs) = (if x = c then ([], Some xs)
     else (case split_at c xs of (a, b) \<Rightarrow> (x # a, b)))"

subsection \<open>inet_pton\<close>

text \<open>
  Dotted decimal: exactly four numbers, each 0 to 255 with no leading zero, separated by single
  dots. \<open>octs\<close> are the finished octets, \<open>cur\<close> is the one being read.
\<close>

fun pton4_loop :: "nat list \<Rightarrow> nat option \<Rightarrow> string \<Rightarrow> bytes option" where
  "pton4_loop octs cur [] =
     (case cur of None \<Rightarrow> None
      | Some v \<Rightarrow> if length octs = 3 then Some (map of_nat (octs @ [v])) else None)"
| "pton4_loop octs cur (ch # s) =
     (if is_digit ch then
        (case cur of
           None \<Rightarrow> pton4_loop octs (Some (digit_val ch)) s
         | Some v \<Rightarrow>
             (if v = 0 \<or> v * 10 + digit_val ch > 255 then None
              else pton4_loop octs (Some (v * 10 + digit_val ch)) s))
      else if ch = CHR ''.'' then
        (case cur of None \<Rightarrow> None
         | Some v \<Rightarrow> if length octs = 3 then None else pton4_loop (octs @ [v]) None s)
      else None)"

definition inet_pton4 :: "string \<Rightarrow> bytes option" where
  "inet_pton4 s = pton4_loop [] None s"

text \<open>
  IPv6 text: groups of up to four hexadecimal digits separated by colons, one \<open>::\<close> for a run of
  zero groups, and optionally a dotted-decimal tail. \<open>out\<close> holds the bytes stored so far,
  \<open>colonp\<close> the position of \<open>::\<close>, \<open>tok\<close> the start of the current group, \<open>seen\<close> and \<open>v\<close> its
  digit count and value.
\<close>

definition pton6_finish :: "bytes \<Rightarrow> nat option \<Rightarrow> bytes option" where
  "pton6_finish out colonp =
     (case colonp of
        None \<Rightarrow> if length out = 16 then Some out else None
      | Some p \<Rightarrow>
          if length out = 16 then None
          else Some (take p out @ replicate (16 - length out) 0 @ drop p out))"

definition group_bytes :: "nat \<Rightarrow> bytes" where
  "group_bytes v = [of_nat (v div 256), of_nat (v mod 256)]"

fun pton6_loop ::
  "bytes \<Rightarrow> nat option \<Rightarrow> string \<Rightarrow> nat \<Rightarrow> nat \<Rightarrow> string \<Rightarrow> bytes option" where
  "pton6_loop out colonp tok seen v [] =
     (if seen > 0 then
        (if length out + 2 > 16 then None else pton6_finish (out @ group_bytes v) colonp)
      else pton6_finish out colonp)"
| "pton6_loop out colonp tok seen v (ch # s) =
     (case hex_val ch of
        Some d \<Rightarrow> if seen = 4 then None else pton6_loop out colonp tok (Suc seen) (v * 16 + d) s
      | None \<Rightarrow>
          if ch = CHR '':'' then
            (if seen = 0 then
               (if colonp \<noteq> None then None else pton6_loop out (Some (length out)) s 0 0 s)
             else if s = [] then None
             else if length out + 2 > 16 then None
             else pton6_loop (out @ group_bytes v) colonp s 0 0 s)
          else if ch = CHR ''.'' \<and> length out + 4 \<le> 16 then
            (case inet_pton4 tok of None \<Rightarrow> None | Some b \<Rightarrow> pton6_finish (out @ b) colonp)
          else None)"

definition inet_pton6 :: "string \<Rightarrow> bytes option" where
  "inet_pton6 s =
     (case s of
        c # s' \<Rightarrow>
          (if c = CHR '':'' then
             (case s' of c' # _ \<Rightarrow> if c' = CHR '':'' then pton6_loop [] None s' 0 0 s' else None
              | [] \<Rightarrow> None)
           else pton6_loop [] None s 0 0 s)
      | [] \<Rightarrow> pton6_loop [] None s 0 0 s)"

subsection \<open>inet_ntop\<close>

definition inet_ntop4 :: "bytes \<Rightarrow> string" where
  "inet_ntop4 a = dec_string (unat (a ! 0)) @ ''.'' @ dec_string (unat (a ! 1)) @ ''.''
     @ dec_string (unat (a ! 2)) @ ''.'' @ dec_string (unat (a ! 3))"

text \<open>The first longest run of zero groups, as (start, length), scanning from group \<open>i\<close>.\<close>

fun zero_run :: "nat list \<Rightarrow> nat" where
  "zero_run [] = 0"
| "zero_run (g # gs) = (if g = 0 then Suc (zero_run gs) else 0)"

fun best_run :: "nat \<Rightarrow> nat list \<Rightarrow> nat \<times> nat \<Rightarrow> nat \<times> nat" where
  "best_run i [] best = best"
| "best_run i (g # gs) best =
     best_run (Suc i) gs (if zero_run (g # gs) > snd best then (i, zero_run (g # gs)) else best)"

definition groups_of :: "bytes \<Rightarrow> nat list" where
  "groups_of a = map (\<lambda>i. unat (a ! (2 * i)) * 256 + unat (a ! (2 * i + 1))) [0..<8]"

fun ntop6_loop :: "bytes \<Rightarrow> nat list \<Rightarrow> nat \<times> nat \<Rightarrow> nat \<Rightarrow> nat list \<Rightarrow> string" where
  "ntop6_loop a all (base, len) i [] = (if len \<noteq> 0 \<and> base + len = 8 then '':'' else '''')"
| "ntop6_loop a all (base, len) i (g # gs) =
     (if len \<noteq> 0 \<and> base \<le> i \<and> i < base + len then
        (if i = base then '':'' else '''') @ ntop6_loop a all (base, len) (Suc i) gs
      else
        (if i \<noteq> 0 then '':'' else '''') @
        (if i = 6 \<and> len \<noteq> 0 \<and> base = 0 \<and> (len = 6 \<or> (len = 5 \<and> all ! 5 = 65535))
         then inet_ntop4 (drop 12 a)
         else hex_string g @ ntop6_loop a all (base, len) (Suc i) gs))"

definition inet_ntop6 :: "bytes \<Rightarrow> string" where
  "inet_ntop6 a =
     (let g = groups_of a; b = best_run 0 g (0, 0)
      in ntop6_loop a g (if snd b < 2 then (0, 0) else b) 0 g)"

subsection \<open>Numbers and tokens\<close>

text \<open>
  \<open>isspace\<close> in the C locale; \<open>strtoull\<close> in base 10: white space, one sign, digits. No digits is no
  conversion (\<open>None\<close>, where C leaves \<open>end == s\<close>); a value over \<open>2 ^ 64 - 1\<close> is clamped to it and a
  minus sign negates modulo \<open>2 ^ 64\<close>. The second result is the text from \<open>end\<close> on.
\<close>

definition isspace :: "char \<Rightarrow> bool" where
  "isspace ch \<longleftrightarrow> (let n = of_char ch :: nat in n = 32 \<or> 9 \<le> n \<and> n \<le> 13)"

definition dec_value :: "string \<Rightarrow> int" where
  "dec_value ds = foldl (\<lambda>n ch. 10 * n + int (digit_val ch)) 0 ds"

definition strtoull :: "string \<Rightarrow> (u64 \<times> string) option" where
  "strtoull s =
     (let s = dropWhile isspace s;
          neg = (case s of ch # _ \<Rightarrow> ch = CHR ''-'' | [] \<Rightarrow> False);
          s = (case s of ch # r \<Rightarrow> if ch = CHR ''-'' \<or> ch = CHR ''+'' then r else s | [] \<Rightarrow> s);
          ds = takeWhile is_digit s;
          n = dec_value ds
      in if ds = [] then None
         else Some (if n > 2 ^ 64 - 1 then - 1 else if neg then - word_of_int n else word_of_int n,
                    dropWhile is_digit s))"

text \<open>\<open>strtok_r\<close> with one delimiter: the next token and the text after its delimiter.\<close>

definition strtok :: "char \<Rightarrow> string \<Rightarrow> (string \<times> string) option" where
  "strtok d s =
     (let s = dropWhile (\<lambda>c. c = d) s in
      if s = [] then None
      else Some (takeWhile (\<lambda>c. c \<noteq> d) s, drop 1 (dropWhile (\<lambda>c. c \<noteq> d) s)))"

lemma strtok_length:
  assumes "strtok d s = Some (tok, rest)"
  shows "length rest < length s"
proof -
  define u where "u = dropWhile (\<lambda>c. c = d) s"
  define v where "v = dropWhile (\<lambda>c. c \<noteq> d) u"
  have "u \<noteq> []" "rest = drop 1 v"
    using assms by (auto simp: strtok_def Let_def u_def v_def split: if_splits)
  moreover have "length u \<le> length s" "length v \<le> length u"
    unfolding u_def v_def by (rule length_dropWhile_le)+
  ultimately show ?thesis by (cases u) auto
qed

end
