(* ===== verification/IpAddr.thy ===== *)
theory IpAddr
  imports Libc
begin

section \<open>Address prefixes: ipaddr.c\<close>

text \<open>
  \<open>struct vg_cidr\<close> and every routine of \<open>src/src/ipaddr.c\<close>. A parse that returns -1 is \<open>None\<close>.
  Pointer arguments are the objects they point to. The specification is a prefix read as the set
  of the addresses it covers (\<open>cidr_set\<close>): containment and overlap of prefixes are inclusion and
  intersection of these sets.
\<close>

datatype family = AF_INET | AF_INET6

definition AF_num :: "family \<Rightarrow> u32" where
  "AF_num f = (case f of AF_INET \<Rightarrow> 2 | AF_INET6 \<Rightarrow> 10)"

record vg_cidr =
  family :: family
  addr :: bytes
  prefixlen :: u8

definition nbytes :: "family \<Rightarrow> nat" where
  "nbytes f = (if f = AF_INET then 4 else 16)"

definition width :: "family \<Rightarrow> nat" where
  "width f = (if f = AF_INET then 32 else 128)"

fun mask_loop :: "int \<Rightarrow> bytes \<Rightarrow> bytes" where
  "mask_loop bits [] = []"
| "mask_loop bits (b # bs) =
     (if bits \<ge> 8 then b # mask_loop (bits - 8) bs
      else if bits > 0 then
        (b AND ucast (push_bit (nat (8 - bits)) (0xff :: u32))) # mask_loop 0 bs
      else 0 # mask_loop bits bs)"

definition vg_cidr_mask :: "vg_cidr \<Rightarrow> vg_cidr" where
  "vg_cidr_mask p =
     p\<lparr>addr := mask_loop (uint (prefixlen p)) (take (nbytes (family p)) (addr p))
               @ drop (nbytes (family p)) (addr p)\<rparr>"

text \<open>
  The prefix length after the slash: decimal digits only, checked against 128 before each step.
\<close>

fun plen_loop :: "int \<Rightarrow> string \<Rightarrow> int option" where
  "plen_loop plen [] = Some plen"
| "plen_loop plen (ch # s) =
     (if \<not> is_digit ch \<or> plen > 128 then None
      else plen_loop (plen * 10 + int (digit_val ch)) s)"

definition inet_pton :: "family \<Rightarrow> string \<Rightarrow> bytes option" where
  "inet_pton f s = (if f = AF_INET then inet_pton4 s else inet_pton6 s)"

definition inet_ntop :: "family \<Rightarrow> bytes \<Rightarrow> string" where
  "inet_ntop f a = (if f = AF_INET then inet_ntop4 a else inet_ntop6 a)"

text \<open>
  \<open>inet_pton\<close> fills the first 4 or 16 bytes of the zeroed 16-byte array.
\<close>

definition vg_parse_cidr_len :: "string \<Rightarrow> nat \<Rightarrow> vg_cidr option" where
  "vg_parse_cidr_len s n =
     (let tmp = take n s in
      if n \<ge> 128 \<or> CHR 0x00 \<in> set tmp then None
      else
        (let (host, slash) = split_at CHR ''/'' tmp;
             plen = (case slash of
                       None \<Rightarrow> Some (- 1)
                     | Some p \<Rightarrow> if p = [] then None else plen_loop 0 p)
         in case plen of
              None \<Rightarrow> None
            | Some l \<Rightarrow>
                (let fam = (if snd (split_at CHR '':'' host) \<noteq> None then AF_INET6 else AF_INET);
                     mx = (if fam = AF_INET6 then 128 else 32)
                 in case inet_pton fam host of
                      None \<Rightarrow> None
                    | Some a \<Rightarrow>
                        if l > mx then None
                        else Some (vg_cidr_mask
                               \<lparr>family = fam,
                                addr = a @ replicate (16 - length a) 0,
                                prefixlen = word_of_int (if l < 0 then mx else l)\<rparr>))))"

definition vg_parse_cidr :: "string \<Rightarrow> vg_cidr option" where
  "vg_parse_cidr s = vg_parse_cidr_len s (length s)"

definition bits_equal :: "bytes \<Rightarrow> bytes \<Rightarrow> int \<Rightarrow> bool" where
  "bits_equal a b bits =
     (let nb = nat (bits div 8); rem = nat (bits mod 8) in
      if nb \<noteq> 0 \<and> take nb a \<noteq> take nb b then False
      else if rem \<noteq> 0 \<and>
        (let mask = ucast (push_bit (8 - rem) (0xff :: u32)) :: u8
         in (a ! nb) AND mask \<noteq> (b ! nb) AND mask) then False
      else True)"

definition vg_cidr_contains :: "vg_cidr \<Rightarrow> vg_cidr \<Rightarrow> bool" where
  "vg_cidr_contains hay needle =
     (if family hay \<noteq> family needle then False
      else if prefixlen hay > prefixlen needle then False
      else bits_equal (addr hay) (addr needle) (uint (prefixlen hay)))"

definition vg_cidr_covers_or_overlaps :: "vg_cidr \<Rightarrow> vg_cidr \<Rightarrow> bool" where
  "vg_cidr_covers_or_overlaps a b = (vg_cidr_contains a b \<or> vg_cidr_contains b a)"

text \<open>\<open>snprintf\<close> keeps at most \<open>buflen - 1\<close> characters.\<close>

definition vg_cidr_to_str :: "vg_cidr \<Rightarrow> nat \<Rightarrow> string" where
  "vg_cidr_to_str p buflen =
     take (buflen - 1)
       (inet_ntop (family p) (addr p) @ ''/'' @ dec_string (unat (prefixlen p)))"

definition vg_cidr_v4_slash24 :: "vg_cidr \<Rightarrow> vg_cidr option" where
  "vg_cidr_v4_slash24 host =
     (if family host \<noteq> AF_INET then None else Some (vg_cidr_mask (host\<lparr>prefixlen := 24\<rparr>)))"

definition vg_cidr_v6_slash64 :: "vg_cidr \<Rightarrow> vg_cidr option" where
  "vg_cidr_v6_slash64 host =
     (if family host \<noteq> AF_INET6 then None else Some (vg_cidr_mask (host\<lparr>prefixlen := 64\<rparr>)))"

text \<open>
  \<open>vg_netmask_to_prefixlen\<close> counts the leading one bits: of the 32-bit word in host order for
  IPv4, byte by byte for IPv6, where the first byte that is not 0xff ends the count.
\<close>

fun lead_ones32 :: "u32 \<Rightarrow> nat \<Rightarrow> int" where
  "lead_ones32 m 0 = 0"
| "lead_ones32 m (Suc i) = (if bit m i then 1 + lead_ones32 m i else 0)"

fun lead_ones8 :: "u8 \<Rightarrow> nat \<Rightarrow> int" where
  "lead_ones8 c 0 = 0"
| "lead_ones8 c (Suc k) = (if bit c k then 1 + lead_ones8 c k else 0)"

fun netmask6_loop :: "bytes \<Rightarrow> int \<Rightarrow> int" where
  "netmask6_loop [] bits = bits"
| "netmask6_loop (c # cs) bits =
     (if c = 0xff then netmask6_loop cs (bits + 8) else bits + lead_ones8 c 8)"

definition be32 :: "bytes \<Rightarrow> u32" where
  "be32 b = push_bit 24 (ucast (b ! 0)) OR push_bit 16 (ucast (b ! 1))
            OR push_bit 8 (ucast (b ! 2)) OR ucast (b ! 3)"

definition vg_netmask_to_prefixlen :: "family \<Rightarrow> bytes \<Rightarrow> int" where
  "vg_netmask_to_prefixlen fam msk =
     (if fam = AF_INET then lead_ones32 (be32 msk) 32 else netmask6_loop (take 16 msk) 0)"

subsection \<open>Well-formed prefixes and the addresses they cover\<close>

text \<open>
  The array has 16 bytes, the length is within the family's width, the bytes beyond the family's
  address are zero and so are the bits beyond the prefix: what \<open>vg_parse_cidr\<close> and the policy
  code build.
\<close>

definition plen :: "vg_cidr \<Rightarrow> nat" where
  "plen p = unat (prefixlen p)"

definition cidr_ok :: "vg_cidr \<Rightarrow> bool" where
  "cidr_ok p \<longleftrightarrow> length (addr p) = 16 \<and> plen p \<le> width (family p)"

definition cidr_wf :: "vg_cidr \<Rightarrow> bool" where
  "cidr_wf p \<longleftrightarrow> cidr_ok p \<and> vg_cidr_mask p = p \<and>
     drop (nbytes (family p)) (addr p) = replicate (16 - nbytes (family p)) 0"

definition cidr_set :: "vg_cidr \<Rightarrow> (family \<times> bytes) set" where
  "cidr_set p = {(f, a). f = family p \<and> length a = nbytes f \<and> agree (plen p) (addr p) a}"


lemmas cidr_defs = cidr_ok_def cidr_wf_def plen_def width_def nbytes_def

subsection \<open>Bit-level meaning of the masks and of the comparison\<close>

lemma bit_prefix_mask:
  "r < 8 \<Longrightarrow> bit (ucast (push_bit (8 - r) (0xff :: u32)) :: u8) j \<longleftrightarrow> j < 8 \<and> 8 - r \<le> j"
proof -
  assume r: "r < 8"
  have ff: "bit (0xff :: u32) k \<longleftrightarrow> k < 8" for k
  proof -
    have "(0xff :: u32) = mask 8" by (simp add: mask_eq_exp_minus_1)
    then show ?thesis by (simp only: bit_mask_iff) auto
  qed
  have "bit (ucast (push_bit (8 - r) (0xff :: u32)) :: u8) j \<longleftrightarrow> j < 8 \<and> 8 - r \<le> j \<and> j - (8 - r) < 8"
    by (simp only: bit_ucast_iff bit_push_bit_iff ff) auto
  with r show ?thesis by linarith
qed

lemma bits_equal_agree:
  assumes la: "length a = 16" and lb: "length b = 16" and n: "n \<le> 128"
  shows "bits_equal a b (int n) \<longleftrightarrow> agree n a b"
proof -
  define nb where "nb = n div 8"
  define r where "r = n mod 8"
  have n_eq: "n = 8 * nb + r" and r8: "r < 8" by (simp_all add: nb_def r_def)
  have nb16: "nb \<le> 16" using n by (simp add: nb_def)
  have conv: "nat (int n div 8) = nb" "nat (int n mod 8) = r"
    by (simp_all add: nb_def r_def nat_div_distrib nat_mod_distrib)
  have bytes: "take nb a = take nb b \<longleftrightarrow> agree (8 * nb) a b"
    using la lb nb16 by (simp add: take_eq_iff_nth agree_bytes)
  let ?m = "ucast (push_bit (8 - r) (0xff :: u32)) :: u8"
  have tail: "(a ! nb AND ?m = b ! nb AND ?m) \<longleftrightarrow> (\<forall>j<r. bit_at a (8 * nb + j) = bit_at b (8 * nb + j))"
    if "r \<noteq> 0"
  proof -
    have mbit: "bit ?m (7 - j) \<longleftrightarrow> j < r" if "j < 8" for j
      using that r8 by (subst bit_prefix_mask [OF r8]) linarith
    have "(a ! nb AND ?m = b ! nb AND ?m) \<longleftrightarrow>
            (\<forall>j<8. bit (a ! nb AND ?m) (7 - j) = bit (b ! nb AND ?m) (7 - j))"
      by (rule byte_eq_iff)
    also have "\<dots> \<longleftrightarrow> (\<forall>j<8. j < r \<longrightarrow> bit (a ! nb) (7 - j) = bit (b ! nb) (7 - j))"
      using mbit by (auto simp only: bit_and_iff)
    also have "\<dots> \<longleftrightarrow> (\<forall>j<r. bit (a ! nb) (7 - j) = bit (b ! nb) (7 - j))"
      using r8 by (auto dest: less_trans)
    finally show ?thesis using r8 by (simp add: bit_at_byte)
  qed
  have "agree n a b \<longleftrightarrow> agree (8 * nb) a b \<and> (\<forall>j<r. bit_at a (8 * nb + j) = bit_at b (8 * nb + j))"
    unfolding n_eq by (rule agree_split)
  then show ?thesis
    using bytes tail by (auto simp: bits_equal_def Let_def conv)
qed

lemma length_mask_loop [simp]: "length (mask_loop n bs) = length bs"
  by (induction n bs rule: mask_loop.induct) auto

lemma bit_at_Cons: "bit_at (b # bs) i = (if i < 8 then bit b (7 - i) else bit_at bs (i - 8))"
proof (cases "i < 8")
  case True
  then show ?thesis by (simp add: bit_at_def)
next
  case False
  then have "i div 8 = Suc ((i - 8) div 8)" and "i mod 8 = (i - 8) mod 8"
    by (simp_all add: le_div_geq le_mod_geq)
  with False show ?thesis by (simp add: bit_at_def)
qed

lemma bit_at_mask_loop:
  "i < 8 * length bs \<Longrightarrow> bit_at (mask_loop (int n) bs) i \<longleftrightarrow> i < n \<and> bit_at bs i"
proof (induction bs arbitrary: n i)
  case Nil
  then show ?case by simp
next
  case (Cons b bs)
  show ?case
  proof (cases "n \<ge> 8")
    case True
    then have "mask_loop (int n) (b # bs) = b # mask_loop (int (n - 8)) bs"
      by (simp add: of_nat_diff)
    with True Cons.prems Cons.IH [of "i - 8" "n - 8"] show ?thesis
      by (auto simp: bit_at_Cons)
  next
    case False
    have zero: "mask_loop (int n) (b # bs) =
        (if n > 0 then b AND ucast (push_bit (8 - n) (0xff :: u32)) else 0) # mask_loop (int 0) bs"
      using False by (simp add: nat_diff_distrib)
    from False have "n < 8" by simp
    then show ?thesis
      using Cons.prems Cons.IH [of "i - 8" 0] unfolding zero
      by (auto simp: bit_at_Cons bit_and_iff bit_prefix_mask)
  qed
qed

lemma mask_loop_agree: "n \<le> 8 * length bs \<Longrightarrow> agree n (mask_loop (int n) bs) bs"
  by (auto simp: agree_def bit_at_mask_loop)

lemma mask_loop_idem: "mask_loop (int n) (mask_loop (int n) bs) = mask_loop (int n) bs"
proof -
  have "agree (8 * length bs) (mask_loop (int n) (mask_loop (int n) bs)) (mask_loop (int n) bs)"
    by (auto simp: agree_def bit_at_mask_loop)
  then show ?thesis using agree_all_eq [of _ "length bs"] by simp
qed

text \<open>Two masked arrays of one length that agree on the prefix are equal.\<close>

lemma mask_loop_eqI:
  assumes "length a = length b" and "agree n a b"
  shows "mask_loop (int n) a = mask_loop (int n) b"
proof -
  have "agree (8 * length a) (mask_loop (int n) a) (mask_loop (int n) b)"
    using assms by (auto simp: agree_def bit_at_mask_loop)
  then show ?thesis using agree_all_eq [of _ "length a"] assms by simp
qed

subsection \<open>Containment and overlap as sets of addresses\<close>

lemma width_nbytes: "width f = 8 * nbytes f"
  by (simp add: width_def nbytes_def)

lemma nbytes_le [simp]: "nbytes f \<le> 16"
  by (simp add: nbytes_def)

lemma bit_at_take: "i < 8 * n \<Longrightarrow> bit_at (take n a) i = bit_at a i"
  by (simp add: bit_at_def less_mult_imp_div_less mult.commute)

lemma agree_take: "m \<le> 8 * n \<Longrightarrow> agree m a (take n a)"
  by (auto simp: agree_def bit_at_take)

lemma cidr_set_base:
  "cidr_ok p \<Longrightarrow> (family p, take (nbytes (family p)) (addr p)) \<in> cidr_set p"
  by (auto simp: cidr_set_def cidr_ok_def width_nbytes intro: agree_take)

definition flip_at :: "nat \<Rightarrow> bytes \<Rightarrow> bytes" where
  "flip_at i a = a[i div 8 := flip_bit (7 - i mod 8) (a ! (i div 8))]"

lemma bit_at_flip:
  assumes "i < 8 * length a"
  shows "bit_at (flip_at i a) j = (if j = i then \<not> bit_at a j else bit_at a j)"
proof (cases "j div 8 = i div 8")
  case True
  have "i div 8 < length a" using assms by (simp add: less_mult_imp_div_less mult.commute)
  moreover have "j = i \<longleftrightarrow> j mod 8 = i mod 8" using True by (metis mod_div_decomp)
  moreover have "7 - j mod 8 = 7 - i mod 8 \<longleftrightarrow> j mod 8 = i mod 8"
    using mod_less_divisor [of 8 i] mod_less_divisor [of 8 j] by linarith
  moreover have "7 - j mod 8 < 8" by simp
  ultimately show ?thesis using True
    by (auto simp: bit_at_def flip_at_def bit_flip_bit_iff)
next
  case False
  then have "j \<noteq> i" by auto
  with False show ?thesis by (simp add: bit_at_def flip_at_def)
qed

lemma length_flip_at [simp]: "length (flip_at i a) = length a"
  by (simp add: flip_at_def)

lemma vg_cidr_contains_alt:
  assumes "cidr_ok hay" and "cidr_ok needle"
  shows "vg_cidr_contains hay needle \<longleftrightarrow>
     family hay = family needle \<and> plen hay \<le> plen needle \<and>
     agree (plen hay) (addr hay) (addr needle)"
proof -
  have "plen hay \<le> 128"
    using assms by (auto simp: cidr_ok_def width_def split: if_splits)
  then have "bits_equal (addr hay) (addr needle) (uint (prefixlen hay)) \<longleftrightarrow>
      agree (plen hay) (addr hay) (addr needle)"
    using assms bits_equal_agree [of "addr hay" "addr needle" "plen hay"]
    by (simp add: cidr_ok_def plen_def)
  then show ?thesis
    by (auto simp: vg_cidr_contains_def plen_def word_less_nat_alt)
qed

lemma contains_imp_subset:
  assumes "cidr_ok hay" and "cidr_ok needle" and "vg_cidr_contains hay needle"
  shows "cidr_set needle \<subseteq> cidr_set hay"
  using assms
  by (auto simp: vg_cidr_contains_alt cidr_set_def intro: agree_trans agree_mono)

lemma subset_imp_contains:
  assumes hay: "cidr_ok hay" and nd: "cidr_ok needle" and sub: "cidr_set needle \<subseteq> cidr_set hay"
  shows "vg_cidr_contains hay needle"
proof -
  let ?n = "nbytes (family needle)"
  let ?a = "take ?n (addr needle)"
  have base: "(family needle, ?a) \<in> cidr_set hay"
    using sub cidr_set_base [OF nd] by blast
  then have fam: "family hay = family needle" and ag: "agree (plen hay) (addr hay) ?a"
    by (auto simp: cidr_set_def)
  have len: "length ?a = ?n" and w: "plen needle \<le> 8 * ?n" "plen hay \<le> 8 * ?n"
    using nd hay fam by (auto simp: cidr_ok_def width_nbytes)
  have le: "plen hay \<le> plen needle"
  proof (rule ccontr)
    assume "\<not> plen hay \<le> plen needle"
    then have lt: "plen needle < plen hay" by simp
    let ?b = "flip_at (plen needle) ?a"
    have i: "plen needle < 8 * length ?a" using lt w len by simp
    have "agree (plen needle) (addr needle) ?b"
      using agree_take [OF w(1), of "addr needle"] by (auto simp: agree_def bit_at_flip [OF i])
    then have "(family needle, ?b) \<in> cidr_set needle" using len by (simp add: cidr_set_def)
    with sub have "(family needle, ?b) \<in> cidr_set hay" by blast
    then have "agree (plen hay) (addr hay) ?b" using fam by (simp add: cidr_set_def)
    with ag lt have "bit_at ?a (plen needle) = bit_at ?b (plen needle)" by (auto simp: agree_def)
    then show False by (simp add: bit_at_flip [OF i])
  qed
  have "agree (plen hay) (addr hay) (addr needle)"
    using ag agree_take [OF w(2), of "addr needle"] by (blast intro: agree_trans agree_sym)
  then show ?thesis using fam le by (simp add: vg_cidr_contains_alt [OF hay nd])
qed

text \<open>
  C26: \<open>vg_cidr_contains\<close> decides containment: one prefix contains another exactly when every
  address of the second is an address of the first.
\<close>

theorem contains_iff_subset:
  assumes "cidr_ok hay" and "cidr_ok needle"
  shows "vg_cidr_contains hay needle \<longleftrightarrow> cidr_set needle \<subseteq> cidr_set hay"
  using assms contains_imp_subset subset_imp_contains by blast

definition ex_net :: vg_cidr where
  "ex_net = \<lparr>family = AF_INET, addr = [203, 0, 113, 0] @ replicate 12 0, prefixlen = 24\<rparr>"

definition ex_host :: vg_cidr where
  "ex_host = \<lparr>family = AF_INET, addr = [203, 0, 113, 7] @ replicate 12 0, prefixlen = 32\<rparr>"

lemma ex_ok [simp]: "cidr_ok ex_net" "cidr_ok ex_host"
  by (simp_all add: cidr_defs ex_net_def ex_host_def)

theorem contains_iff_subset_witness:
  "vg_cidr_contains ex_net ex_host \<and> cidr_set ex_host \<subseteq> cidr_set ex_net \<and>
   \<not> cidr_set ex_net \<subseteq> cidr_set ex_host"
proof -
  have "vg_cidr_contains ex_net ex_host" and "\<not> vg_cidr_contains ex_host ex_net"
    by code_simp+
  then show ?thesis
    using contains_iff_subset [OF ex_ok] contains_iff_subset [OF ex_ok(2) ex_ok(1)] by blast
qed

lemma overlaps_iff:
  assumes a: "cidr_ok a" and b: "cidr_ok b"
  shows "vg_cidr_covers_or_overlaps a b \<longleftrightarrow> cidr_set a \<inter> cidr_set b \<noteq> {}"
proof
  assume "vg_cidr_covers_or_overlaps a b"
  then show "cidr_set a \<inter> cidr_set b \<noteq> {}"
    using contains_imp_subset [OF a b] contains_imp_subset [OF b a] cidr_set_base a b
    by (auto simp: vg_cidr_covers_or_overlaps_def)
next
  assume "cidr_set a \<inter> cidr_set b \<noteq> {}"
  then obtain x where f: "family a = family b" and xa: "agree (plen a) (addr a) x"
    and xb: "agree (plen b) (addr b) x"
    by (auto simp: cidr_set_def)
  show "vg_cidr_covers_or_overlaps a b"
  proof (cases "plen a \<le> plen b")
    case True
    then have "agree (plen a) (addr a) (addr b)"
      using xa xb by (blast intro: agree_trans agree_sym agree_mono)
    then show ?thesis using True f
      by (simp add: vg_cidr_covers_or_overlaps_def vg_cidr_contains_alt [OF a b])
  next
    case False
    then have "agree (plen b) (addr b) (addr a)"
      using xa xb by (meson agree_trans agree_sym agree_mono nat_le_linear)
    then show ?thesis using False f
      by (simp add: vg_cidr_covers_or_overlaps_def vg_cidr_contains_alt [OF b a])
  qed
qed

text \<open>
  C27: \<open>vg_cidr_covers_or_overlaps\<close> decides overlap: it holds exactly when some address lies in
  both prefixes, in whichever order they are given.
\<close>

theorem overlaps_iff_common_address:
  assumes "cidr_ok a" and "cidr_ok b"
  shows "vg_cidr_covers_or_overlaps a b \<longleftrightarrow> cidr_set a \<inter> cidr_set b \<noteq> {}"
  using assms by (rule overlaps_iff)

theorem overlaps_iff_common_address_witness:
  "vg_cidr_covers_or_overlaps ex_host ex_net \<and> cidr_set ex_host \<inter> cidr_set ex_net \<noteq> {}"
proof -
  have "vg_cidr_covers_or_overlaps ex_host ex_net" by code_simp
  then show ?thesis using overlaps_iff_common_address [OF ex_ok(2) ex_ok(1)] by blast
qed

subsection \<open>Masking and parsing give well-formed prefixes\<close>

lemma mask_fields [simp]:
  "family (vg_cidr_mask p) = family p" "prefixlen (vg_cidr_mask p) = prefixlen p"
  "plen (vg_cidr_mask p) = plen p" "length (addr (vg_cidr_mask p)) = length (addr p)"
  by (simp_all add: vg_cidr_mask_def plen_def)

lemma mask_ok [simp]: "cidr_ok (vg_cidr_mask p) = cidr_ok p"
  by (simp add: cidr_ok_def)

lemma bit_at_append: "i < 8 * length a \<Longrightarrow> bit_at (a @ b) i = bit_at a i"
  by (simp add: bit_at_def nth_append less_mult_imp_div_less mult.commute)

lemma mask_agree:
  assumes "cidr_ok p"
  shows "agree (plen p) (addr (vg_cidr_mask p)) (addr p)"
proof -
  let ?n = "nbytes (family p)"
  have len: "length (take ?n (addr p)) = ?n" and w: "plen p \<le> 8 * ?n"
    using assms by (simp_all add: cidr_ok_def width_nbytes)
  have "agree (plen p) (mask_loop (int (plen p)) (take ?n (addr p))) (take ?n (addr p))"
    using mask_loop_agree [of "plen p" "take ?n (addr p)"] len w by simp
  then show ?thesis
    using w len by (auto simp: agree_def vg_cidr_mask_def plen_def bit_at_append bit_at_take)
qed

lemma cidr_set_mask [simp]: "cidr_ok p \<Longrightarrow> cidr_set (vg_cidr_mask p) = cidr_set p"
  using mask_agree by (auto simp: cidr_set_def intro: agree_trans agree_sym)

lemma mask_idem: "cidr_ok p \<Longrightarrow> vg_cidr_mask (vg_cidr_mask p) = vg_cidr_mask p"
  using mask_loop_idem [of "plen p" "take (nbytes (family p)) (addr p)"]
  by (simp add: vg_cidr_mask_def cidr_ok_def plen_def)

lemma mask_wf:
  "cidr_ok p \<Longrightarrow> drop (nbytes (family p)) (addr p) = replicate (16 - nbytes (family p)) 0 \<Longrightarrow>
   cidr_wf (vg_cidr_mask p)"
  by (simp add: cidr_wf_def mask_idem) (simp add: vg_cidr_mask_def cidr_ok_def)

lemma mask_loop_full: "mask_loop (8 * int (length bs)) bs = bs"
  by (induction bs) simp_all

lemma wf_ok: "cidr_wf p \<Longrightarrow> cidr_ok p"
  by (simp add: cidr_wf_def)

text \<open>A well-formed prefix is determined by its family, its length and its address bytes.\<close>

lemma wf_eqI:
  assumes "cidr_wf p" "cidr_wf q" "family p = family q" "prefixlen p = prefixlen q"
    "take (nbytes (family p)) (addr p) = take (nbytes (family p)) (addr q)"
  shows "p = q"
proof -
  have "addr p = take (nbytes (family p)) (addr p) @ drop (nbytes (family p)) (addr p)" by simp
  also have "\<dots> = take (nbytes (family p)) (addr q) @ drop (nbytes (family p)) (addr q)"
    using assms by (simp add: cidr_wf_def)
  finally show ?thesis using assms by (cases p, cases q) simp
qed

lemma pton4_loop_length: "pton4_loop octs cur s = Some a \<Longrightarrow> length a = 4"
  by (induction octs cur s rule: pton4_loop.induct) (auto split: option.splits if_splits)

lemma pton6_finish_length:
  "length out \<le> 16 \<Longrightarrow> pton6_finish out colonp = Some a \<Longrightarrow> length a = 16"
  by (auto simp: pton6_finish_def split: option.splits if_splits)

lemma pton6_tail_length:
  "pton4_loop [] None tok = Some b \<Longrightarrow> pton6_finish (out @ b) colonp = Some a \<Longrightarrow>
   length out \<le> 12 \<Longrightarrow> length a = 16"
  by (drule pton4_loop_length) (rule pton6_finish_length [of "out @ b"], simp_all)

lemma pton6_loop_length:
  "pton6_loop out colonp tok seen v s = Some a \<Longrightarrow> length out \<le> 16 \<Longrightarrow> length a = 16"
proof (induction out colonp tok seen v s rule: pton6_loop.induct)
  case (1 out colonp tok seen v)
  then show ?case
    by (auto split: if_splits simp: group_bytes_def dest: pton6_finish_length [rotated])
next
  case (2 out colonp tok seen v ch s)
  show ?case
    using "2.prems" "2.IH"
    by (auto split: option.splits if_splits simp: group_bytes_def inet_pton4_def
        dest: pton6_tail_length pton6_finish_length [rotated])
qed

lemma inet_pton_length: "inet_pton f s = Some a \<Longrightarrow> length a = nbytes f"
  by (auto simp: inet_pton_def inet_pton4_def inet_pton6_def nbytes_def pton4_loop_length
      split: if_splits list.splits simp del: pton6_loop.simps dest!: pton6_loop_length)

lemma plen_loop_nonneg: "plen_loop l s = Some r \<Longrightarrow> 0 \<le> l \<Longrightarrow> 0 \<le> r"
  by (induction l s rule: plen_loop.induct) (auto split: if_splits)

lemma parse_len_wf: "vg_parse_cidr_len s n = Some p \<Longrightarrow> cidr_wf p"
proof -
  assume h: "vg_parse_cidr_len s n = Some p"
  obtain host slash where sp: "split_at CHR ''/'' (take n s) = (host, slash)" by fastforce
  define l where "l = (case slash of None \<Rightarrow> Some (- 1)
      | Some q \<Rightarrow> if q = [] then None else plen_loop 0 q)"
  define fam where "fam = (if snd (split_at CHR '':'' host) \<noteq> None then AF_INET6 else AF_INET)"
  define mx :: int where "mx = (if fam = AF_INET6 then 128 else 32)"
  from h sp obtain k a where k: "l = Some k" "k \<le> mx" and a: "inet_pton fam host = Some a"
    and p: "p = vg_cidr_mask \<lparr>family = fam, addr = a @ replicate (16 - length a) 0,
      prefixlen = word_of_int (if k < 0 then mx else k)\<rparr>"
    by (auto simp: vg_parse_cidr_len_def Let_def l_def fam_def mx_def split: option.splits if_splits)
  have "0 \<le> k \<or> k = -1"
    using k(1) plen_loop_nonneg by (fastforce simp: l_def split: option.splits if_splits)
  then have "uint (word_of_int (if k < 0 then mx else k) :: u8) \<le> int (width fam)"
    using k(2) by (auto simp: width_def mx_def uint_word_of_int split: if_splits)
  then have "unat (word_of_int (if k < 0 then mx else k) :: u8) \<le> width fam"
    by (simp only: unat_eq_nat_uint nat_le_iff)
  then show ?thesis
    unfolding p using inet_pton_length [OF a]
    by (intro mask_wf) (auto simp: cidr_ok_def plen_def nbytes_def)
qed

end
