(* ===== verification/Shared.thy ===== *)
theory Shared
  imports IpAddr
begin

section \<open>Types shared by the data plane and the control plane: bpf/voidgate.h\<close>

text \<open>
  The constants and structs of \<open>src/src/bpf/voidgate.h\<close>. The packet header structs are not
  records here: the packet is a list of bytes and the data plane reads it at the offsets these
  packed structs have (\<open>Xdp\<close>).
\<close>

definition VG_MAX_ALLOW_PORTS :: nat where [simp]: "VG_MAX_ALLOW_PORTS = 8"
definition VG_MAX_VLANS :: nat where [simp]: "VG_MAX_VLANS = 2"
definition VG_MAX_IPV6_EXT :: nat where [simp]: "VG_MAX_IPV6_EXT = 8"

definition VG_DROP_MAP_MAX :: u32 where [simp]: "VG_DROP_MAP_MAX = 65536"
definition VG_REMOTE_MAP_MAX :: u32 where [simp]: "VG_REMOTE_MAP_MAX = 262144"
definition VG_HOST_MAP_MAX :: u32 where [simp]: "VG_HOST_MAP_MAX = 1024"
definition VG_LPM_MAP_MAX :: u32 where [simp]: "VG_LPM_MAP_MAX = 4096"

definition VG_REASON_MANUAL :: u32 where [simp]: "VG_REASON_MANUAL = 1"
definition VG_REASON_POLICY :: u32 where [simp]: "VG_REASON_POLICY = 2"
definition VG_REASON_AGGREGATE :: u32 where [simp]: "VG_REASON_AGGREGATE = 3"
definition VG_REASON_TIMED :: u32 where [simp]: "VG_REASON_TIMED = 4"

definition VG_IPPROTO_TCP :: u8 where [simp]: "VG_IPPROTO_TCP = 6"
definition VG_IPPROTO_UDP :: u8 where [simp]: "VG_IPPROTO_UDP = 17"
definition VG_IPPROTO_ICMPV6 :: u8 where [simp]: "VG_IPPROTO_ICMPV6 = 58"
definition VG_IPPROTO_FRAGMENT :: u8 where [simp]: "VG_IPPROTO_FRAGMENT = 44"
definition VG_IPPROTO_HOPOPTS :: u8 where [simp]: "VG_IPPROTO_HOPOPTS = 0"
definition VG_IPPROTO_ROUTING :: u8 where [simp]: "VG_IPPROTO_ROUTING = 43"
definition VG_IPPROTO_AH :: u8 where [simp]: "VG_IPPROTO_AH = 51"
definition VG_IPPROTO_DSTOPTS :: u8 where [simp]: "VG_IPPROTO_DSTOPTS = 60"

definition VG_ETH_P_IP :: u16 where [simp]: "VG_ETH_P_IP = 0x0800"
definition VG_ETH_P_IPV6 :: u16 where [simp]: "VG_ETH_P_IPV6 = 0x86dd"
definition VG_ETH_P_8021Q :: u16 where [simp]: "VG_ETH_P_8021Q = 0x8100"
definition VG_ETH_P_8021AD :: u16 where [simp]: "VG_ETH_P_8021AD = 0x88a8"

definition VG_NDISC_RS :: u8 where [simp]: "VG_NDISC_RS = 133"
definition VG_NDISC_REDIRECT :: u8 where [simp]: "VG_NDISC_REDIRECT = 137"
definition VG_NDISC_HOP_LIMIT :: u8 where [simp]: "VG_NDISC_HOP_LIMIT = 255"

record host_counters =
  in_pkts :: u64
  in_bytes :: u64

record vg_metrics =
  rx_pkts :: u64
  rx_bytes :: u64
  passed :: u64
  dropped :: u64
  non_ip :: u64
  map_full :: u64
  parse_err :: u64

text \<open>\<open>struct vg_cfg\<close>, the value of the \<open>cfg\<close> map; its port array always has 8 entries.\<close>

record vg_cfg =
  armed :: u32
  bc_allow_ports :: "u16 list"
  bc_allow_port_count :: u16

record drop_entry =
  e_reason :: u32
  insert_time :: u32

text \<open>\<open>struct vg_lpm_v4\<close> and \<open>struct vg_lpm_v6\<close>: a length and 4 or 16 bytes.\<close>

record lpm_key =
  kplen :: u32
  kdata :: bytes

end
