(* ===== verification/Config.thy ===== *)
theory Config
  imports Shared
begin

section \<open>Configuration: config.h and config.c\<close>

text \<open>
  \<open>struct vg_config\<close> and the protection test. The fixed arrays with their counts are lists
  (\<open>allow_ports\<close>, \<open>local_cidr\<close>, \<open>allow_cidr\<close>); C \<open>int\<close> fields are \<open>int\<close>.
\<close>

definition VG_MAX_CIDR_LIST :: nat where [simp]: "VG_MAX_CIDR_LIST = 256"
definition VG_MAX_IFACE :: nat where [simp]: "VG_MAX_IFACE = 32"
definition VG_CFG_PATH_MAX :: nat where [simp]: "VG_CFG_PATH_MAX = 256"

record vg_config =
  interface :: string
  xdp_mode :: string
  log_file :: string
  pid_file :: string
  ctl_socket_group :: string
  wake_pps :: u64
  wake_mbps :: u64
  idle_poll_ms :: int
  clear_seconds :: int
  threshold_pps :: u64
  threshold_mbps :: u64
  ban_time :: int
  aggregate_k :: int
  metrics_port :: int
  remote_map_size :: u32
  drop_map_size :: u32
  allow_ports :: "u16 list"
  local_cidr :: "vg_cidr list"
  allow_cidr :: "vg_cidr list"
  auto_local :: bool

fun any_overlap :: "vg_cidr \<Rightarrow> vg_cidr list \<Rightarrow> bool" where
  "any_overlap p [] = False"
| "any_overlap p (q # qs) = (if vg_cidr_covers_or_overlaps p q then True else any_overlap p qs)"

definition vg_cidr_is_protected :: "vg_config \<Rightarrow> vg_cidr \<Rightarrow> bool" where
  "vg_cidr_is_protected cfg p =
     (if any_overlap p (local_cidr cfg) then True
      else if any_overlap p (allow_cidr cfg) then True
      else False)"

text \<open>Every prefix of the configuration is a well-formed one.\<close>

definition config_ok :: "vg_config \<Rightarrow> bool" where
  "config_ok cfg \<longleftrightarrow> (\<forall>p \<in> set (local_cidr cfg) \<union> set (allow_cidr cfg). cidr_wf p)"

definition protected_set :: "vg_config \<Rightarrow> (family \<times> bytes) set" where
  "protected_set cfg = (\<Union>q \<in> set (local_cidr cfg) \<union> set (allow_cidr cfg). cidr_set q)"

lemma any_overlap_iff: "any_overlap p qs \<longleftrightarrow> (\<exists>q\<in>set qs. vg_cidr_covers_or_overlaps p q)"
  by (induction qs) auto

lemma is_protected_iff:
  "vg_cidr_is_protected cfg p \<longleftrightarrow>
     (\<exists>q \<in> set (local_cidr cfg) \<union> set (allow_cidr cfg). vg_cidr_covers_or_overlaps p q)"
  by (auto simp: vg_cidr_is_protected_def any_overlap_iff)

text \<open>A prefix is protected exactly when it covers a protected address.\<close>

lemma is_protected_set:
  assumes "config_ok cfg" "cidr_ok p"
  shows "vg_cidr_is_protected cfg p \<longleftrightarrow> cidr_set p \<inter> protected_set cfg \<noteq> {}"
  using assms overlaps_iff [OF assms(2)] wf_ok
  by (auto simp: is_protected_iff protected_set_def config_ok_def)

end
