(* ===== verification/Kernel.thy ===== *)
theory Kernel
  imports Config
begin

section \<open>The kernel side: BPF maps and clocks\<close>

text \<open>
  The BPF maps live in the kernel and are reached through libbpf; neither is part of the
  repository. They are a parameter of the model: a record of the operations the sources call, on
  a state \<open>'w\<close> of the outside world that every call reads and may change. A failing call gives
  an \<open>errno\<close>. The locale \<open>bpf_kernel\<close> names what the sources rely on (the documented behaviour of
  \<open>BPF_MAP_TYPE_LPM_TRIE\<close> and \<open>BPF_MAP_TYPE_ARRAY\<close>); calls that only read, and the clocks, may
  let the data plane run meanwhile, so they return a new world, but they keep the maps only
  user space writes. \<open>ref_kernel\<close> is an executable kernel with these laws, on which the locale is
  interpreted.
\<close>

datatype errno = ENOENT | ENOSPC | EINTR | EWOULDBLOCK | ESRCH | Errno nat

datatype lpm_map = Drop_v4 | Drop_v6 | Allow_v4 | Allow_v6 | Local_v4 | Local_v6

datatype percpu_map = Metrics | Remote_v4 | Remote_v6

datatype lpm_val = DropV drop_entry | MarkV u8

record timespec =
  tv_sec :: int
  tv_nsec :: int

record 'w kern =
  k_lpm_update :: "lpm_map \<Rightarrow> lpm_key \<Rightarrow> lpm_val \<Rightarrow> 'w \<Rightarrow> errno option \<times> 'w"
  k_lpm_delete :: "lpm_map \<Rightarrow> lpm_key \<Rightarrow> 'w \<Rightarrow> errno option \<times> 'w"
  k_lpm_next :: "lpm_map \<Rightarrow> lpm_key option \<Rightarrow> 'w \<Rightarrow> (errno + lpm_key) \<times> 'w"
  k_lpm_lookup :: "lpm_map \<Rightarrow> lpm_key \<Rightarrow> 'w \<Rightarrow> lpm_val option"
  k_cfg_update :: "vg_cfg \<Rightarrow> 'w \<Rightarrow> errno option \<times> 'w"
  k_cfg_lookup :: "'w \<Rightarrow> vg_cfg option"
  k_max_entries :: "lpm_map \<Rightarrow> 'w \<Rightarrow> nat"
  k_map_fd :: "percpu_map \<Rightarrow> 'w \<Rightarrow> int"
  k_percpu_lookup :: "percpu_map \<Rightarrow> bytes \<Rightarrow> 'w \<Rightarrow> (errno + u64 list list) \<times> 'w"
  k_percpu_next :: "percpu_map \<Rightarrow> bytes option \<Rightarrow> 'w \<Rightarrow> (errno + bytes) \<times> 'w"
  k_time :: "'w \<Rightarrow> int \<times> 'w"
  k_monotonic :: "'w \<Rightarrow> timespec \<times> 'w"

subsection \<open>Keys\<close>

fun map_bytes :: "lpm_map \<Rightarrow> nat" where
  "map_bytes Drop_v4 = 4" | "map_bytes Allow_v4 = 4" | "map_bytes Local_v4 = 4"
| "map_bytes Drop_v6 = 16" | "map_bytes Allow_v6 = 16" | "map_bytes Local_v6 = 16"

fun percpu_bytes :: "percpu_map \<Rightarrow> nat" where
  "percpu_bytes Metrics = 4" | "percpu_bytes Remote_v4 = 4" | "percpu_bytes Remote_v6 = 16"

text \<open>
  A key of a map: the map's number of data bytes, a length within it, and no bit set beyond the
  length. An entry covers an address when the first \<open>kplen\<close> bits agree.
\<close>

definition key_ok :: "lpm_map \<Rightarrow> lpm_key \<Rightarrow> bool" where
  "key_ok m k \<longleftrightarrow> length (kdata k) = map_bytes m \<and> unat (kplen k) \<le> 8 * map_bytes m \<and>
     mask_loop (uint (kplen k)) (kdata k) = kdata k"

definition key_covers :: "lpm_key \<Rightarrow> bytes \<Rightarrow> bool" where
  "key_covers k a \<longleftrightarrow> agree (unat (kplen k)) (kdata k) a"

record kview =
  ents :: "lpm_map \<Rightarrow> (lpm_key \<rightharpoonup> lpm_val)"
  lpm_order :: "lpm_map \<Rightarrow> lpm_key list"
  kcfg :: vg_cfg
  kmax :: "lpm_map \<Rightarrow> nat"

locale bpf_kernel =
  fixes K :: "'w kern" and view :: "'w \<Rightarrow> kview"
  assumes order: "distinct (lpm_order (view w) m) \<and> set (lpm_order (view w) m) = dom (ents (view w) m)"
    and update_ok: "k_lpm_update K m k v w = (None, w') \<Longrightarrow> key_ok m k \<Longrightarrow>
      ents (view w') = (ents (view w))(m := (ents (view w) m)(k \<mapsto> v)) \<and> kcfg (view w') = kcfg (view w)"
    and update_err: "k_lpm_update K m k v w = (Some e, w') \<Longrightarrow> view w' = view w"
    and delete_ok: "k_lpm_delete K m k w = (None, w') \<Longrightarrow> key_ok m k \<Longrightarrow>
      k \<in> dom (ents (view w) m) \<and>
      view w' = (view w)\<lparr>ents := (ents (view w))(m := (ents (view w) m)(k := None)),
        lpm_order := (lpm_order (view w))(m := remove1 k (lpm_order (view w) m))\<rparr>"
    and delete_enoent: "k_lpm_delete K m k w = (Some ENOENT, w') \<Longrightarrow> key_ok m k \<Longrightarrow>
      k \<notin> dom (ents (view w) m)"
    and delete_err: "k_lpm_delete K m k w = (Some e, w') \<Longrightarrow> view w' = view w"
    and next_first: "k_lpm_next K m None w = (r, w') \<Longrightarrow>
      r = (case lpm_order (view w) m of [] \<Rightarrow> Inl ENOENT | k # _ \<Rightarrow> Inr k) \<and> view w' = view w"
    and next_after: "k_lpm_next K m (Some k) w = (r, w') \<Longrightarrow> lpm_order (view w) m = ks @ k # ks' \<Longrightarrow>
      r = (case ks' of [] \<Rightarrow> Inl ENOENT | k' # _ \<Rightarrow> Inr k') \<and> view w' = view w"
    and max_entries: "length (lpm_order (view w) m) \<le> k_max_entries K m w"
    and lookup: "length a = map_bytes m \<Longrightarrow> \<forall>k \<in> dom (ents (view w) m). key_ok m k \<Longrightarrow>
      k_lpm_lookup K m \<lparr>kplen = of_nat (8 * map_bytes m), kdata = a\<rparr> w \<noteq> None \<longleftrightarrow>
      (\<exists>k \<in> dom (ents (view w) m). key_covers k a)"
    and cfg_ok: "k_cfg_update K c w = (None, w') \<Longrightarrow> view w' = (view w)\<lparr>kcfg := c\<rparr>"
    and cfg_err: "k_cfg_update K c w = (Some e, w') \<Longrightarrow> view w' = view w"
    and cfg_lookup: "k_cfg_lookup K w = Some (kcfg (view w))"
    and percpu_lookup_view: "view (snd (k_percpu_lookup K pm key w)) = view w"
    and percpu_next_view: "view (snd (k_percpu_next K pm ko w)) = view w"
    and percpu_next_len: "k_percpu_next K pm ko w = (Inr key, w') \<Longrightarrow> length key = percpu_bytes pm"
    and time_view: "view (snd (k_time K w)) = view w"
    and monotonic_view: "view (snd (k_monotonic K w)) = view w"

text \<open>
  Deleting an entry that is present fails only in states the sources treat as errors. A kernel
  in which it never fails gives the stronger guarantees.
\<close>

locale bpf_kernel_reliable = bpf_kernel +
  assumes delete_present: "k \<in> dom (ents (view w) m) \<Longrightarrow> key_ok m k \<Longrightarrow> fst (k_lpm_delete K m k w) = None"

text \<open>A kernel with memory left: an update fails only on a map that holds \<open>kmax\<close> entries.\<close>

locale bpf_kernel_room = bpf_kernel_reliable +
  assumes update_room: "k \<in> dom (ents (view w) m) \<or> length (lpm_order (view w) m) < kmax (view w) m \<Longrightarrow>
      key_ok m k \<Longrightarrow> fst (k_lpm_update K m k v w) = None"
    and cfg_room: "fst (k_cfg_update K c w) = None"

subsection \<open>A reference kernel\<close>

text \<open>
  Every LPM map is an association list with a capacity; a lookup gives the value of the longest
  covering entry. The clocks show what the world holds.
\<close>

record rkernel =
  r_lpm :: "lpm_map \<Rightarrow> (lpm_key \<times> lpm_val) list"
  r_cap :: "lpm_map \<Rightarrow> nat"
  r_cfg :: vg_cfg
  r_percpu :: "percpu_map \<Rightarrow> (bytes \<times> u64 list list) list"
  r_now :: int
  r_mono :: timespec

definition r_keys :: "lpm_map \<Rightarrow> rkernel \<Rightarrow> lpm_key list" where
  "r_keys m w = remdups (map fst (r_lpm w m))"

definition r_update :: "lpm_map \<Rightarrow> lpm_key \<Rightarrow> lpm_val \<Rightarrow> rkernel \<Rightarrow> errno option \<times> rkernel" where
  "r_update m k v w =
     (if k \<in> set (r_keys m w) then
        (None, w\<lparr>r_lpm := (r_lpm w)(m := map (\<lambda>(k', v'). (k', if k' = k then v else v')) (r_lpm w m))\<rparr>)
      else if length (r_keys m w) \<ge> r_cap w m then (Some ENOSPC, w)
      else (None, w\<lparr>r_lpm := (r_lpm w)(m := r_lpm w m @ [(k, v)])\<rparr>))"

definition r_delete :: "lpm_map \<Rightarrow> lpm_key \<Rightarrow> rkernel \<Rightarrow> errno option \<times> rkernel" where
  "r_delete m k w =
     (if k \<in> set (r_keys m w) then
        (None, w\<lparr>r_lpm := (r_lpm w)(m := filter (\<lambda>(k', v). k' \<noteq> k) (r_lpm w m))\<rparr>)
      else (Some ENOENT, w))"

fun after :: "'a \<Rightarrow> 'a list \<Rightarrow> 'a option" where
  "after x [] = None"
| "after x (y # ys) = (if x = y then (case ys of [] \<Rightarrow> None | z # _ \<Rightarrow> Some z) else after x ys)"

definition next_of :: "'a option \<Rightarrow> 'a list \<Rightarrow> errno + 'a" where
  "next_of ko ks =
     (case ko of
        None \<Rightarrow> (case ks of [] \<Rightarrow> Inl ENOENT | k # _ \<Rightarrow> Inr k)
      | Some k \<Rightarrow>
          if k \<in> set ks then (case after k ks of None \<Rightarrow> Inl ENOENT | Some k' \<Rightarrow> Inr k')
          else (case ks of [] \<Rightarrow> Inl ENOENT | k' # _ \<Rightarrow> Inr k'))"

fun best_match :: "bytes \<Rightarrow> (lpm_key \<times> lpm_val) list \<Rightarrow> (lpm_key \<times> lpm_val) option" where
  "best_match a [] = None"
| "best_match a ((k, v) # r) =
     (if \<not> key_covers k a then best_match a r
      else (case best_match a r of
              None \<Rightarrow> Some (k, v)
            | Some (k', v') \<Rightarrow> if kplen k \<ge> kplen k' then Some (k, v) else Some (k', v')))"

definition r_percpu_lookup ::
  "percpu_map \<Rightarrow> bytes \<Rightarrow> rkernel \<Rightarrow> (errno + u64 list list) \<times> rkernel" where
  "r_percpu_lookup pm key w =
     (case map_of (r_percpu w pm) key of None \<Rightarrow> (Inl ENOENT, w) | Some rows \<Rightarrow> (Inr rows, w))"

definition r_percpu_keys :: "percpu_map \<Rightarrow> rkernel \<Rightarrow> bytes list" where
  "r_percpu_keys pm w = filter (\<lambda>k. length k = percpu_bytes pm) (map fst (r_percpu w pm))"

definition ref_kernel :: "rkernel kern" where
  "ref_kernel =
     \<lparr>k_lpm_update = r_update,
      k_lpm_delete = r_delete,
      k_lpm_next = (\<lambda>m ko w. (next_of ko (r_keys m w), w)),
      k_lpm_lookup = (\<lambda>m q w. map_option snd (best_match (kdata q) (r_lpm w m))),
      k_cfg_update = (\<lambda>c w. (None, w\<lparr>r_cfg := c\<rparr>)),
      k_cfg_lookup = (\<lambda>w. Some (r_cfg w)),
      k_max_entries = (\<lambda>m w. max (r_cap w m) (length (r_keys m w))),
      k_map_fd = (\<lambda>pm w. 3),
      k_percpu_lookup = r_percpu_lookup,
      k_percpu_next = (\<lambda>pm ko w. (next_of ko (r_percpu_keys pm w), w)),
      k_time = (\<lambda>w. (r_now w, w)),
      k_monotonic = (\<lambda>w. (r_mono w, w))\<rparr>"

definition r_view :: "rkernel \<Rightarrow> kview" where
  "r_view w = \<lparr>ents = (\<lambda>m. map_of (r_lpm w m)), lpm_order = (\<lambda>m. r_keys m w), kcfg = r_cfg w, kmax = r_cap w\<rparr>"

lemma set_r_keys: "set (r_keys m w) = dom (map_of (r_lpm w m))"
  by (simp add: r_keys_def dom_map_of_conv_image_fst)

lemma map_of_set_val:
  assumes "k \<in> fst ` set l"
  shows "map_of (map (\<lambda>(k', v'). (k', if k' = k then v else v')) l) = (map_of l)(k \<mapsto> v)"
proof (rule ext)
  fix x
  have other: "x \<noteq> k \<Longrightarrow> map_of (map (\<lambda>(k', v'). (k', if k' = k then v else v')) l) x = map_of l x"
    by (induction l) auto
  have same: "map_of (map (\<lambda>(k', v'). (k', if k' = k then v else v')) l) k = Some v"
    using assms
  proof (induction l)
    case (Cons p l)
    then show ?case by (cases "fst p = k") (auto simp: case_prod_unfold)
  qed simp
  show "map_of (map (\<lambda>(k', v'). (k', if k' = k then v else v')) l) x = ((map_of l)(k \<mapsto> v)) x"
    using other same by simp
qed

lemma map_of_snoc: "k \<notin> fst ` set l \<Longrightarrow> map_of (l @ [(k, v)]) = (map_of l)(k \<mapsto> v)"
  by (rule ext) (simp add: map_add_def split: option.splits, metis map_of_eq_None_iff option.distinct(1))

lemma map_of_filter_key: "map_of (filter (\<lambda>(k', v). k' \<noteq> k) l) = (map_of l)(k := None)"
  by (rule ext) (induction l, auto)

lemma remdups_filter_key:
  "remdups (map fst (filter (\<lambda>(k', v). k' \<noteq> k) l)) = remove1 k (remdups (map fst l))"
proof -
  have "map fst (filter (\<lambda>(k', v). k' \<noteq> k) l) = removeAll k (map fst l)"
    by (induction l) auto
  then have "remdups (map fst (filter (\<lambda>(k', v). k' \<noteq> k) l)) = removeAll k (remdups (map fst l))"
    by (simp add: removeAll_filter_not_eq remdups_filter)
  then show ?thesis by (simp add: distinct_remove1_removeAll)
qed

lemma after_split: "distinct (ks @ k # ks') \<Longrightarrow>
  after k (ks @ k # ks') = (case ks' of [] \<Rightarrow> None | z # _ \<Rightarrow> Some z)"
  by (induction ks) (auto split: list.splits)

lemma after_set: "after x ys = Some y \<Longrightarrow> y \<in> set ys"
proof (induction ys)
  case (Cons a ys)
  then show ?case by (cases "x = a"; cases ys) simp_all
qed simp

lemma next_of_set: "next_of ko ks = Inr k \<Longrightarrow> k \<in> set ks"
  using after_set [of "the ko" ks]
  by (cases ko; cases ks; cases "after (the ko) ks") (auto simp: next_of_def simp del: after.simps split: if_splits)

lemma best_match_iff: "best_match a l \<noteq> None \<longleftrightarrow> (\<exists>k \<in> fst ` set l. key_covers k a)"
  by (induction a l rule: best_match.induct) (auto split: option.splits)

lemma dom_keys: "dom (map_of l) = fst ` set l"
  by (rule dom_map_of_conv_image_fst)

lemmas ref_defs = ref_kernel_def r_view_def r_update_def r_delete_def

interpretation ref: bpf_kernel_reliable ref_kernel r_view
proof unfold_locales
  fix w m
  show "distinct (lpm_order (r_view w) m) \<and> set (lpm_order (r_view w) m) = dom (ents (r_view w) m)"
    by (simp add: r_view_def set_r_keys) (simp add: r_keys_def)
next
  fix m k v w w' assume u: "k_lpm_update ref_kernel m k v w = (None, w')"
  show "ents (r_view w') = (ents (r_view w))(m := (ents (r_view w) m)(k \<mapsto> v)) \<and>
      kcfg (r_view w') = kcfg (r_view w)"
  proof (cases "k \<in> fst ` set (r_lpm w m)")
    case True
    with u have "w' = w\<lparr>r_lpm := (r_lpm w)(m := map (\<lambda>(k', v'). (k', if k' = k then v else v')) (r_lpm w m))\<rparr>"
      by (simp add: ref_defs set_r_keys dom_keys)
    then show ?thesis using map_of_set_val [OF True, of v] by (auto simp: r_view_def)
  next
    case False
    with u have "w' = w\<lparr>r_lpm := (r_lpm w)(m := r_lpm w m @ [(k, v)])\<rparr>"
      by (simp add: ref_defs set_r_keys dom_keys split: if_splits)
    then show ?thesis using map_of_snoc [OF False, of v] by (auto simp: r_view_def simp del: map_of_append)
  qed
next
  fix m k v w e w' assume "k_lpm_update ref_kernel m k v w = (Some e, w')"
  then show "r_view w' = r_view w" by (auto simp: ref_defs split: if_splits)
next
  fix m k w w' assume "k_lpm_delete ref_kernel m k w = (None, w')"
  then show "k \<in> dom (ents (r_view w) m) \<and>
      r_view w' = (r_view w)\<lparr>ents := (ents (r_view w))(m := (ents (r_view w) m)(k := None)),
        lpm_order := (lpm_order (r_view w))(m := remove1 k (lpm_order (r_view w) m))\<rparr>"
    by (auto simp: ref_defs set_r_keys map_of_filter_key remdups_filter_key r_keys_def fun_eq_iff
        split: if_splits intro: weak_map_of_SomeI)
next
  fix m k w w' assume "k_lpm_delete ref_kernel m k w = (Some ENOENT, w')"
  then show "k \<notin> dom (ents (r_view w) m)"
    by (auto simp: ref_defs set_r_keys split: if_splits)
next
  fix m k w e w' assume "k_lpm_delete ref_kernel m k w = (Some e, w')"
  then show "r_view w' = r_view w" by (auto simp: ref_defs split: if_splits)
next
  fix m w r w' assume "k_lpm_next ref_kernel m None w = (r, w')"
  then show "r = (case lpm_order (r_view w) m of [] \<Rightarrow> Inl ENOENT | k # _ \<Rightarrow> Inr k) \<and>
      r_view w' = r_view w"
    by (auto simp: ref_defs next_of_def)
next
  fix m k w r w' ks ks'
  assume n: "k_lpm_next ref_kernel m (Some k) w = (r, w')"
    and o: "lpm_order (r_view w) m = ks @ k # ks'"
  have keys: "r_keys m w = ks @ k # ks'" using o by (simp add: r_view_def)
  have "distinct (r_keys m w)" by (simp add: r_keys_def)
  then have "after k (r_keys m w) = (case ks' of [] \<Rightarrow> None | z # _ \<Rightarrow> Some z)"
    unfolding keys by (rule after_split)
  moreover have "r = next_of (Some k) (r_keys m w)" "w' = w" using n by (auto simp: ref_kernel_def)
  ultimately show "r = (case ks' of [] \<Rightarrow> Inl ENOENT | k' # _ \<Rightarrow> Inr k') \<and> r_view w' = r_view w"
    using keys by (cases ks') (simp_all add: next_of_def)
next
  fix a :: bytes and m w
  show "k_lpm_lookup ref_kernel m \<lparr>kplen = of_nat (8 * map_bytes m), kdata = a\<rparr> w \<noteq> None \<longleftrightarrow>
      (\<exists>k \<in> dom (ents (r_view w) m). key_covers k a)"
    using best_match_iff [of a "r_lpm w m"] by (simp add: ref_kernel_def r_view_def dom_keys)
next
  fix pm ko w key w' assume "k_percpu_next ref_kernel pm ko w = (Inr key, w')"
  then have "key \<in> set (r_percpu_keys pm w)"
    using next_of_set by (auto simp: ref_kernel_def)
  then show "length key = percpu_bytes pm" by (simp add: r_percpu_keys_def)
next
  fix k w m assume "k \<in> dom (ents (r_view w) m)"
  then show "fst (k_lpm_delete ref_kernel m k w) = None" by (simp add: ref_defs set_r_keys)
qed (auto simp: ref_defs r_percpu_lookup_def r_keys_def split: option.splits)

interpretation refr: bpf_kernel_room ref_kernel r_view
  by unfold_locales (auto simp: ref_defs set_r_keys)

end
