(* ===== verification/Maps.thy ===== *)
theory Maps
  imports Kernel
begin

section \<open>Map access from user space: maps.c\<close>

text \<open>
  The routines of \<open>src/src/maps.c\<close> that the control plane calls while it runs. A return value of
  -1 with \<open>errno\<close> is \<open>Some e\<close>, 0 is \<open>None\<close>. The world the calls act on is passed along.
\<close>

text \<open>
  The handle: \<open>skel\<close> is whether the BPF object is loaded, \<open>sum_scratch_size\<close> the size of the scratch
  buffer unless it is NULL.
\<close>

record vg_maps =
  skel :: bool
  ncpus :: int
  ifindex :: int
  attach_flags :: u32
  attached :: bool
  sum_scratch_size :: "nat option"

definition cidr_key :: "vg_cidr \<Rightarrow> lpm_key" where
  "cidr_key p = \<lparr>kplen = ucast (prefixlen p), kdata = take (nbytes (family p)) (addr p)\<rparr>"

definition lpm_update :: "'w kern \<Rightarrow> lpm_map \<Rightarrow> vg_cidr \<Rightarrow> lpm_val \<Rightarrow> 'w \<Rightarrow> errno option \<times> 'w" where
  "lpm_update K m p v w =
     (if family p = AF_INET
      then k_lpm_update K m \<lparr>kplen = ucast (prefixlen p), kdata = take 4 (addr p)\<rparr> v w
      else k_lpm_update K m \<lparr>kplen = ucast (prefixlen p), kdata = take 16 (addr p)\<rparr> v w)"

definition lpm_delete :: "'w kern \<Rightarrow> lpm_map \<Rightarrow> vg_cidr \<Rightarrow> 'w \<Rightarrow> errno option \<times> 'w" where
  "lpm_delete K m p w =
     (if family p = AF_INET
      then k_lpm_delete K m \<lparr>kplen = ucast (prefixlen p), kdata = take 4 (addr p)\<rparr> w
      else k_lpm_delete K m \<lparr>kplen = ucast (prefixlen p), kdata = take 16 (addr p)\<rparr> w)"

definition vg_drop_add :: "'w kern \<Rightarrow> vg_cidr \<Rightarrow> u32 \<Rightarrow> u32 \<Rightarrow> 'w \<Rightarrow> errno option \<times> 'w" where
  "vg_drop_add K p rsn now w =
     (let e = \<lparr>e_reason = rsn, insert_time = now\<rparr>;
          fd = (if family p = AF_INET then Drop_v4 else Drop_v6)
      in lpm_update K fd p (DropV e) w)"

definition vg_drop_del :: "'w kern \<Rightarrow> vg_cidr \<Rightarrow> 'w \<Rightarrow> errno option \<times> 'w" where
  "vg_drop_del K p w =
     (let fd = (if family p = AF_INET then Drop_v4 else Drop_v6) in lpm_delete K fd p w)"

text \<open>
  The loop of \<open>flush_lpm\<close> asks for the key after \<open>key\<close> before it deletes \<open>key\<close>. A map has at
  most \<open>max_entries\<close> entries, which bounds the iterations.
\<close>

fun flush_loop :: "'w kern \<Rightarrow> lpm_map \<Rightarrow> nat \<Rightarrow> lpm_key \<Rightarrow> 'w \<Rightarrow> 'w" where
  "flush_loop K m 0 key w = w"
| "flush_loop K m (Suc fuel) key w =
     (let (err, w) = k_lpm_next K m (Some key) w;
          (_, w) = k_lpm_delete K m key w
      in case err of Inl _ \<Rightarrow> w | Inr nxt \<Rightarrow> flush_loop K m fuel nxt w)"

definition flush_lpm :: "'w kern \<Rightarrow> lpm_map \<Rightarrow> 'w \<Rightarrow> 'w" where
  "flush_lpm K m w =
     (let (r, w) = k_lpm_next K m None w
      in case r of Inl _ \<Rightarrow> w | Inr nxt \<Rightarrow> flush_loop K m (Suc (k_max_entries K m w)) nxt w)"

definition vg_drop_flush :: "'w kern \<Rightarrow> 'w \<Rightarrow> 'w" where
  "vg_drop_flush K w = flush_lpm K Drop_v6 (flush_lpm K Drop_v4 w)"

fun populate_loop :: "'w kern \<Rightarrow> lpm_map \<Rightarrow> lpm_map \<Rightarrow> vg_cidr list \<Rightarrow> 'w \<Rightarrow> 'w" where
  "populate_loop K fd4 fd6 [] w = w"
| "populate_loop K fd4 fd6 (p # ps) w =
     (let fd = (if family p = AF_INET then fd4 else fd6);
          (_, w) = lpm_update K fd p (MarkV 1) w
      in populate_loop K fd4 fd6 ps w)"

definition vg_populate_local :: "'w kern \<Rightarrow> vg_config \<Rightarrow> 'w \<Rightarrow> 'w" where
  "vg_populate_local K cfg w =
     (let w = flush_lpm K Local_v4 w; w = flush_lpm K Local_v6 w
      in populate_loop K Local_v4 Local_v6 (local_cidr cfg) w)"

definition vg_populate_allow :: "'w kern \<Rightarrow> vg_config \<Rightarrow> 'w \<Rightarrow> 'w" where
  "vg_populate_allow K cfg w =
     (let w = flush_lpm K Allow_v4 w; w = flush_lpm K Allow_v6 w
      in populate_loop K Allow_v4 Allow_v6 (allow_cidr cfg) w)"

definition mk_cfg :: "u32 \<Rightarrow> vg_config \<Rightarrow> vg_cfg" where
  "mk_cfg arm cfg =
     (let n = (of_nat (length (allow_ports cfg)) :: u16);
          n = (if n > of_nat VG_MAX_ALLOW_PORTS then of_nat VG_MAX_ALLOW_PORTS else n)
      in \<lparr>armed = arm,
          bc_allow_ports =
            take (unat n) (allow_ports cfg) @ replicate (VG_MAX_ALLOW_PORTS - unat n) 0,
          bc_allow_port_count = n\<rparr>)"

definition vg_cfg_commit :: "'w kern \<Rightarrow> u32 \<Rightarrow> vg_config \<Rightarrow> 'w \<Rightarrow> errno option \<times> 'w" where
  "vg_cfg_commit K arm cfg w = k_cfg_update K (mk_cfg arm cfg) w"

subsection \<open>Per-CPU counters\<close>

text \<open>
  A value of a per-CPU map is a row of 64-bit words for each CPU in a zeroed buffer; the rows are
  added word by word, with wrap-around.
\<close>

definition add_row :: "u64 list \<Rightarrow> u64 list \<Rightarrow> u64 list" where
  "add_row dst src = map2 (+) dst (take (length dst) (src @ replicate (length dst) 0))"

definition vg_sum_percpu ::
  "'w kern \<Rightarrow> vg_maps \<Rightarrow> percpu_map \<Rightarrow> bytes \<Rightarrow> nat \<Rightarrow> 'w \<Rightarrow> u64 list option \<times> 'w" where
  "vg_sum_percpu K m pm key words w =
     (let ncpus = (if ncpus m \<le> 0 then 1 else nat (ncpus m));
          need = ncpus * (words * 8)
      in case sum_scratch_size m of
           None \<Rightarrow> (None, w)
         | Some sz \<Rightarrow>
             if sz < need then (None, w)
             else (case k_percpu_lookup K pm key w of
                     (Inl _, w) \<Rightarrow> (None, w)
                   | (Inr rows, w) \<Rightarrow>
                       (Some (foldl add_row (replicate words 0) (take ncpus rows)), w)))"

definition to_metrics :: "u64 list \<Rightarrow> vg_metrics" where
  "to_metrics ws = \<lparr>rx_pkts = ws ! 0, rx_bytes = ws ! 1, passed = ws ! 2, dropped = ws ! 3,
     non_ip = ws ! 4, map_full = ws ! 5, parse_err = ws ! 6\<rparr>"

definition to_counters :: "u64 list \<Rightarrow> host_counters" where
  "to_counters ws = \<lparr>in_pkts = ws ! 0, in_bytes = ws ! 1\<rparr>"

definition vg_metrics_read :: "'w kern \<Rightarrow> vg_maps \<Rightarrow> 'w \<Rightarrow> vg_metrics option \<times> 'w" where
  "vg_metrics_read K m w =
     (case vg_sum_percpu K m Metrics [0, 0, 0, 0] 7 w of (r, w) \<Rightarrow> (map_option to_metrics r, w))"

text \<open>
  Walking a remote map: \<open>rem\<close> keys may still be visited, \<open>cur\<close> is the last key (\<open>None\<close> at the
  start), and \<open>fn\<close> is the callback on the caller's state \<open>'s\<close> and the world. The result is 1 at
  the end of the map, 0 when the budget ran out first.
\<close>

fun foreach_loop ::
  "'w kern \<Rightarrow> vg_maps \<Rightarrow> percpu_map \<Rightarrow> family \<Rightarrow>
   (family \<Rightarrow> bytes \<Rightarrow> host_counters \<Rightarrow> 's \<Rightarrow> 'w \<Rightarrow> 's \<times> 'w) \<Rightarrow>
   nat \<Rightarrow> bytes option \<Rightarrow> 's \<Rightarrow> 'w \<Rightarrow> int \<times> 's \<times> 'w" where
  "foreach_loop K m pm fam fn 0 cur s w =
     (case k_percpu_next K pm cur w of (r, w) \<Rightarrow> ((case r of Inl _ \<Rightarrow> 1 | Inr _ \<Rightarrow> 0), s, w))"
| "foreach_loop K m pm fam fn (Suc rem) cur s w =
     (case k_percpu_next K pm cur w of
        (Inl _, w) \<Rightarrow> (1, s, w)
      | (Inr nxt, w) \<Rightarrow>
          (case vg_sum_percpu K m pm nxt 2 w of
             (None, w) \<Rightarrow> foreach_loop K m pm fam fn rem (Some nxt) s w
           | (Some ws, w) \<Rightarrow>
               (let (s, w) = fn fam nxt (to_counters ws) s w
                in foreach_loop K m pm fam fn rem (Some nxt) s w)))"

definition foreach_family ::
  "'w kern \<Rightarrow> vg_maps \<Rightarrow> percpu_map \<Rightarrow> family \<Rightarrow> u32 \<Rightarrow>
   (family \<Rightarrow> bytes \<Rightarrow> host_counters \<Rightarrow> 's \<Rightarrow> 'w \<Rightarrow> 's \<times> 'w) \<Rightarrow> 's \<Rightarrow> 'w \<Rightarrow> int \<times> 's \<times> 'w" where
  "foreach_family K m pm fam budget fn s w =
     (if k_map_fd K pm w < 0 then (- 1, s, w)
      else foreach_loop K m pm fam fn (unat budget) None s w)"

definition vg_remote_foreach ::
  "'w kern \<Rightarrow> vg_maps \<Rightarrow> u32 \<Rightarrow>
   (family \<Rightarrow> bytes \<Rightarrow> host_counters \<Rightarrow> 's \<Rightarrow> 'w \<Rightarrow> 's \<times> 'w) \<Rightarrow> 's \<Rightarrow> 'w \<Rightarrow> int \<times> 's \<times> 'w" where
  "vg_remote_foreach K m budget fn s w =
     (let budget = (if budget = 0 then VG_REMOTE_MAP_MAX else budget);
          (c4, s, w) = foreach_family K m Remote_v4 AF_INET budget fn s w;
          (c6, s, w) = foreach_family K m Remote_v6 AF_INET6 budget fn s w
      in if c4 < 0 \<or> c6 < 0 then (- 1, s, w)
         else ((if c4 \<noteq> 0 \<and> c6 \<noteq> 0 then 1 else 0), s, w))"

subsection \<open>What the calls do to the maps\<close>

definition drop_map :: "family \<Rightarrow> lpm_map" where
  "drop_map f = (if f = AF_INET then Drop_v4 else Drop_v6)"

definition keys_ok :: "kview \<Rightarrow> bool" where
  "keys_ok v \<longleftrightarrow> (\<forall>m. \<forall>k \<in> dom (ents v m). key_ok m k)"

lemma map_bytes_drop_map [simp]: "map_bytes (drop_map f) = nbytes f"
  by (simp add: drop_map_def nbytes_def)

lemma lpm_update_key: "lpm_update K m p v w = k_lpm_update K m (cidr_key p) v w"
  by (simp add: lpm_update_def cidr_key_def nbytes_def)

lemma lpm_delete_key: "lpm_delete K m p w = k_lpm_delete K m (cidr_key p) w"
  by (simp add: lpm_delete_def cidr_key_def nbytes_def)

lemma vg_drop_add_key:
  "vg_drop_add K p r t w =
     k_lpm_update K (drop_map (family p)) (cidr_key p) (DropV \<lparr>e_reason = r, insert_time = t\<rparr>) w"
  by (simp add: vg_drop_add_def lpm_update_key drop_map_def)

lemma vg_drop_del_key: "vg_drop_del K p w = k_lpm_delete K (drop_map (family p)) (cidr_key p) w"
  by (simp add: vg_drop_del_def lpm_delete_key drop_map_def)

lemma cidr_key_ok: "cidr_wf p \<Longrightarrow> map_bytes m = nbytes (family p) \<Longrightarrow> key_ok m (cidr_key p)"
proof -
  assume wf: "cidr_wf p" and m: "map_bytes m = nbytes (family p)"
  have u: "unat (ucast (prefixlen p) :: u32) = plen p" "uint (ucast (prefixlen p) :: u32) = uint (prefixlen p)"
    by (simp_all add: plen_def)
  have "mask_loop (uint (prefixlen p)) (take (nbytes (family p)) (addr p)) = take (nbytes (family p)) (addr p)"
  proof -
    have "addr (vg_cidr_mask p) = addr p" using wf by (simp add: cidr_wf_def)
    then have "take (nbytes (family p)) (addr (vg_cidr_mask p)) = take (nbytes (family p)) (addr p)" by simp
    then show ?thesis using wf by (simp add: vg_cidr_mask_def cidr_wf_def cidr_ok_def)
  qed
  then show ?thesis
    using wf m by (simp add: key_ok_def cidr_key_def u width_nbytes cidr_wf_def cidr_ok_def flip: plen_def)
qed

lemma kplen_cidr_key: "unat (kplen (cidr_key p)) = plen p"
  by (simp add: cidr_key_def plen_def)

text \<open>Different prefixes have different keys.\<close>

lemma cidr_key_inj:
  assumes "cidr_wf p" "cidr_wf q" "family p = family q" "cidr_key p = cidr_key q"
  shows "p = q"
proof (rule wf_eqI)
  have "plen p = plen q" using assms(4) kplen_cidr_key by metis
  then show "prefixlen p = prefixlen q" by (simp add: plen_def word_unat_eq_iff)
  show "take (nbytes (family p)) (addr p) = take (nbytes (family p)) (addr q)"
    using assms(3,4) by (simp add: cidr_key_def)
qed (use assms in auto)

lemma key_covers_iff:
  assumes "cidr_wf p" and "length a = nbytes (family p)"
  shows "key_covers (cidr_key p) a \<longleftrightarrow> (family p, a) \<in> cidr_set p"
proof -
  have "agree (plen p) (addr p) (take (nbytes (family p)) (addr p))"
    using assms by (intro agree_take) (simp add: cidr_wf_def cidr_ok_def width_nbytes)
  then have "agree (plen p) (take (nbytes (family p)) (addr p)) a \<longleftrightarrow> agree (plen p) (addr p) a"
    by (blast intro: agree_trans agree_sym)
  then show ?thesis using assms
    by (simp add: key_covers_def kplen_cidr_key cidr_set_def) (simp add: cidr_key_def)
qed

context bpf_kernel
begin

lemma drop_add_ok:
  assumes "vg_drop_add K p r t w = (None, w')" and "cidr_wf p"
  shows "ents (view w') = (ents (view w))(drop_map (family p) :=
      (ents (view w) (drop_map (family p)))(cidr_key p \<mapsto> DropV \<lparr>e_reason = r, insert_time = t\<rparr>))"
    and "kcfg (view w') = kcfg (view w)"
  using assms update_ok cidr_key_ok [OF assms(2), of "drop_map (family p)"]
  by (simp_all add: vg_drop_add_key)

lemma drop_add_err: "vg_drop_add K p r t w = (Some e, w') \<Longrightarrow> view w' = view w"
  using update_err by (simp add: vg_drop_add_key)

lemma drop_del_gone:
  assumes d: "vg_drop_del K p w = (r, w')" and wf: "cidr_wf p" and r: "r = None \<or> r = Some ENOENT"
  shows "ents (view w') = (ents (view w))(drop_map (family p) :=
      (ents (view w) (drop_map (family p)))(cidr_key p := None))"
    and "kcfg (view w') = kcfg (view w)"
proof -
  have ok: "key_ok (drop_map (family p)) (cidr_key p)" using wf by (intro cidr_key_ok) simp_all
  note d' = d [unfolded vg_drop_del_key]
  have "view w' = view w \<and> ents (view w) (drop_map (family p)) (cidr_key p) = None" if "r = Some ENOENT"
    using that d' delete_err delete_enoent [OF _ ok] by blast
  moreover have "ents (view w') = (ents (view w))(drop_map (family p) :=
      (ents (view w) (drop_map (family p)))(cidr_key p := None)) \<and> kcfg (view w') = kcfg (view w)"
    if "r = None"
    using that d' delete_ok [OF _ ok] by simp
  ultimately show "ents (view w') = (ents (view w))(drop_map (family p) :=
      (ents (view w) (drop_map (family p)))(cidr_key p := None))"
    and "kcfg (view w') = kcfg (view w)"
    using r by (auto simp: fun_upd_idem)
qed

lemma drop_del_err: "vg_drop_del K p w = (Some e, w') \<Longrightarrow> view w' = view w"
  using delete_err by (simp add: vg_drop_del_key)

text \<open>A flush touches no other map and only removes entries, whatever fails.\<close>

lemma flush_loop_frame:
  assumes "lpm_order (view w) m = ks @ key # ks'" and "\<forall>k \<in> dom (ents (view w) m). key_ok m k"
  shows "(\<forall>m'. m' \<noteq> m \<longrightarrow> ents (view (flush_loop K m fuel key w)) m' = ents (view w) m') \<and>
    ents (view (flush_loop K m fuel key w)) m \<subseteq>\<^sub>m ents (view w) m \<and>
    kcfg (view (flush_loop K m fuel key w)) = kcfg (view w)"
  using assms
proof (induction fuel arbitrary: ks key ks' w)
  case 0
  then show ?case by simp
next
  case (Suc fuel)
  obtain r w1 where n: "k_lpm_next K m (Some key) w = (r, w1)" by fastforce
  obtain e w2 where d: "k_lpm_delete K m key w1 = (e, w2)" by fastforce
  have r: "r = (case ks' of [] \<Rightarrow> Inl ENOENT | k' # _ \<Rightarrow> Inr k')" and v1: "view w1 = view w"
    using next_after [OF n Suc.prems(1)] by blast+
  have "key \<in> set (lpm_order (view w) m)" using Suc.prems(1) by simp
  then have key: "key_ok m key" using Suc.prems(2) order [of w m] by blast
  have ord: "distinct (ks @ key # ks')" using Suc.prems(1) order [of w m] by simp
  have v2: "view w2 = view w \<or> view w2 = (view w)\<lparr>ents := (ents (view w))(m := (ents (view w) m)(key := None)),
        lpm_order := (lpm_order (view w))(m := remove1 key (lpm_order (view w) m))\<rparr>"
    using d delete_ok [OF _ key] delete_err v1 by (cases e) auto
  have sub: "ents (view w2) m \<subseteq>\<^sub>m ents (view w) m" "\<forall>m'. m' \<noteq> m \<longrightarrow> ents (view w2) m' = ents (view w) m'"
    "kcfg (view w2) = kcfg (view w)"
    using v2 by (auto simp: map_le_def split: if_splits)
  show ?case
  proof (cases ks')
    case Nil
    then show ?thesis using n d r sub by simp
  next
    case (Cons k' ks'')
    have "\<exists>ks0. lpm_order (view w2) m = ks0 @ k' # ks''"
      using v2 Suc.prems(1) ord Cons by (auto simp: remove1_append)
    then obtain ks0 where o2: "lpm_order (view w2) m = ks0 @ k' # ks''" ..
    have ok2: "\<forall>k \<in> dom (ents (view w2) m). key_ok m k"
      using sub(1) Suc.prems(2) by (auto simp: map_le_def dom_def)
    have "flush_loop K m (Suc fuel) key w = flush_loop K m fuel k' w2" using n d r Cons by simp
    then show ?thesis using Suc.IH [OF o2 ok2] sub by (auto intro: map_le_trans)
  qed
qed

lemma flush_lpm_frame:
  assumes "\<forall>k \<in> dom (ents (view w) m). key_ok m k"
  shows "m' \<noteq> m \<Longrightarrow> ents (view (flush_lpm K m w)) m' = ents (view w) m'"
    and "ents (view (flush_lpm K m w)) m \<subseteq>\<^sub>m ents (view w) m"
    and "kcfg (view (flush_lpm K m w)) = kcfg (view w)"
proof -
  obtain r w1 where n: "k_lpm_next K m None w = (r, w1)" by fastforce
  have r: "r = (case lpm_order (view w) m of [] \<Rightarrow> Inl ENOENT | k # _ \<Rightarrow> Inr k)" and v: "view w1 = view w"
    using next_first [OF n] by blast+
  have "(\<forall>m'. m' \<noteq> m \<longrightarrow> ents (view (flush_lpm K m w)) m' = ents (view w) m') \<and>
    ents (view (flush_lpm K m w)) m \<subseteq>\<^sub>m ents (view w) m \<and> kcfg (view (flush_lpm K m w)) = kcfg (view w)"
  proof (cases "lpm_order (view w) m")
    case Nil
    then show ?thesis using n r v by (simp add: flush_lpm_def)
  next
    case (Cons k ks)
    then have o: "lpm_order (view w1) m = [] @ k # ks" using v by simp
    show ?thesis
      using flush_loop_frame [OF o, of "Suc (k_max_entries K m w1)"] assms n r v Cons
      by (simp add: flush_lpm_def del: flush_loop.simps)
  qed
  then show "m' \<noteq> m \<Longrightarrow> ents (view (flush_lpm K m w)) m' = ents (view w) m'"
    and "ents (view (flush_lpm K m w)) m \<subseteq>\<^sub>m ents (view w) m"
    and "kcfg (view (flush_lpm K m w)) = kcfg (view w)" by auto
qed

lemma sum_percpu_view: "view (snd (vg_sum_percpu K m pm key n w)) = view w"
  using percpu_lookup_view [of pm key w]
  by (auto simp: vg_sum_percpu_def Let_def split: option.splits prod.splits sum.splits)

lemma metrics_read_view: "view (snd (vg_metrics_read K m w)) = view w"
  using sum_percpu_view [of m Metrics "[0, 0, 0, 0]" 7 w]
  by (auto simp: vg_metrics_read_def split: prod.splits)

text \<open>A property of the caller's state that the callback keeps holds after the walk.\<close>

lemma foreach_loop_inv:
  assumes cb: "\<And>a h s w. length a = percpu_bytes pm \<Longrightarrow> I s (view w) \<Longrightarrow>
      I (fst (fn fam a h s w)) (view (snd (fn fam a h s w)))"
    and st: "I s (view w)"
  shows "case foreach_loop K m pm fam fn n cur s w of (_, s', w') \<Rightarrow> I s' (view w')"
  using st
proof (induction n arbitrary: cur s w)
  case 0
  then show ?case
    using percpu_next_view [of pm cur w] by (auto split: prod.splits)
next
  case (Suc n)
  obtain r w1 where n: "k_percpu_next K pm cur w = (r, w1)" by fastforce
  have v1: "view w1 = view w" using percpu_next_view [of pm cur w] n by simp
  show ?case
  proof (cases r)
    case (Inl e)
    then show ?thesis using n v1 Suc.prems by simp
  next
    case (Inr nxt)
    obtain q w2 where q: "vg_sum_percpu K m pm nxt 2 w1 = (q, w2)" by fastforce
    have I2: "I s (view w2)" using sum_percpu_view [of m pm nxt 2 w1] q v1 Suc.prems by simp
    show ?thesis
    proof (cases q)
      case None
      then show ?thesis using n Inr q Suc.IH [OF I2] by simp
    next
      case (Some ws)
      obtain s3 w3 where f: "fn fam nxt (to_counters ws) s w2 = (s3, w3)" by fastforce
      have "I s3 (view w3)"
        using f cb [of nxt s w2 "to_counters ws"] percpu_next_len [of pm cur w nxt w1] I2 n Inr
        by simp
      then show ?thesis using n Inr q Some f Suc.IH by simp
    qed
  qed
qed

lemma remote_foreach_inv:
  assumes cb: "\<And>fam a h s w. length a = nbytes fam \<Longrightarrow> I s (view w) \<Longrightarrow>
      I (fst (fn fam a h s w)) (view (snd (fn fam a h s w)))"
    and st: "I s (view w)" and run: "vg_remote_foreach K m budget fn s w = (r, s', w')"
  shows "I s' (view w')"
proof -
  let ?b = "if budget = 0 then VG_REMOTE_MAP_MAX else budget"
  obtain c4 s1 w1 where f4: "foreach_family K m Remote_v4 AF_INET ?b fn s w = (c4, s1, w1)"
    by (metis prod_cases3)
  obtain c6 s2 w2 where f6: "foreach_family K m Remote_v6 AF_INET6 ?b fn s1 w1 = (c6, s2, w2)"
    by (metis prod_cases3)
  have "I s1 (view w1)"
    using f4 st foreach_loop_inv [of Remote_v4 I fn AF_INET s w m "unat ?b" None] cb
    by (auto simp: foreach_family_def nbytes_def split: if_splits)
  then have "I s2 (view w2)"
    using f6 foreach_loop_inv [of Remote_v6 I fn AF_INET6 s1 w1 m "unat ?b" None] cb
    by (auto simp: foreach_family_def nbytes_def split: if_splits)
  moreover have "s' = s2" "w' = w2"
    using run f4 f6 by (auto simp: vg_remote_foreach_def Let_def split: if_splits)
  ultimately show ?thesis by simp
qed

text \<open>Filling a map with prefixes adds at most their keys and touches no other map.\<close>

lemma populate_frame:
  assumes "\<forall>p \<in> set ps. cidr_wf p" and "map_bytes fd4 = 4" and "map_bytes fd6 = 16"
  shows "m \<noteq> fd4 \<Longrightarrow> m \<noteq> fd6 \<Longrightarrow> ents (view (populate_loop K fd4 fd6 ps w)) m = ents (view w) m"
    and "kcfg (view (populate_loop K fd4 fd6 ps w)) = kcfg (view w)"
    and "keys_ok (view w) \<Longrightarrow> keys_ok (view (populate_loop K fd4 fd6 ps w))"
proof -
  have "(\<forall>m. m \<noteq> fd4 \<longrightarrow> m \<noteq> fd6 \<longrightarrow> ents (view (populate_loop K fd4 fd6 ps w)) m = ents (view w) m) \<and>
    kcfg (view (populate_loop K fd4 fd6 ps w)) = kcfg (view w) \<and>
    (keys_ok (view w) \<longrightarrow> keys_ok (view (populate_loop K fd4 fd6 ps w)))"
    using assms(1)
  proof (induction ps arbitrary: w)
    case Nil
    then show ?case by simp
  next
    case (Cons p ps)
    let ?m = "if family p = AF_INET then fd4 else fd6"
    obtain e w1 where u: "lpm_update K ?m p (MarkV 1) w = (e, w1)" by fastforce
    have ok: "key_ok ?m (cidr_key p)"
      using Cons.prems assms by (intro cidr_key_ok) (auto simp: nbytes_def)
    have step: "(\<forall>m. m \<noteq> ?m \<longrightarrow> ents (view w1) m = ents (view w) m) \<and> kcfg (view w1) = kcfg (view w) \<and>
        (keys_ok (view w) \<longrightarrow> keys_ok (view w1))"
    proof (cases e)
      case None
      then show ?thesis using update_ok [of ?m "cidr_key p" "MarkV 1" w w1] u ok
        by (auto simp: lpm_update_key keys_ok_def)
    next
      case (Some x)
      then show ?thesis using update_err [of ?m "cidr_key p" "MarkV 1" w x w1] u
        by (auto simp: lpm_update_key)
    qed
    have "populate_loop K fd4 fd6 (p # ps) w = populate_loop K fd4 fd6 ps w1" using u by simp
    then show ?case using Cons.IH [of w1] Cons.prems step by (auto split: if_splits)
  qed
  then show "m \<noteq> fd4 \<Longrightarrow> m \<noteq> fd6 \<Longrightarrow> ents (view (populate_loop K fd4 fd6 ps w)) m = ents (view w) m"
    and "kcfg (view (populate_loop K fd4 fd6 ps w)) = kcfg (view w)"
    and "keys_ok (view w) \<Longrightarrow> keys_ok (view (populate_loop K fd4 fd6 ps w))" by auto
qed

end

context bpf_kernel_reliable
begin

lemma flush_loop_empties:
  assumes "lpm_order (view w) m = key # ks" and "length ks < fuel"
    and "\<forall>k \<in> dom (ents (view w) m). key_ok m k"
  shows "lpm_order (view (flush_loop K m fuel key w)) m = []"
  using assms
proof (induction fuel arbitrary: key ks w)
  case 0
  then show ?case by simp
next
  case (Suc fuel)
  obtain r w1 where n: "k_lpm_next K m (Some key) w = (r, w1)" by fastforce
  obtain e w2 where d: "k_lpm_delete K m key w1 = (e, w2)" by fastforce
  have o: "lpm_order (view w) m = [] @ key # ks" using Suc.prems(1) by simp
  have r: "r = (case ks of [] \<Rightarrow> Inl ENOENT | k' # _ \<Rightarrow> Inr k')" and v1: "view w1 = view w"
    using next_after [OF n o] by blast+
  have inm: "key \<in> dom (ents (view w1) m)" using Suc.prems(1) order [of w m] v1 by auto
  then have key: "key_ok m key" using Suc.prems(3) v1 by auto
  have "e = None" using delete_present [OF inm key] d by simp
  then have v2: "view w2 = (view w)\<lparr>ents := (ents (view w))(m := (ents (view w) m)(key := None)),
        lpm_order := (lpm_order (view w))(m := remove1 key (lpm_order (view w) m))\<rparr>"
    using d delete_ok [OF _ key, of w1 w2] v1 by simp
  then have o2: "lpm_order (view w2) m = ks" using Suc.prems(1) by simp
  show ?case
  proof (cases ks)
    case Nil
    then show ?thesis using n d r o2 by simp
  next
    case (Cons k' ks')
    have ok2: "\<forall>k \<in> dom (ents (view w2) m). key_ok m k" using v2 Suc.prems(3) by auto
    have "lpm_order (view w2) m = k' # ks'" "length ks' < fuel" using o2 Cons Suc.prems(2) by simp_all
    from Suc.IH [OF this ok2] show ?thesis using n d r Cons by simp
  qed
qed

lemma flush_lpm_empties:
  assumes "\<forall>k \<in> dom (ents (view w) m). key_ok m k"
  shows "ents (view (flush_lpm K m w)) m = Map.empty"
proof -
  obtain r w1 where n: "k_lpm_next K m None w = (r, w1)" by fastforce
  have r: "r = (case lpm_order (view w) m of [] \<Rightarrow> Inl ENOENT | k # _ \<Rightarrow> Inr k)" and v: "view w1 = view w"
    using next_first [OF n] by blast+
  have "lpm_order (view (flush_lpm K m w)) m = []"
  proof (cases "lpm_order (view w) m")
    case Nil
    then show ?thesis using n r v by (simp add: flush_lpm_def)
  next
    case (Cons k ks)
    have "length ks < Suc (k_max_entries K m w1)" using max_entries [of w1 m] Cons v by simp
    then show ?thesis
      using flush_loop_empties [of w1 m k ks "Suc (k_max_entries K m w1)"] Cons v assms n r
      by (simp add: flush_lpm_def del: flush_loop.simps)
  qed
  then have "dom (ents (view (flush_lpm K m w)) m) = {}" using order [of "flush_lpm K m w" m] by simp
  then show ?thesis by (rule dom_eq_empty_conv [THEN iffD1])
qed

end

end
