(* ===== verification/Xdp.thy ===== *)
theory Xdp
  imports Maps "HOL-Library.Monad_Syntax"
begin

unbundle bit_operations_syntax

section \<open>The data plane: bpf/voidgate.bpf.c\<close>

text \<open>
  The XDP program as a function of the packet, the maps it reads and the counters of its CPU. A
  pointer into the packet is its offset from \<open>ctx->data\<close>, and \<open>data_end\<close> is the length of the packet.
  A load outside the packet gives \<open>None\<close>, so a run that ends in \<open>None\<close> is one the kernel's verifier
  would have to refuse. Addresses are kept as their bytes in network order. \<open>x_metrics\<close> and
  \<open>x_cnt\<close> are the entries of the running CPU; \<open>e_insert\<close> is what the kernel does for
  \<open>bpf_map_update_elem\<close> with \<open>BPF_NOEXIST\<close> on a hash map (it may refuse, and an LRU map may evict).
  One run of the program is atomic with respect to the writes of user space.
\<close>

datatype xdp_action = XDP_PASS | XDP_DROP

datatype cnt_map = Host_v4 | Host_v6 | CRemote_v4 | CRemote_v6

record xdp_env =
  e_lpm :: "lpm_map \<Rightarrow> lpm_key \<Rightarrow> bool"
  e_cfg :: "vg_cfg option"
  e_insert :: "cnt_map \<Rightarrow> bytes \<Rightarrow> (bytes \<rightharpoonup> host_counters) \<Rightarrow> (bytes \<rightharpoonup> host_counters)"

record xdp_state =
  x_metrics :: "vg_metrics option"
  x_cnt :: "cnt_map \<Rightarrow> (bytes \<rightharpoonup> host_counters)"

subsection \<open>Loads\<close>

definition ld8 :: "bytes \<Rightarrow> nat \<Rightarrow> u8 option" where
  "ld8 pkt i = (if i < length pkt then Some (pkt ! i) else None)"

definition ldn :: "bytes \<Rightarrow> nat \<Rightarrow> nat \<Rightarrow> bytes option" where
  "ldn pkt i n = (if i + n \<le> length pkt then Some (take n (drop i pkt)) else None)"

definition be16 :: "u8 \<Rightarrow> u8 \<Rightarrow> u16" where
  "be16 a b = push_bit 8 (ucast a) OR ucast b"

definition ld16 :: "bytes \<Rightarrow> nat \<Rightarrow> u16 option" where
  "ld16 pkt i = do { a \<leftarrow> ld8 pkt i; b \<leftarrow> ld8 pkt (i + 1); Some (be16 a b) }"

subsection \<open>Helpers\<close>

definition get_cfg :: "xdp_env \<Rightarrow> vg_cfg option" where
  "get_cfg env = e_cfg env"

text \<open>An update through the pointer \<open>get_metrics\<close> returned, when it is not NULL.\<close>

definition bump :: "(vg_metrics \<Rightarrow> vg_metrics) \<Rightarrow> xdp_state \<Rightarrow> xdp_state" where
  "bump f s = s\<lparr>x_metrics := map_option f (x_metrics s)\<rparr>"

abbreviation inc_passed :: "vg_metrics \<Rightarrow> vg_metrics" where
  "inc_passed m \<equiv> m\<lparr>passed := passed m + 1\<rparr>"
abbreviation inc_dropped :: "vg_metrics \<Rightarrow> vg_metrics" where
  "inc_dropped m \<equiv> m\<lparr>dropped := dropped m + 1\<rparr>"
abbreviation inc_non_ip :: "vg_metrics \<Rightarrow> vg_metrics" where
  "inc_non_ip m \<equiv> m\<lparr>non_ip := non_ip m + 1\<rparr>"
abbreviation inc_map_full :: "vg_metrics \<Rightarrow> vg_metrics" where
  "inc_map_full m \<equiv> m\<lparr>map_full := map_full m + 1\<rparr>"
abbreviation inc_parse_err :: "vg_metrics \<Rightarrow> vg_metrics" where
  "inc_parse_err m \<equiv> m\<lparr>parse_err := parse_err m + 1\<rparr>"

fun port_loop :: "nat \<Rightarrow> nat \<Rightarrow> vg_cfg \<Rightarrow> u16 \<Rightarrow> bool" where
  "port_loop 0 i c port = False"
| "port_loop (Suc n) i c port =
     (if i \<ge> unat (bc_allow_port_count c) then False
      else if bc_allow_ports c ! i = port then True
      else port_loop n (i + 1) c port)"

definition port_allowed :: "vg_cfg option \<Rightarrow> u16 \<Rightarrow> bool" where
  "port_allowed co port =
     (case co of None \<Rightarrow> False | Some c \<Rightarrow> port_loop VG_MAX_ALLOW_PORTS 0 c port)"

definition v4_in_lpm :: "xdp_env \<Rightarrow> lpm_map \<Rightarrow> bytes \<Rightarrow> bool" where
  "v4_in_lpm env m ip = e_lpm env m \<lparr>kplen = 32, kdata = take 4 ip\<rparr>"

definition v6_in_lpm :: "xdp_env \<Rightarrow> lpm_map \<Rightarrow> bytes \<Rightarrow> bool" where
  "v6_in_lpm env m a = e_lpm env m \<lparr>kplen = 128, kdata = take 16 a\<rparr>"

definition v6_is_linklocal :: "bytes \<Rightarrow> bool" where
  "v6_is_linklocal a \<longleftrightarrow> a ! 0 = 0xfe \<and> a ! 1 AND 0xc0 = 0x80"

definition v6_is_mcast_link :: "bytes \<Rightarrow> bool" where
  "v6_is_mcast_link a \<longleftrightarrow> a ! 0 = 0xff \<and> a ! 1 = 0x02"

text \<open>\<open>VG_HASH_GET\<close>: whether the returned pointer, to the entry of \<open>key\<close>, is not NULL.\<close>

definition VG_HASH_GET :: "xdp_env \<Rightarrow> cnt_map \<Rightarrow> bytes \<Rightarrow> xdp_state \<Rightarrow> bool \<times> xdp_state" where
  "VG_HASH_GET env cm key s =
     (if x_cnt s cm key \<noteq> None then (True, s)
      else
        (let s = s\<lparr>x_cnt := (x_cnt s)(cm := e_insert env cm key (x_cnt s cm))\<rparr>
         in if x_cnt s cm key \<noteq> None then (True, s) else (False, bump inc_map_full s)))"

definition acc_in :: "cnt_map \<Rightarrow> bytes \<Rightarrow> u64 \<Rightarrow> bool \<times> xdp_state \<Rightarrow> xdp_state" where
  "acc_in cm key nb cs =
     (case cs of (nonnull, s) \<Rightarrow>
        if \<not> nonnull then s
        else s\<lparr>x_cnt := (x_cnt s)(cm := (x_cnt s cm)(key :=
               map_option (\<lambda>c. c\<lparr>in_pkts := in_pkts c + 1, in_bytes := in_bytes c + nb\<rparr>) (x_cnt s cm key)))\<rparr>)"

definition v4_dhcp_allowed :: "xdp_env \<Rightarrow> bytes \<Rightarrow> u16 \<Rightarrow> u16 \<Rightarrow> bool" where
  "v4_dhcp_allowed env daddr sport dport =
     (if \<not> (dport = 68 \<and> sport = 67 \<or> dport = 67 \<and> (sport = 68 \<or> sport = 67)) then False
      else daddr = [255, 255, 255, 255] \<or> v4_in_lpm env Local_v4 daddr)"

definition v6_dhcp_allowed :: "xdp_env \<Rightarrow> bytes \<Rightarrow> u16 \<Rightarrow> u16 \<Rightarrow> bool" where
  "v6_dhcp_allowed env daddr sport dport =
     (if \<not> (dport = 546 \<and> sport = 547 \<or> dport = 547 \<and> (sport = 546 \<or> sport = 547)) then False
      else v6_in_lpm env Local_v6 daddr)"

definition v4_tcp_allowed :: "xdp_env \<Rightarrow> vg_cfg option \<Rightarrow> bytes \<Rightarrow> bytes \<Rightarrow> u16 \<Rightarrow> u16 \<Rightarrow> bool" where
  "v4_tcp_allowed env c saddr daddr sport dport =
     (if port_allowed c dport \<and> v4_in_lpm env Local_v4 daddr then True
      else if port_allowed c sport \<and> v4_in_lpm env Local_v4 saddr then True
      else False)"

definition v6_tcp_allowed :: "xdp_env \<Rightarrow> vg_cfg option \<Rightarrow> bytes \<Rightarrow> bytes \<Rightarrow> u16 \<Rightarrow> u16 \<Rightarrow> bool" where
  "v6_tcp_allowed env c saddr daddr sport dport =
     (if port_allowed c dport \<and> v6_in_lpm env Local_v6 daddr then True
      else if port_allowed c sport \<and> v6_in_lpm env Local_v6 saddr then True
      else False)"

definition pass :: "xdp_state \<Rightarrow> xdp_action \<times> xdp_state" where
  "pass s = (XDP_PASS, bump inc_passed s)"

definition parse_fail :: "xdp_state \<Rightarrow> xdp_action \<times> xdp_state" where
  "parse_fail s = (XDP_PASS, bump inc_parse_err s)"

subsection \<open>Parsing\<close>

text \<open>
  \<open>parse_l4\<close> gives its return code, the two ports and the ICMPv6 type; \<open>icmp\<close> says whether the
  pointer for the type is not NULL. A TCP header has 20 bytes, a UDP header 8, an ICMPv6 header 4.
\<close>

definition parse_l4 :: "bytes \<Rightarrow> nat \<Rightarrow> u8 \<Rightarrow> bool \<Rightarrow> (int \<times> u16 \<times> u16 \<times> u8) option" where
  "parse_l4 pkt l4 proto icmp =
     (if proto = VG_IPPROTO_TCP then
        (if l4 + 20 > length pkt then Some (- 1, 0, 0, 0)
         else do { sport \<leftarrow> ld16 pkt l4; dport \<leftarrow> ld16 pkt (l4 + 2); Some (0, sport, dport, 0) })
      else if proto = VG_IPPROTO_UDP then
        (if l4 + 8 > length pkt then Some (- 1, 0, 0, 0)
         else do { sport \<leftarrow> ld16 pkt l4; dport \<leftarrow> ld16 pkt (l4 + 2); Some (0, sport, dport, 0) })
      else if proto = VG_IPPROTO_ICMPV6 \<and> icmp then
        (if l4 + 4 > length pkt then Some (- 1, 0, 0, 0)
         else do { ty \<leftarrow> ld8 pkt l4; Some (0, 0, 0, ty) })
      else Some (0, 0, 0, 0))"

text \<open>The loop of \<open>v6_walk_ext\<close>, unrolled \<open>VG_MAX_IPV6_EXT\<close> times.\<close>

fun ext_loop :: "nat \<Rightarrow> bytes \<Rightarrow> nat \<Rightarrow> u8 \<Rightarrow> (int \<times> nat \<times> u8) option" where
  "ext_loop 0 pkt l4 proto = Some (1, l4, proto)"
| "ext_loop (Suc n) pkt l4 proto =
     (if proto = VG_IPPROTO_FRAGMENT then
        (if l4 + 8 > length pkt then Some (- 1, l4, proto)
         else do {
           nexthdr \<leftarrow> ld8 pkt l4;
           frag_off \<leftarrow> ld16 pkt (l4 + 2);
           if frag_off AND 0xfff8 \<noteq> 0 then Some (0, l4 + 8, nexthdr)
           else ext_loop n pkt (l4 + 8) nexthdr
         })
      else if proto \<noteq> VG_IPPROTO_HOPOPTS \<and> proto \<noteq> VG_IPPROTO_ROUTING \<and>
              proto \<noteq> VG_IPPROTO_DSTOPTS \<and> proto \<noteq> VG_IPPROTO_AH
      then Some (1, l4, proto)
      else if l4 + 2 > length pkt then Some (- 1, l4, proto)
      else do {
        ext1 \<leftarrow> ld8 pkt (l4 + 1);
        let len = (if proto = VG_IPPROTO_AH then (unat ext1 + 2) * 4 else (unat ext1 + 1) * 8);
        if l4 + len > length pkt then Some (- 1, l4, proto)
        else do { ext0 \<leftarrow> ld8 pkt l4; ext_loop n pkt (l4 + len) ext0 }
      })"

text \<open>On a truncated header \<open>*l4p\<close> and \<open>*protop\<close> keep what they had.\<close>

definition v6_walk_ext :: "bytes \<Rightarrow> nat \<Rightarrow> u8 \<Rightarrow> (int \<times> nat \<times> u8) option" where
  "v6_walk_ext pkt l4p protop = do {
     (rc, l4, proto) \<leftarrow> ext_loop VG_MAX_IPV6_EXT pkt l4p protop;
     if rc < 0 then Some (- 1, l4p, protop) else Some (rc, l4, proto)
   }"

text \<open>The loop over VLAN tags; \<open>Some None\<close> is the early return through \<open>parse_fail\<close>.\<close>

fun vlan_loop :: "nat \<Rightarrow> bytes \<Rightarrow> u16 \<Rightarrow> nat \<Rightarrow> (u16 \<times> nat) option option" where
  "vlan_loop 0 pkt eth_proto nh = Some (Some (eth_proto, nh))"
| "vlan_loop (Suc n) pkt eth_proto nh =
     (if eth_proto \<noteq> VG_ETH_P_8021Q \<and> eth_proto \<noteq> VG_ETH_P_8021AD then Some (Some (eth_proto, nh))
      else if nh + 4 > length pkt then Some None
      else do { proto \<leftarrow> ld16 pkt (nh + 2); vlan_loop n pkt proto (nh + 4) })"

subsection \<open>The program\<close>

text \<open>The code at the labels \<open>v4_count\<close> and \<open>v6_count\<close>.\<close>

definition v4_count :: "xdp_env \<Rightarrow> bytes \<Rightarrow> bytes \<Rightarrow> u64 \<Rightarrow> xdp_state \<Rightarrow> xdp_action \<times> xdp_state" where
  "v4_count env saddr daddr pkt_len s =
     (let s = (if v4_in_lpm env Local_v4 daddr then
                 (let s = acc_in Host_v4 daddr pkt_len (VG_HASH_GET env Host_v4 daddr s)
                  in acc_in CRemote_v4 saddr pkt_len (VG_HASH_GET env CRemote_v4 saddr s))
               else s)
      in pass s)"

definition v6_count :: "xdp_env \<Rightarrow> bytes \<Rightarrow> bytes \<Rightarrow> u64 \<Rightarrow> xdp_state \<Rightarrow> xdp_action \<times> xdp_state" where
  "v6_count env saddr daddr pkt_len s =
     (let s = (if v6_in_lpm env Local_v6 daddr then
                 (let s = acc_in Host_v6 daddr pkt_len (VG_HASH_GET env Host_v6 daddr s)
                  in acc_in CRemote_v6 saddr pkt_len (VG_HASH_GET env CRemote_v6 saddr s))
               else s)
      in pass s)"

definition xdp_v4 :: "xdp_env \<Rightarrow> vg_cfg \<Rightarrow> bytes \<Rightarrow> nat \<Rightarrow> u64 \<Rightarrow> xdp_state \<Rightarrow> (xdp_action \<times> xdp_state) option" where
  "xdp_v4 env c pkt ip pkt_len s =
     (if ip + 20 > length pkt then Some (parse_fail s)
      else do {
        saddr \<leftarrow> ldn pkt (ip + 12) 4;
        daddr \<leftarrow> ldn pkt (ip + 16) 4;
        proto \<leftarrow> ld8 pkt (ip + 9);
        ver_ihl \<leftarrow> ld8 pkt ip;
        frag_off \<leftarrow> ld16 pkt (ip + 6);
        let ihl = unat (ver_ihl AND 0x0f);
        let l4 = ip + push_bit 2 ihl;
        let first_frag = (frag_off AND 0x1fff = 0);
        (sport, dport, s) \<leftarrow>
          (if ihl < 5 \<or> l4 > length pkt then Some (0, 0, bump inc_parse_err s)
           else if first_frag then do {
             (rc, sport, dport, _) \<leftarrow> parse_l4 pkt l4 proto False;
             Some (sport, dport, if rc < 0 then bump inc_parse_err s else s)
           }
           else Some (0, 0, s));
        if v4_in_lpm env Allow_v4 saddr \<or> v4_in_lpm env Allow_v4 daddr
        then Some (v4_count env saddr daddr pkt_len s)
        else if proto = VG_IPPROTO_TCP \<and> v4_tcp_allowed env (Some c) saddr daddr sport dport
        then Some (v4_count env saddr daddr pkt_len s)
        else if proto = VG_IPPROTO_UDP \<and> v4_dhcp_allowed env daddr sport dport
        then Some (v4_count env saddr daddr pkt_len s)
        else if v4_in_lpm env Drop_v4 saddr \<or> v4_in_lpm env Drop_v4 daddr
        then Some (XDP_DROP, bump inc_dropped s)
        else Some (v4_count env saddr daddr pkt_len s)
      })"

definition xdp_v6 :: "xdp_env \<Rightarrow> vg_cfg \<Rightarrow> bytes \<Rightarrow> nat \<Rightarrow> u64 \<Rightarrow> xdp_state \<Rightarrow> (xdp_action \<times> xdp_state) option" where
  "xdp_v6 env c pkt ip6 pkt_len s =
     (if ip6 + 40 > length pkt then Some (parse_fail s)
      else do {
        nexthdr \<leftarrow> ld8 pkt (ip6 + 6);
        saddr \<leftarrow> ldn pkt (ip6 + 8) 16;
        daddr \<leftarrow> ldn pkt (ip6 + 24) 16;
        (ext_rc, l4, proto) \<leftarrow> v6_walk_ext pkt (ip6 + 40) nexthdr;
        (sport, dport, icmp6_type, s) \<leftarrow>
          (if ext_rc < 0 then Some (0, 0, 0, bump inc_parse_err s)
           else if ext_rc > 0 then do {
             (rc, sport, dport, ty) \<leftarrow> parse_l4 pkt l4 proto True;
             Some (sport, dport, ty, if rc < 0 then bump inc_parse_err s else s)
           }
           else Some (0, 0, 0, s));
        hop_limit \<leftarrow> ld8 pkt (ip6 + 7);
        if v6_is_linklocal saddr \<or> v6_is_linklocal daddr \<or>
           v6_is_mcast_link saddr \<or> v6_is_mcast_link daddr
        then Some (v6_count env saddr daddr pkt_len s)
        else if hop_limit = VG_NDISC_HOP_LIMIT \<and> icmp6_type \<ge> VG_NDISC_RS \<and> icmp6_type \<le> VG_NDISC_REDIRECT
        then Some (v6_count env saddr daddr pkt_len s)
        else if v6_in_lpm env Allow_v6 saddr \<or> v6_in_lpm env Allow_v6 daddr
        then Some (v6_count env saddr daddr pkt_len s)
        else if proto = VG_IPPROTO_TCP \<and> v6_tcp_allowed env (Some c) saddr daddr sport dport
        then Some (v6_count env saddr daddr pkt_len s)
        else if proto = VG_IPPROTO_UDP \<and> v6_dhcp_allowed env daddr sport dport
        then Some (v6_count env saddr daddr pkt_len s)
        else if v6_in_lpm env Drop_v6 saddr \<or> v6_in_lpm env Drop_v6 daddr
        then Some (XDP_DROP, bump inc_dropped s)
        else Some (v6_count env saddr daddr pkt_len s)
      })"

definition voidgate_xdp :: "xdp_env \<Rightarrow> bytes \<Rightarrow> xdp_state \<Rightarrow> (xdp_action \<times> xdp_state) option" where
  "voidgate_xdp env pkt s =
     (let pkt_len = of_nat (length pkt);
          s = bump (\<lambda>m. m\<lparr>rx_pkts := rx_pkts m + 1, rx_bytes := rx_bytes m + pkt_len\<rparr>) s
      in case get_cfg env of
           None \<Rightarrow> Some (pass s)
         | Some c \<Rightarrow>
             if armed c = 0 then Some (pass s)
             else if 14 > length pkt then Some (parse_fail s)
             else do {
               proto \<leftarrow> ld16 pkt 12;
               r \<leftarrow> vlan_loop VG_MAX_VLANS pkt proto 14;
               case r of
                 None \<Rightarrow> Some (parse_fail s)
               | Some (eth_proto, nh) \<Rightarrow>
                   if eth_proto = VG_ETH_P_IP then xdp_v4 env c pkt nh pkt_len s
                   else if eth_proto = VG_ETH_P_IPV6 then xdp_v6 env c pkt nh pkt_len s
                   else Some (pass (bump inc_non_ip s))
             })"

end
