(* ===== verification/XdpSpec.thy ===== *)
theory XdpSpec
  imports Xdp
begin

unbundle bit_operations_syntax

section \<open>What the data plane does with a packet\<close>

text \<open>
  The program never loads outside the packet: it equals \<open>xdp_spec\<close>, which has no failing loads. The
  verdict is then a test on the two addresses, the transport protocol and its ports. \<open>l3_of\<close> finds
  the network header behind at most two VLAN tags, \<open>v4_l4\<close> and \<open>v6_l4\<close> give what the program knows
  of the transport header.
\<close>

subsection \<open>Loads inside the packet\<close>

lemma ld8_in: "i < length pkt \<Longrightarrow> ld8 pkt i = Some (pkt ! i)"
  by (simp add: ld8_def)

lemma ld16_in: "Suc i < length pkt \<Longrightarrow> ld16 pkt i = Some (be16 (pkt ! i) (pkt ! (i + 1)))"
  by (simp add: ld16_def ld8_in)

lemma ldn_in: "i + n \<le> length pkt \<Longrightarrow> ldn pkt i n = Some (take n (drop i pkt))"
  by (simp add: ldn_def)

lemmas loads = ld8_in ld16_in ldn_in

lemma parse_l4_total:
  "\<exists>rc sp dp ty. parse_l4 pkt l4 proto icmp = Some (rc, sp, dp, ty)"
  by (auto simp: parse_l4_def loads not_less)

lemma ext_loop_total:
  "\<exists>rc l p. ext_loop n pkt l4 proto = Some (rc, l, p)"
proof (induction n arbitrary: l4 proto)
  case (Suc n)
  then show ?case by (auto simp: loads not_less Let_def)
qed simp

lemma walk_ext_total: "\<exists>rc l p. v6_walk_ext pkt l4 proto = Some (rc, l, p)"
proof -
  obtain rc l p where "ext_loop VG_MAX_IPV6_EXT pkt l4 proto = Some (rc, l, p)"
    using ext_loop_total by blast
  then show ?thesis by (cases "rc < 0") (simp_all add: v6_walk_ext_def)
qed

lemma vlan_loop_total: "\<exists>r. vlan_loop n pkt proto nh = Some r"
proof (induction n arbitrary: proto nh)
  case (Suc n)
  then show ?case by (auto simp: loads not_less)
qed simp

subsection \<open>The program without loads\<close>

datatype l3 = L3_short | L3_other | L3_v4 nat | L3_v6 nat

definition l3_of :: "bytes \<Rightarrow> l3" where
  "l3_of pkt =
     (if length pkt < 14 then L3_short
      else case the (vlan_loop VG_MAX_VLANS pkt (be16 (pkt ! 12) (pkt ! 13)) 14) of
             None \<Rightarrow> L3_short
           | Some (et, nh) \<Rightarrow>
               if et = VG_ETH_P_IP then (if nh + 20 > length pkt then L3_short else L3_v4 nh)
               else if et = VG_ETH_P_IPV6 then (if nh + 40 > length pkt then L3_short else L3_v6 nh)
               else L3_other)"

definition slice :: "nat \<Rightarrow> nat \<Rightarrow> bytes \<Rightarrow> bytes" where
  "slice i n pkt = take n (drop i pkt)"

text \<open>The parse error flag and the two ports of an IPv4 packet.\<close>

definition v4_l4 :: "bytes \<Rightarrow> nat \<Rightarrow> bool \<times> u16 \<times> u16" where
  "v4_l4 pkt ip =
     (let ihl = unat (pkt ! ip AND 0x0f); l4 = ip + push_bit 2 ihl in
      if ihl < 5 \<or> l4 > length pkt then (True, 0, 0)
      else if be16 (pkt ! (ip + 6)) (pkt ! (ip + 7)) AND 0x1fff = 0
      then (case the (parse_l4 pkt l4 (pkt ! (ip + 9)) False) of (rc, sp, dp, _) \<Rightarrow> (rc < 0, sp, dp))
      else (False, 0, 0))"

text \<open>The parse error flag, the transport protocol, the ports and the ICMPv6 type of an IPv6 packet.\<close>

definition v6_l4 :: "bytes \<Rightarrow> nat \<Rightarrow> bool \<times> u8 \<times> u16 \<times> u16 \<times> u8" where
  "v6_l4 pkt ip6 =
     (case the (v6_walk_ext pkt (ip6 + 40) (pkt ! (ip6 + 6))) of (ext_rc, l4, proto) \<Rightarrow>
        if ext_rc < 0 then (True, proto, 0, 0, 0)
        else if ext_rc > 0
        then (case the (parse_l4 pkt l4 proto True) of (rc, sp, dp, ty) \<Rightarrow> (rc < 0, proto, sp, dp, ty))
        else (False, proto, 0, 0, 0))"

definition v4_exempt :: "xdp_env \<Rightarrow> vg_cfg \<Rightarrow> bytes \<Rightarrow> bytes \<Rightarrow> u8 \<Rightarrow> u16 \<Rightarrow> u16 \<Rightarrow> bool" where
  "v4_exempt env c src dst proto sp dp \<longleftrightarrow>
     v4_in_lpm env Allow_v4 src \<or> v4_in_lpm env Allow_v4 dst \<or>
     proto = VG_IPPROTO_TCP \<and> v4_tcp_allowed env (Some c) src dst sp dp \<or>
     proto = VG_IPPROTO_UDP \<and> v4_dhcp_allowed env dst sp dp"

definition v6_exempt :: "xdp_env \<Rightarrow> vg_cfg \<Rightarrow> bytes \<Rightarrow> bytes \<Rightarrow> u8 \<Rightarrow> u8 \<Rightarrow> u16 \<Rightarrow> u16 \<Rightarrow> u8 \<Rightarrow> bool" where
  "v6_exempt env c src dst hop proto sp dp ty \<longleftrightarrow>
     v6_is_linklocal src \<or> v6_is_linklocal dst \<or> v6_is_mcast_link src \<or> v6_is_mcast_link dst \<or>
     hop = VG_NDISC_HOP_LIMIT \<and> VG_NDISC_RS \<le> ty \<and> ty \<le> VG_NDISC_REDIRECT \<or>
     v6_in_lpm env Allow_v6 src \<or> v6_in_lpm env Allow_v6 dst \<or>
     proto = VG_IPPROTO_TCP \<and> v6_tcp_allowed env (Some c) src dst sp dp \<or>
     proto = VG_IPPROTO_UDP \<and> v6_dhcp_allowed env dst sp dp"

definition note_err :: "bool \<Rightarrow> xdp_state \<Rightarrow> xdp_state" where
  "note_err e s = (if e then bump inc_parse_err s else s)"

definition v4_decide :: "xdp_env \<Rightarrow> vg_cfg \<Rightarrow> bytes \<Rightarrow> nat \<Rightarrow> xdp_state \<Rightarrow> xdp_action \<times> xdp_state" where
  "v4_decide env c pkt ip s =
     (let src = slice (ip + 12) 4 pkt; dst = slice (ip + 16) 4 pkt; (e, sp, dp) = v4_l4 pkt ip;
          s = note_err e s
      in if (v4_in_lpm env Drop_v4 src \<or> v4_in_lpm env Drop_v4 dst) \<and>
            \<not> v4_exempt env c src dst (pkt ! (ip + 9)) sp dp
         then (XDP_DROP, bump inc_dropped s)
         else v4_count env src dst (of_nat (length pkt)) s)"

definition v6_decide :: "xdp_env \<Rightarrow> vg_cfg \<Rightarrow> bytes \<Rightarrow> nat \<Rightarrow> xdp_state \<Rightarrow> xdp_action \<times> xdp_state" where
  "v6_decide env c pkt ip6 s =
     (let src = slice (ip6 + 8) 16 pkt; dst = slice (ip6 + 24) 16 pkt;
          (e, proto, sp, dp, ty) = v6_l4 pkt ip6; s = note_err e s
      in if (v6_in_lpm env Drop_v6 src \<or> v6_in_lpm env Drop_v6 dst) \<and>
            \<not> v6_exempt env c src dst (pkt ! (ip6 + 7)) proto sp dp ty
         then (XDP_DROP, bump inc_dropped s)
         else v6_count env src dst (of_nat (length pkt)) s)"

definition seen :: "bytes \<Rightarrow> xdp_state \<Rightarrow> xdp_state" where
  "seen pkt s =
     bump (\<lambda>m. m\<lparr>rx_pkts := rx_pkts m + 1, rx_bytes := rx_bytes m + of_nat (length pkt)\<rparr>) s"

definition armed_env :: "xdp_env \<Rightarrow> vg_cfg option" where
  "armed_env env = (case e_cfg env of None \<Rightarrow> None | Some c \<Rightarrow> if armed c = 0 then None else Some c)"

definition xdp_spec :: "xdp_env \<Rightarrow> bytes \<Rightarrow> xdp_state \<Rightarrow> xdp_action \<times> xdp_state" where
  "xdp_spec env pkt s =
     (let s = seen pkt s in
      case armed_env env of
        None \<Rightarrow> pass s
      | Some c \<Rightarrow>
          (case l3_of pkt of
             L3_short \<Rightarrow> parse_fail s
           | L3_other \<Rightarrow> pass (bump inc_non_ip s)
           | L3_v4 ip \<Rightarrow> v4_decide env c pkt ip s
           | L3_v6 ip6 \<Rightarrow> v6_decide env c pkt ip6 s))"

lemma xdp_v4_eq:
  assumes "ip + 20 \<le> length pkt"
  shows "xdp_v4 env c pkt ip (of_nat (length pkt)) s = Some (v4_decide env c pkt ip s)"
proof -
  obtain rc sp dp ty where
    p: "parse_l4 pkt (ip + push_bit 2 (unat (pkt ! ip AND 0x0f))) (pkt ! (ip + 9)) False = Some (rc, sp, dp, ty)"
    using parse_l4_total by blast
  have ld: "ldn pkt (ip + 12) 4 = Some (slice (ip + 12) 4 pkt)" "ldn pkt (ip + 16) 4 = Some (slice (ip + 16) 4 pkt)"
    "ld8 pkt (ip + 9) = Some (pkt ! (ip + 9))" "ld8 pkt ip = Some (pkt ! ip)"
    "ld16 pkt (ip + 6) = Some (be16 (pkt ! (ip + 6)) (pkt ! (ip + 7)))"
    using assms by (simp_all add: loads slice_def add.commute [of 7])
  show ?thesis
    using assms
    by (auto simp: xdp_v4_def ld p Let_def v4_decide_def v4_l4_def note_err_def v4_exempt_def)
qed

lemma xdp_v6_eq:
  assumes "ip6 + 40 \<le> length pkt"
  shows "xdp_v6 env c pkt ip6 (of_nat (length pkt)) s = Some (v6_decide env c pkt ip6 s)"
proof -
  obtain erc l4 pr where w: "v6_walk_ext pkt (ip6 + 40) (pkt ! (ip6 + 6)) = Some (erc, l4, pr)"
    using walk_ext_total by blast
  obtain rc sp dp ty where p: "parse_l4 pkt l4 pr True = Some (rc, sp, dp, ty)"
    using parse_l4_total by blast
  have ld: "ldn pkt (ip6 + 8) 16 = Some (slice (ip6 + 8) 16 pkt)"
    "ldn pkt (ip6 + 24) 16 = Some (slice (ip6 + 24) 16 pkt)"
    "ld8 pkt (ip6 + 6) = Some (pkt ! (ip6 + 6))" "ld8 pkt (ip6 + 7) = Some (pkt ! (ip6 + 7))"
    using assms by (simp_all add: loads slice_def)
  show ?thesis
    using assms
    by (auto simp: xdp_v6_def ld w p v6_decide_def v6_l4_def note_err_def v6_exempt_def)
qed

lemma xdp_eq: "voidgate_xdp env pkt s = Some (xdp_spec env pkt s)"
proof (cases "armed_env env")
  case None
  then show ?thesis
    by (auto simp: voidgate_xdp_def get_cfg_def xdp_spec_def armed_env_def seen_def Let_def split: option.splits if_splits)
next
  case (Some c)
  then have c: "e_cfg env = Some c" "armed c \<noteq> 0" by (auto simp: armed_env_def split: option.splits if_splits)
  show ?thesis
  proof (cases "length pkt < 14")
    case True
    then show ?thesis using Some c
      by (simp add: voidgate_xdp_def get_cfg_def xdp_spec_def seen_def l3_of_def Let_def)
  next
    case False
    obtain r where r: "vlan_loop VG_MAX_VLANS pkt (be16 (pkt ! 12) (pkt ! 13)) 14 = Some r"
      using vlan_loop_total by blast
    have ld: "ld16 pkt 12 = Some (be16 (pkt ! 12) (pkt ! 13))" using False by (simp add: loads)
    show ?thesis
      using Some c False ld r xdp_v4_eq xdp_v6_eq
      by (auto simp: voidgate_xdp_def get_cfg_def xdp_spec_def seen_def l3_of_def Let_def not_le
          xdp_v4_def xdp_v6_def simp del: VG_MAX_VLANS_def split: option.splits)
  qed
qed

text \<open>
  C6: The program never loads outside the packet: on every packet, with any maps, it ends with a
  verdict.
\<close>

theorem xdp_memory_safe: "\<exists>a s'. voidgate_xdp env pkt s = Some (a, s')"
  using xdp_eq by (metis surj_pair)

end
