(* ===== verification/XdpFrame.thy ===== *)
theory XdpFrame
  imports XdpSpec
begin

unbundle bit_operations_syntax

section \<open>Verdicts on well-formed frames\<close>

text \<open>
  Frames as senders build them: an Ethernet header with VLAN tags, an IPv4 header with options or an
  IPv6 header with a chain of extension headers, and a transport header. The theorems say what the
  data plane decides on such a frame in terms of the values that were encoded, so parsing is the
  inverse of encoding on every field the program looks at.
\<close>

definition b16 :: "u16 \<Rightarrow> bytes" where
  "b16 w = [ucast (drop_bit 8 w), ucast w]"

lemma length_b16 [simp]: "length (b16 w) = 2"
  by (simp add: b16_def)

lemma be16_b16: "be16 (ucast (drop_bit 8 w)) (ucast w) = w"
  by (rule bit_word_eqI) (auto simp: be16_def bit_simps)

text \<open>Loads from a packet of which a prefix is known by its length only.\<close>

lemma ld8_at: "length xs = i \<Longrightarrow> ld8 (xs @ b # ys) i = Some b"
  by (auto simp: ld8_def)

lemma ld16_at:
  assumes "length xs = i"
  shows "ld16 (xs @ b16 w @ ys) i = Some w"
proof -
  have "ld8 (xs @ b16 w @ ys) (Suc i) = Some (ucast w)"
    using assms ld8_at [of "xs @ [ucast (drop_bit 8 w)]" "Suc i" "ucast w" ys] by (simp add: b16_def)
  then show ?thesis using assms ld8_at [of xs i] be16_b16 [of w] by (simp add: ld16_def b16_def)
qed

subsection \<open>Ethernet and VLAN tags\<close>

definition enc_tags :: "(u16 \<times> u16) list \<Rightarrow> u16 \<Rightarrow> bytes" where
  "enc_tags tags et = concat (map (\<lambda>(tpid, tci). b16 tpid @ b16 tci) tags) @ b16 et"

definition eth_frame :: "bytes \<Rightarrow> (u16 \<times> u16) list \<Rightarrow> u16 \<Rightarrow> bytes \<Rightarrow> bytes" where
  "eth_frame macs tags et payload = macs @ enc_tags tags et @ payload"

definition vlan_type :: "u16 \<Rightarrow> bool" where
  "vlan_type t \<longleftrightarrow> t = VG_ETH_P_8021Q \<or> t = VG_ETH_P_8021AD"

definition first_type :: "(u16 \<times> u16) list \<Rightarrow> u16 \<Rightarrow> u16" where
  "first_type tags et = (case tags of [] \<Rightarrow> et | (tpid, _) # _ \<Rightarrow> tpid)"

lemma enc_tags_simps:
  "enc_tags [] et = b16 et"
  "enc_tags ((tpid, tci) # tags) et = b16 tpid @ b16 tci @ enc_tags tags et"
  by (simp_all add: enc_tags_def)

lemma length_enc_tags: "length (enc_tags tags et) = 4 * length tags + 2"
  by (induction tags) (auto simp: enc_tags_def)

lemma enc_tags_first: "\<exists>ys. enc_tags tags et = b16 (first_type tags et) @ ys"
  by (cases tags) (auto simp: enc_tags_simps first_type_def)

lemma vlan_loop_frame:
  assumes "length xs + 2 = nh" "length tags \<le> n" "\<forall>t \<in> set tags. vlan_type (fst t)" "\<not> vlan_type et"
  shows "vlan_loop n (xs @ enc_tags tags et @ ys) (first_type tags et) nh = Some (Some (et, nh + 4 * length tags))"
  using assms
proof (induction tags arbitrary: n xs nh)
  case Nil
  then show ?case by (cases n) (auto simp: first_type_def vlan_type_def)
next
  case (Cons t tags)
  obtain tpid tci where t: "t = (tpid, tci)" by fastforce
  obtain m where n: "n = Suc m" using Cons.prems(2) by (cases n) auto
  let ?pkt = "xs @ enc_tags (t # tags) et @ ys"
  obtain zs where zs: "enc_tags tags et = b16 (first_type tags et) @ zs" using enc_tags_first by blast
  have "ld16 ?pkt (nh + 2) = Some (first_type tags et)"
    using ld16_at [of "xs @ b16 tpid @ b16 tci" "nh + 2" "first_type tags et" "zs @ ys"] Cons.prems(1)
    by (simp add: t enc_tags_simps zs)
  moreover have "vlan_loop m ((xs @ b16 tpid @ b16 tci) @ enc_tags tags et @ ys) (first_type tags et) (nh + 4)
      = Some (Some (et, nh + 4 + 4 * length tags))"
    using Cons.prems n by (intro Cons.IH) auto
  moreover have "\<not> nh + 4 > length ?pkt"
    using Cons.prems(1) by (simp add: length_enc_tags)
  ultimately show ?case
    using Cons.prems(3) n by (auto simp: t first_type_def vlan_type_def enc_tags_simps)
qed

text \<open>A frame with a network header of a known type and up to two tags.\<close>

definition eth_ok :: "bytes \<Rightarrow> (u16 \<times> u16) list \<Rightarrow> bool" where
  "eth_ok macs tags \<longleftrightarrow> length macs = 12 \<and> length tags \<le> VG_MAX_VLANS \<and> (\<forall>t \<in> set tags. vlan_type (fst t))"

lemma frame_l3:
  assumes "eth_ok macs tags" "\<not> vlan_type et"
  defines "nh \<equiv> 14 + 4 * length tags"
  shows "the (vlan_loop VG_MAX_VLANS (eth_frame macs tags et pl)
      (be16 (eth_frame macs tags et pl ! 12) (eth_frame macs tags et pl ! 13)) 14) = Some (et, nh)"
    and "length (eth_frame macs tags et pl) = nh + length pl"
proof -
  let ?pkt = "eth_frame macs tags et pl"
  have m: "length macs = 12" using assms by (simp add: eth_ok_def)
  obtain zs where zs: "enc_tags tags et = b16 (first_type tags et) @ zs" using enc_tags_first by blast
  have "?pkt ! 12 = ucast (drop_bit 8 (first_type tags et))" "?pkt ! 13 = ucast (first_type tags et)"
    using m by (simp_all add: eth_frame_def zs b16_def nth_append)
  then have f: "be16 (?pkt ! 12) (?pkt ! 13) = first_type tags et" using be16_b16 by simp
  have "vlan_loop VG_MAX_VLANS (macs @ enc_tags tags et @ pl) (first_type tags et) 14 = Some (Some (et, nh))"
    unfolding nh_def using assms by (intro vlan_loop_frame) (auto simp: eth_ok_def)
  then show "the (vlan_loop VG_MAX_VLANS ?pkt (be16 (?pkt ! 12) (?pkt ! 13)) 14) = Some (et, nh)"
    unfolding f by (simp add: eth_frame_def)
  show "length ?pkt = nh + length pl"
    using m by (simp add: eth_frame_def nh_def length_enc_tags)
qed


subsection \<open>Offsets\<close>

text \<open>Parsing behind a prefix of the packet does not look at the prefix.\<close>

lemma ld8_shift: "ld8 (xs @ pl) (length xs + i) = ld8 pl i"
  by (simp add: ld8_def)

lemma ld16_shift: "ld16 (xs @ pl) (length xs + i) = ld16 pl i"
  using ld8_shift [of xs pl i] ld8_shift [of xs pl "i + 1"] by (simp add: ld16_def)

lemma parse_l4_shift: "parse_l4 (xs @ pl) (length xs + i) proto icmp = parse_l4 pl i proto icmp"
  using ld16_shift [of xs pl i] ld16_shift [of xs pl "i + 2"] ld8_shift [of xs pl i]
  by (simp add: parse_l4_def add.assoc)

lemma ext_loop_shift:
  "ext_loop n (xs @ pl) (length xs + i) proto =
     map_option (\<lambda>(rc, l, p). (rc, length xs + l, p)) (ext_loop n pl i proto)"
proof (induction n arbitrary: i proto)
  case (Suc n)
  have ld: "ld8 (xs @ pl) (length xs + i) = ld8 pl i" "ld8 (xs @ pl) (Suc (length xs + i)) = ld8 pl (Suc i)"
    "ld16 (xs @ pl) (Suc (Suc (length xs + i))) = ld16 pl (Suc (Suc i))"
    using ld8_shift [of xs pl i] ld8_shift [of xs pl "Suc i"] ld16_shift [of xs pl "Suc (Suc i)"] by simp_all
  show ?case
    by (simp add: ld Suc.IH Let_def add.assoc split: option.splits bind_splits)
qed simp

lemma walk_ext_shift:
  "v6_walk_ext (xs @ pl) (length xs + i) proto =
     map_option (\<lambda>(rc, l, p). (rc, length xs + l, p)) (v6_walk_ext pl i proto)"
  by (auto simp: v6_walk_ext_def ext_loop_shift simp del: VG_MAX_IPV6_EXT_def split: bind_splits)

lemma nth_shift: "(xs @ pl) ! (length xs + i) = pl ! i"
  by (simp add: nth_append)

lemma v4_l4_shift: "v4_l4 (xs @ pl) (length xs) = v4_l4 pl 0"
  using nth_shift [of xs pl 0] nth_shift [of xs pl] parse_l4_shift [of xs pl]
  by (simp add: v4_l4_def Let_def)

lemma v6_l4_shift: "v6_l4 (xs @ pl) (length xs) = v6_l4 pl 0"
proof -
  obtain rc l p where w: "v6_walk_ext pl 40 (pl ! 6) = Some (rc, l, p)" using walk_ext_total by blast
  then show ?thesis
    using nth_shift [of xs pl 6] walk_ext_shift [of xs pl 40] parse_l4_shift [of xs pl l]
    by (simp add: v6_l4_def)
qed

subsection \<open>Transport headers\<close>

datatype l4 = Tcp u16 u16 bytes | Udp u16 u16 bytes | Icmp6 u8 bytes | Raw u8 bytes

fun enc_l4 :: "l4 \<Rightarrow> bytes" where
  "enc_l4 (Tcp sp dp r) = b16 sp @ b16 dp @ r"
| "enc_l4 (Udp sp dp r) = b16 sp @ b16 dp @ r"
| "enc_l4 (Icmp6 ty r) = ty # r"
| "enc_l4 (Raw p r) = r"

fun l4_proto :: "l4 \<Rightarrow> u8" where
  "l4_proto (Tcp sp dp r) = VG_IPPROTO_TCP"
| "l4_proto (Udp sp dp r) = VG_IPPROTO_UDP"
| "l4_proto (Icmp6 ty r) = VG_IPPROTO_ICMPV6"
| "l4_proto (Raw p r) = p"

fun l4_ok :: "l4 \<Rightarrow> bool" where
  "l4_ok (Tcp sp dp r) \<longleftrightarrow> 16 \<le> length r"
| "l4_ok (Udp sp dp r) \<longleftrightarrow> 4 \<le> length r"
| "l4_ok (Icmp6 ty r) \<longleftrightarrow> 3 \<le> length r"
| "l4_ok (Raw p r) \<longleftrightarrow> p \<noteq> VG_IPPROTO_TCP \<and> p \<noteq> VG_IPPROTO_UDP \<and> p \<noteq> VG_IPPROTO_ICMPV6"

fun l4_ports :: "l4 \<Rightarrow> u16 \<times> u16" where
  "l4_ports (Tcp sp dp r) = (sp, dp)"
| "l4_ports (Udp sp dp r) = (sp, dp)"
| "l4_ports _ = (0, 0)"

fun l4_type :: "l4 \<Rightarrow> u8" where
  "l4_type (Icmp6 ty r) = ty"
| "l4_type _ = 0"

lemma parse_l4_enc:
  assumes "l4_ok x" "length xs = i"
  shows "parse_l4 (xs @ enc_l4 x) i (l4_proto x) icmp =
    Some (0, fst (l4_ports x), snd (l4_ports x), if icmp then l4_type x else 0)"
proof -
  have "ld16 (xs @ b16 sp @ b16 dp @ r) i = Some sp" "ld16 (xs @ b16 sp @ b16 dp @ r) (i + 2) = Some dp" for sp dp r
    using ld16_at [of xs i sp "b16 dp @ r"] ld16_at [of "xs @ b16 sp" "i + 2" dp r] assms(2) by simp_all
  moreover have "ld8 (xs @ b # r) i = Some b" for b r using assms(2) by (rule ld8_at)
  ultimately show ?thesis using assms by (cases x) (auto simp: parse_l4_def)
qed


subsection \<open>Ports\<close>

definition ports_of :: "vg_cfg \<Rightarrow> u16 set" where
  "ports_of c = set (take (unat (bc_allow_port_count c)) (bc_allow_ports c))"

lemma port_loop_iff:
  "port_loop n i c p \<longleftrightarrow> (\<exists>j \<ge> i. j < i + n \<and> j < unat (bc_allow_port_count c) \<and> bc_allow_ports c ! j = p)"
proof (induction n arbitrary: i)
  case (Suc n)
  show ?case
  proof (cases "i < unat (bc_allow_port_count c) \<and> bc_allow_ports c ! i = p")
    case True
    then show ?thesis by (auto intro!: exI [of _ i])
  next
    case False
    then show ?thesis
      using Suc.IH [of "Suc i"] by (auto simp: not_le) (metis Suc_leD, metis Suc_leI le_neq_implies_less)
  qed
qed simp

lemma port_allowed_iff:
  assumes "length (bc_allow_ports c) = VG_MAX_ALLOW_PORTS"
  shows "port_allowed (Some c) p \<longleftrightarrow> p \<in> ports_of c"
  using assms
  by (auto simp: port_allowed_def port_loop_iff ports_of_def in_set_conv_nth simp del: port_loop.simps)

subsection \<open>IPv4\<close>

record ip4_hdr =
  i_tos :: u8
  i_len :: u16
  i_id :: u16
  i_frag :: u16
  i_ttl :: u8
  i_check :: u16
  i_src :: bytes
  i_dst :: bytes
  i_opts :: bytes

definition enc_ip4 :: "ip4_hdr \<Rightarrow> u8 \<Rightarrow> bytes \<Rightarrow> bytes" where
  "enc_ip4 h proto body =
     [0x40 OR of_nat (5 + length (i_opts h) div 4), i_tos h] @ b16 (i_len h) @ b16 (i_id h) @ b16 (i_frag h) @
     [i_ttl h, proto] @ b16 (i_check h) @ i_src h @ i_dst h @ i_opts h @ body"

definition ip4_ok :: "ip4_hdr \<Rightarrow> bool" where
  "ip4_ok h \<longleftrightarrow> length (i_src h) = 4 \<and> length (i_dst h) = 4 \<and> 4 dvd length (i_opts h) \<and>
     length (i_opts h) \<le> 40 \<and> i_frag h AND 0x1fff = 0"

lemma ihl_decode:
  assumes "n \<le> 10"
  shows "unat ((0x40 OR of_nat (5 + n)) AND 0x0f :: u8) = 5 + n"
proof -
  have "n \<in> set [0..<11]" using assms by simp
  then show ?thesis by (simp add: upt_rec) (elim disjE; simp)
qed

lemma ip4_fields:
  assumes "ip4_ok h"
  shows "enc_ip4 h proto body ! 0 = 0x40 OR of_nat (5 + length (i_opts h) div 4)"
    and "enc_ip4 h proto body ! 9 = proto"
    and "be16 (enc_ip4 h proto body ! 6) (enc_ip4 h proto body ! 7) = i_frag h"
    and "slice 12 4 (enc_ip4 h proto body) = i_src h" and "slice 16 4 (enc_ip4 h proto body) = i_dst h"
    and "length (enc_ip4 h proto body) = 20 + length (i_opts h) + length body"
  using assms be16_b16 [of "i_frag h"] by (simp_all add: enc_ip4_def ip4_ok_def b16_def slice_def)

lemma v4_l4_enc:
  assumes h: "ip4_ok h" and x: "l4_ok x"
  shows "v4_l4 (enc_ip4 h (l4_proto x) (enc_l4 x)) 0 = (False, l4_ports x)"
proof -
  let ?pl = "enc_ip4 h (l4_proto x) (enc_l4 x)"
  obtain k where k: "length (i_opts h) = 4 * k" "k \<le> 10" using h by (auto simp: ip4_ok_def elim!: dvdE)
  have ihl: "unat (?pl ! 0 AND 0x0f) = 5 + k" using ip4_fields(1) [OF h] ihl_decode [OF k(2)] k(1) by simp
  obtain hd where hd: "?pl = hd @ enc_l4 x" "length hd = 4 * (5 + k)"
    using h k(1) by (intro that [of "enc_ip4 h (l4_proto x) []"]) (simp_all add: enc_ip4_def ip4_ok_def)
  have "parse_l4 ?pl (push_bit 2 (5 + k)) (l4_proto x) False = Some (0, fst (l4_ports x), snd (l4_ports x), 0)"
    using parse_l4_enc [OF x hd(2), of False] hd(1) by (simp add: push_bit_eq_mult mult.commute)
  then show ?thesis
    using ip4_fields(2,3,6) [OF h, of "l4_proto x" "enc_l4 x"] ihl h k(1)
    by (simp add: v4_l4_def Let_def ip4_ok_def push_bit_eq_mult)
qed

text \<open>The exemptions of a packet that carries \<open>x\<close>, other than those of its addresses.\<close>

definition port_exempt4 :: "xdp_env \<Rightarrow> vg_cfg \<Rightarrow> bytes \<Rightarrow> bytes \<Rightarrow> l4 \<Rightarrow> bool" where
  "port_exempt4 env c src dst x =
     (case x of
        Tcp sp dp _ \<Rightarrow> dp \<in> ports_of c \<and> v4_in_lpm env Local_v4 dst \<or> sp \<in> ports_of c \<and> v4_in_lpm env Local_v4 src
      | Udp sp dp _ \<Rightarrow> (sp, dp) \<in> {(67, 68), (68, 67), (67, 67)} \<and>
          (dst = [255, 255, 255, 255] \<or> v4_in_lpm env Local_v4 dst)
      | _ \<Rightarrow> False)"

definition dropped4 :: "xdp_env \<Rightarrow> bytes \<Rightarrow> bytes \<Rightarrow> l4 \<Rightarrow> bool" where
  "dropped4 env src dst x \<longleftrightarrow>
     (\<exists>c. e_cfg env = Some c \<and> armed c \<noteq> 0 \<and> \<not> port_exempt4 env c src dst x) \<and>
     \<not> v4_in_lpm env Allow_v4 src \<and> \<not> v4_in_lpm env Allow_v4 dst \<and>
     (v4_in_lpm env Drop_v4 src \<or> v4_in_lpm env Drop_v4 dst)"

definition env_ok :: "xdp_env \<Rightarrow> bool" where
  "env_ok env \<longleftrightarrow> (\<forall>c. e_cfg env = Some c \<longrightarrow> armed c \<noteq> 0 \<longrightarrow> length (bc_allow_ports c) = VG_MAX_ALLOW_PORTS)"

lemma v4_exempt_enc:
  assumes "length (bc_allow_ports c) = VG_MAX_ALLOW_PORTS" "l4_ok x"
  shows "v4_exempt env c src dst (l4_proto x) (fst (l4_ports x)) (snd (l4_ports x)) \<longleftrightarrow>
    v4_in_lpm env Allow_v4 src \<or> v4_in_lpm env Allow_v4 dst \<or> port_exempt4 env c src dst x"
  using assms port_allowed_iff [OF assms(1)]
  by (cases x) (auto simp: v4_exempt_def port_exempt4_def v4_tcp_allowed_def v4_dhcp_allowed_def
      simp del: VG_MAX_ALLOW_PORTS_def)

lemma v4_count_passes: "fst (v4_count env src dst nb s) = XDP_PASS"
  by (simp add: v4_count_def pass_def Let_def)

lemma v6_count_passes: "fst (v6_count env src dst nb s) = XDP_PASS"
  by (simp add: v6_count_def pass_def Let_def)

lemma slice_shift: "slice (length xs + i) n (xs @ pl) = slice i n pl"
  by (simp add: slice_def)

lemma v4_verdict:
  assumes "eth_ok macs tags" and "ip4_ok h" and "l4_ok x" and "env_ok env"
  shows "\<exists>s'. voidgate_xdp env (eth_frame macs tags VG_ETH_P_IP (enc_ip4 h (l4_proto x) (enc_l4 x))) s =
    Some (if dropped4 env (i_src h) (i_dst h) x then XDP_DROP else XDP_PASS, s')"
proof -
  let ?pl = "enc_ip4 h (l4_proto x) (enc_l4 x)"
  let ?pre = "macs @ enc_tags tags VG_ETH_P_IP"
  let ?pkt = "eth_frame macs tags VG_ETH_P_IP ?pl"
  have pkt: "?pkt = ?pre @ ?pl" by (simp add: eth_frame_def)
  have nh: "14 + 4 * length tags = length ?pre" using assms(1) by (simp add: eth_ok_def length_enc_tags)
  note f = frame_l3 [OF assms(1), where et = VG_ETH_P_IP and pl = ?pl] and i = ip4_fields [OF assms(2), of "l4_proto x" "enc_l4 x"]
  have l3: "l3_of ?pkt = L3_v4 (length ?pre)"
    using f i(6) nh by (simp add: l3_of_def vlan_type_def del: VG_MAX_VLANS_def)
  have v: "fst (v4_decide env c ?pkt (length ?pre) t) = XDP_DROP \<longleftrightarrow>
      (v4_in_lpm env Drop_v4 (i_src h) \<or> v4_in_lpm env Drop_v4 (i_dst h)) \<and>
      \<not> v4_exempt env c (i_src h) (i_dst h) (l4_proto x) (fst (l4_ports x)) (snd (l4_ports x))" for c t
    using v4_l4_shift [of ?pre ?pl] v4_l4_enc [OF assms(2,3)] slice_shift [of ?pre 12 4 ?pl]
      slice_shift [of ?pre 16 4 ?pl] nth_shift [of ?pre ?pl 9] i(2,4,5) v4_count_passes
    unfolding pkt by (simp add: v4_decide_def Let_def case_prod_unfold)
  have "fst (xdp_spec env ?pkt s) = XDP_DROP \<longleftrightarrow> dropped4 env (i_src h) (i_dst h) x"
  proof (cases "armed_env env")
    case None
    then show ?thesis by (auto simp: xdp_spec_def pass_def dropped4_def armed_env_def split: option.splits if_splits)
  next
    case (Some c)
    then have "e_cfg env = Some c" "armed c \<noteq> 0" by (auto simp: armed_env_def split: option.splits if_splits)
    then show ?thesis
      using v l3 Some v4_exempt_enc [OF _ assms(3), of c env "i_src h" "i_dst h"] assms(4)
      by (auto simp: xdp_spec_def Let_def dropped4_def env_ok_def)
  qed
  then show ?thesis by (cases "xdp_spec env ?pkt s") (auto simp: xdp_eq intro: xdp_action.exhaust)
qed

text \<open>
  C7: On every well-formed IPv4 frame with at most two VLAN tags, any IP options and a complete
  transport header, unfragmented or a first fragment, the verdict is XDP_DROP exactly when the data plane is armed, one of the two addresses is in the drop map, none is
  in the allow map, and the packet is neither TCP between a configured port and this host on that
  side, nor DHCP to this host.
\<close>

theorem v4_frame_verdict:
  assumes "eth_ok macs tags" and "ip4_ok h" and "l4_ok x" and "env_ok env"
  shows "\<exists>s'. voidgate_xdp env (eth_frame macs tags VG_ETH_P_IP (enc_ip4 h (l4_proto x) (enc_l4 x))) s =
    Some (if dropped4 env (i_src h) (i_dst h) x then XDP_DROP else XDP_PASS, s')"
  by (rule v4_verdict [OF assms])


text \<open>
  An armed data plane of the host 198.51.100.7 with SSH allowed, in which the source 203.0.113.9 is
  dropped, and a frame from that source to a web and to the SSH port behind one VLAN tag.
\<close>

definition ex_cfg :: vg_cfg where
  "ex_cfg = \<lparr>armed = 1, bc_allow_ports = [22, 0, 0, 0, 0, 0, 0, 0], bc_allow_port_count = 1\<rparr>"

definition ex_env :: xdp_env where
  "ex_env =
     \<lparr>e_lpm = (\<lambda>m k. m = Drop_v4 \<and> kdata k = [203, 0, 113, 9] \<or> m = Local_v4 \<and> kdata k = [198, 51, 100, 7] \<or>
        m = Drop_v6 \<and> kdata k = 0x20 # 0x01 # replicate 14 0 \<or> m = Local_v6 \<and> kdata k = 0x20 # 0x02 # replicate 14 0),
      e_cfg = Some ex_cfg,
      e_insert = (\<lambda>cm k M. M(k \<mapsto> \<lparr>in_pkts = 0, in_bytes = 0\<rparr>))\<rparr>"

definition ex_ip4 :: ip4_hdr where
  "ex_ip4 = \<lparr>i_tos = 0, i_len = 44, i_id = 7, i_frag = 0x4000, i_ttl = 64, i_check = 0,
     i_src = [203, 0, 113, 9], i_dst = [198, 51, 100, 7], i_opts = [1, 1, 1, 0]\<rparr>"

definition ex_frame :: "u16 \<Rightarrow> bytes" where
  "ex_frame port = eth_frame (replicate 12 2) [(VG_ETH_P_8021Q, 5)] VG_ETH_P_IP
     (enc_ip4 ex_ip4 VG_IPPROTO_TCP (enc_l4 (Tcp 40000 port (replicate 16 0))))"

definition ex_state :: xdp_state where
  "ex_state = \<lparr>x_metrics = Some \<lparr>rx_pkts = 10, rx_bytes = 1000, passed = 8, dropped = 2, non_ip = 0,
     map_full = 0, parse_err = 0\<rparr>, x_cnt = (\<lambda>_ _. None)\<rparr>"

lemma ex_eth: "eth_ok (replicate 12 2) [(VG_ETH_P_8021Q, 5)]"
  by (simp add: eth_ok_def vlan_type_def)

lemma ex_ip4_ok: "ip4_ok ex_ip4"
  by (simp add: ip4_ok_def ex_ip4_def) presburger

lemma ex_env_ok: "env_ok ex_env"
  by (simp add: env_ok_def ex_env_def ex_cfg_def)

theorem v4_frame_verdict_witness:
  "(\<exists>s'. voidgate_xdp ex_env (ex_frame 80) ex_state = Some (XDP_DROP, s')) \<and>
   (\<exists>s'. voidgate_xdp ex_env (ex_frame 22) ex_state = Some (XDP_PASS, s'))"
proof -
  have "dropped4 ex_env (i_src ex_ip4) (i_dst ex_ip4) (Tcp 40000 80 (replicate 16 0))"
    "\<not> dropped4 ex_env (i_src ex_ip4) (i_dst ex_ip4) (Tcp 40000 22 (replicate 16 0))"
    by (simp_all add: dropped4_def port_exempt4_def ports_of_def ex_env_def ex_cfg_def ex_ip4_def v4_in_lpm_def)
  then show ?thesis
    using v4_frame_verdict [OF ex_eth ex_ip4_ok _ ex_env_ok, of "Tcp 40000 80 (replicate 16 0)" ex_state]
      v4_frame_verdict [OF ex_eth ex_ip4_ok _ ex_env_ok, of "Tcp 40000 22 (replicate 16 0)" ex_state]
    by (simp add: ex_frame_def)
qed

subsection \<open>IPv6\<close>

datatype ext = Opt u8 u8 bytes | Frag u8 u16 bytes

fun ext_kind :: "ext \<Rightarrow> u8" where
  "ext_kind (Opt k l d) = k"
| "ext_kind (Frag r off d) = VG_IPPROTO_FRAGMENT"

definition first_kind :: "ext list \<Rightarrow> u8 \<Rightarrow> u8" where
  "first_kind es proto = (case es of [] \<Rightarrow> proto | e # _ \<Rightarrow> ext_kind e)"

fun enc_ext :: "u8 \<Rightarrow> ext \<Rightarrow> bytes" where
  "enc_ext nx (Opt k l d) = [nx, l] @ d"
| "enc_ext nx (Frag r off d) = [nx, r] @ b16 off @ d"

fun enc_exts :: "ext list \<Rightarrow> u8 \<Rightarrow> bytes" where
  "enc_exts [] proto = []"
| "enc_exts (e # es) proto = enc_ext (first_kind es proto) e @ enc_exts es proto"

text \<open>
  A hop-by-hop, routing or destination header counts its length in 8 bytes beyond the first 8, an
  authentication header in 4 bytes beyond the first 8; a fragment header is that of a first fragment.
\<close>

fun ext_ok :: "ext \<Rightarrow> bool" where
  "ext_ok (Opt k l d) \<longleftrightarrow>
     k \<in> {VG_IPPROTO_HOPOPTS, VG_IPPROTO_ROUTING, VG_IPPROTO_DSTOPTS} \<and> length d + 2 = (unat l + 1) * 8 \<or>
     k = VG_IPPROTO_AH \<and> length d + 2 = (unat l + 2) * 4"
| "ext_ok (Frag r off d) \<longleftrightarrow> off AND 0xfff8 = 0 \<and> length d = 4"

definition ext_proto :: "u8 \<Rightarrow> bool" where
  "ext_proto p \<longleftrightarrow> p \<in> {VG_IPPROTO_FRAGMENT, VG_IPPROTO_HOPOPTS, VG_IPPROTO_ROUTING, VG_IPPROTO_DSTOPTS, VG_IPPROTO_AH}"

lemma ext_loop_one:
  assumes "ext_ok e" "length xs = i"
  shows "ext_loop (Suc n) (xs @ enc_ext nx e @ ys) i (ext_kind e) =
    ext_loop n (xs @ enc_ext nx e @ ys) (i + length (enc_ext nx e)) nx"
proof (cases e)
  case (Opt k l d)
  have "ld8 (xs @ nx # l # d @ ys) i = Some nx" "ld8 (xs @ nx # l # d @ ys) (Suc i) = Some l"
    using assms(2) ld8_at [of xs i nx] ld8_at [of "xs @ [nx]" "Suc i" l] by simp_all
  moreover have "(if k = VG_IPPROTO_AH then (unat l + 2) * 4 else (unat l + 1) * 8) = length d + 2"
    using assms(1) Opt by auto
  moreover have "k \<noteq> VG_IPPROTO_FRAGMENT"
    "\<not> (k \<noteq> VG_IPPROTO_HOPOPTS \<and> k \<noteq> VG_IPPROTO_ROUTING \<and> k \<noteq> VG_IPPROTO_DSTOPTS \<and> k \<noteq> VG_IPPROTO_AH)"
    using assms(1) Opt by auto
  moreover have "length (xs @ nx # l # d @ ys) = i + (length d + 2) + length ys" using assms(2) by simp
  ultimately show ?thesis unfolding Opt by (simp only: ext_loop.simps) (simp, blast)
next
  case (Frag r off d)
  have "ld8 (xs @ nx # r # b16 off @ d @ ys) i = Some nx"
    "ld16 (xs @ nx # r # b16 off @ d @ ys) (i + 2) = Some off"
    using assms(2) ld8_at [of xs i nx] ld16_at [of "xs @ [nx, r]" "i + 2" off] by simp_all
  then show ?thesis using assms Frag by simp
qed

lemma ext_loop_enc:
  assumes "length es \<le> n" "\<forall>e \<in> set es. ext_ok e" "\<not> ext_proto p" "length xs = i"
  shows "ext_loop n (xs @ enc_exts es p @ ys) i (first_kind es p) = Some (1, i + length (enc_exts es p), p)"
  using assms
proof (induction es arbitrary: n xs i)
  case Nil
  then show ?case by (cases n) (auto simp: first_kind_def ext_proto_def)
next
  case (Cons e es)
  obtain m where n: "n = Suc m" using Cons.prems(1) by (cases n) auto
  let ?nx = "first_kind es p"
  have "ext_loop m ((xs @ enc_ext ?nx e) @ enc_exts es p @ ys) (i + length (enc_ext ?nx e)) ?nx =
      Some (1, i + length (enc_ext ?nx e) + length (enc_exts es p), p)"
    using Cons.prems n by (intro Cons.IH) auto
  then show ?case
    using ext_loop_one [of e xs i m ?nx "enc_exts es p @ ys"] Cons.prems n
    by (simp add: first_kind_def add.assoc del: ext_loop.simps)
qed


record ip6_hdr =
  j_ver :: u8
  j_flow :: bytes
  j_len :: u16
  j_hop :: u8
  j_src :: bytes
  j_dst :: bytes

definition enc_ip6 :: "ip6_hdr \<Rightarrow> u8 \<Rightarrow> bytes \<Rightarrow> bytes" where
  "enc_ip6 h nx body =
     [j_ver h] @ j_flow h @ b16 (j_len h) @ [nx, j_hop h] @ j_src h @ j_dst h @ body"

definition ip6_ok :: "ip6_hdr \<Rightarrow> bool" where
  "ip6_ok h \<longleftrightarrow> length (j_flow h) = 3 \<and> length (j_src h) = 16 \<and> length (j_dst h) = 16"

text \<open>A packet of at most \<open>VG_MAX_IPV6_EXT\<close> extension headers before the transport header.\<close>

definition enc_v6 :: "ip6_hdr \<Rightarrow> ext list \<Rightarrow> l4 \<Rightarrow> bytes" where
  "enc_v6 h es x = enc_ip6 h (first_kind es (l4_proto x)) (enc_exts es (l4_proto x) @ enc_l4 x)"

definition v6_ok :: "ip6_hdr \<Rightarrow> ext list \<Rightarrow> l4 \<Rightarrow> bool" where
  "v6_ok h es x \<longleftrightarrow> ip6_ok h \<and> length es \<le> VG_MAX_IPV6_EXT \<and> (\<forall>e \<in> set es. ext_ok e) \<and>
     l4_ok x \<and> \<not> ext_proto (l4_proto x)"

lemma ip6_fields:
  assumes "ip6_ok h"
  shows "enc_ip6 h nx body ! 6 = nx" and "enc_ip6 h nx body ! 7 = j_hop h"
    and "slice 8 16 (enc_ip6 h nx body) = j_src h" and "slice 24 16 (enc_ip6 h nx body) = j_dst h"
    and "length (enc_ip6 h nx body) = 40 + length body"
    and "enc_ip6 h nx body = enc_ip6 h nx [] @ body"
  using assms by (auto simp: enc_ip6_def ip6_ok_def b16_def slice_def nth_append)

lemma v6_l4_enc:
  assumes "v6_ok h es x"
  shows "v6_l4 (enc_v6 h es x) 0 = (False, l4_proto x, fst (l4_ports x), snd (l4_ports x), l4_type x)"
proof -
  let ?nx = "first_kind es (l4_proto x)" and ?exts = "enc_exts es (l4_proto x)"
  have ok: "ip6_ok h" "length es \<le> VG_MAX_IPV6_EXT" "\<forall>e \<in> set es. ext_ok e" "l4_ok x" "\<not> ext_proto (l4_proto x)"
    using assms by (simp_all add: v6_ok_def)
  have hd: "enc_v6 h es x = enc_ip6 h ?nx [] @ ?exts @ enc_l4 x" "length (enc_ip6 h ?nx []) = 40"
    using ip6_fields(6) [OF ok(1), of ?nx "?exts @ enc_l4 x"] ip6_fields(5) [OF ok(1), of ?nx "[]"]
    by (simp_all add: enc_v6_def)
  have "v6_walk_ext (enc_v6 h es x) 40 ?nx = Some (1, 40 + length ?exts, l4_proto x)"
    unfolding hd(1) v6_walk_ext_def using ext_loop_enc [OF ok(2,3,5) hd(2)] by simp
  moreover have "parse_l4 (enc_v6 h es x) (40 + length ?exts) (l4_proto x) True =
      Some (0, fst (l4_ports x), snd (l4_ports x), l4_type x)"
    using parse_l4_enc [OF ok(4), of "enc_ip6 h ?nx [] @ ?exts" "40 + length ?exts" True] hd by simp
  moreover have "enc_v6 h es x ! 6 = ?nx" using ip6_fields(1) [OF ok(1)] by (simp add: enc_v6_def)
  ultimately show ?thesis by (simp add: v6_l4_def)
qed

definition port_exempt6 :: "xdp_env \<Rightarrow> vg_cfg \<Rightarrow> ip6_hdr \<Rightarrow> l4 \<Rightarrow> bool" where
  "port_exempt6 env c h x =
     (case x of
        Tcp sp dp _ \<Rightarrow> dp \<in> ports_of c \<and> v6_in_lpm env Local_v6 (j_dst h) \<or>
          sp \<in> ports_of c \<and> v6_in_lpm env Local_v6 (j_src h)
      | Udp sp dp _ \<Rightarrow> (sp, dp) \<in> {(547, 546), (546, 547), (547, 547)} \<and> v6_in_lpm env Local_v6 (j_dst h)
      | Icmp6 ty _ \<Rightarrow> j_hop h = 255 \<and> ty \<in> {133, 134, 135, 136, 137}
      | Raw _ _ \<Rightarrow> False)"

text \<open>The addresses of link scope are those of \<open>fe80::/10\<close> and, multicast, of \<open>ff02::/16\<close>.\<close>

definition link_scope :: "bytes \<Rightarrow> bool" where
  "link_scope a \<longleftrightarrow> agree 10 [0xfe, 0x80] a \<or> agree 16 [0xff, 0x02] a"

lemma top_two_bits: "(x :: u8) AND 0xc0 = 0x80 \<longleftrightarrow> bit x 7 \<and> \<not> bit x 6"
proof
  assume h: "x AND 0xc0 = 0x80"
  have "bit (x AND 0xc0) 7" "\<not> bit (x AND 0xc0) 6" unfolding h by simp_all
  then show "bit x 7 \<and> \<not> bit x 6" by (simp add: bit_and_iff)
next
  assume h: "bit x 7 \<and> \<not> bit x 6"
  have "bit (0xc0 :: u8) n \<longleftrightarrow> n = 6 \<or> n = 7" "bit (0x80 :: u8) n \<longleftrightarrow> n = 7" if "n < 8" for n
    using that by (auto simp: less_Suc_eq numeral_nat)
  then show "x AND 0xc0 = 0x80" using h by (intro bit_word_eqI) (auto simp: bit_and_iff)
qed

lemma link_scope_iff: "link_scope a \<longleftrightarrow> v6_is_linklocal a \<or> v6_is_mcast_link a"
proof -
  have b: "bit_at l 8 = bit (l ! 1) 7" "bit_at l 9 = bit (l ! 1) 6" for l by (simp_all add: bit_at_def)
  have "agree (8 * 1 + 2) [0xfe, 0x80] a \<longleftrightarrow> v6_is_linklocal a"
    unfolding agree_split agree_bytes v6_is_linklocal_def top_two_bits
    by (auto simp: less_Suc_eq numeral_2_eq_2 b)
  moreover have "agree (8 * 2) [0xff, 0x02] a \<longleftrightarrow> v6_is_mcast_link a"
    unfolding agree_bytes v6_is_mcast_link_def by (auto simp: less_Suc_eq numeral_2_eq_2)
  ultimately show ?thesis by (simp add: link_scope_def)
qed

definition dropped6 :: "xdp_env \<Rightarrow> ip6_hdr \<Rightarrow> l4 \<Rightarrow> bool" where
  "dropped6 env h x \<longleftrightarrow>
     (\<exists>c. e_cfg env = Some c \<and> armed c \<noteq> 0 \<and> \<not> port_exempt6 env c h x) \<and>
     (\<forall>a \<in> {j_src h, j_dst h}. \<not> link_scope a \<and> \<not> v6_in_lpm env Allow_v6 a) \<and>
     (v6_in_lpm env Drop_v6 (j_src h) \<or> v6_in_lpm env Drop_v6 (j_dst h))"

lemma ndisc_range: "(133 :: u8) \<le> ty \<and> ty \<le> 137 \<longleftrightarrow> ty \<in> {133, 134, 135, 136, 137}"
proof -
  have "133 \<le> unat ty \<and> unat ty \<le> 137 \<longleftrightarrow> unat ty \<in> {133, 134, 135, 136, 137}" by auto
  then show ?thesis by (simp add: word_le_nat_alt word_unat_eq_iff)
qed

lemma v6_exempt_enc:
  assumes "length (bc_allow_ports c) = VG_MAX_ALLOW_PORTS" "l4_ok x"
  shows "v6_exempt env c (j_src h) (j_dst h) (j_hop h) (l4_proto x) (fst (l4_ports x)) (snd (l4_ports x)) (l4_type x) \<longleftrightarrow>
    (\<exists>a \<in> {j_src h, j_dst h}. link_scope a \<or> v6_in_lpm env Allow_v6 a) \<or> port_exempt6 env c h x"
  using assms port_allowed_iff [OF assms(1)]
  by (cases x) (auto simp: v6_exempt_def port_exempt6_def link_scope_iff v6_tcp_allowed_def v6_dhcp_allowed_def
      ndisc_range simp del: VG_MAX_ALLOW_PORTS_def)

lemma v6_verdict:
  assumes "eth_ok macs tags" and "v6_ok h es x" and "env_ok env"
  shows "\<exists>s'. voidgate_xdp env (eth_frame macs tags VG_ETH_P_IPV6 (enc_v6 h es x)) s =
    Some (if dropped6 env h x then XDP_DROP else XDP_PASS, s')"
proof -
  let ?pl = "enc_v6 h es x"
  let ?pre = "macs @ enc_tags tags VG_ETH_P_IPV6"
  let ?pkt = "eth_frame macs tags VG_ETH_P_IPV6 ?pl"
  have ok: "ip6_ok h" "l4_ok x" using assms(2) by (simp_all add: v6_ok_def)
  have pkt: "?pkt = ?pre @ ?pl" by (simp add: eth_frame_def)
  have nh: "14 + 4 * length tags = length ?pre" using assms(1) by (simp add: eth_ok_def length_enc_tags)
  note f = frame_l3 [OF assms(1), where et = VG_ETH_P_IPV6 and pl = ?pl]
    and i = ip6_fields [OF ok(1), of "first_kind es (l4_proto x)" "enc_exts es (l4_proto x) @ enc_l4 x",
      folded enc_v6_def]
  have l3: "l3_of ?pkt = L3_v6 (length ?pre)"
    using f i(5) nh by (simp add: l3_of_def vlan_type_def del: VG_MAX_VLANS_def)
  have v: "fst (v6_decide env c ?pkt (length ?pre) t) = XDP_DROP \<longleftrightarrow>
      (v6_in_lpm env Drop_v6 (j_src h) \<or> v6_in_lpm env Drop_v6 (j_dst h)) \<and>
      \<not> v6_exempt env c (j_src h) (j_dst h) (j_hop h) (l4_proto x) (fst (l4_ports x)) (snd (l4_ports x)) (l4_type x)" for c t
    using v6_l4_shift [of ?pre ?pl] v6_l4_enc [OF assms(2)] slice_shift [of ?pre 8 16 ?pl]
      slice_shift [of ?pre 24 16 ?pl] nth_shift [of ?pre ?pl 7] i(2-4) v6_count_passes
    unfolding pkt by (simp add: v6_decide_def Let_def case_prod_unfold)
  have "fst (xdp_spec env ?pkt s) = XDP_DROP \<longleftrightarrow> dropped6 env h x"
  proof (cases "armed_env env")
    case None
    then show ?thesis by (auto simp: xdp_spec_def pass_def dropped6_def armed_env_def split: option.splits if_splits)
  next
    case (Some c)
    then have "e_cfg env = Some c" "armed c \<noteq> 0" by (auto simp: armed_env_def split: option.splits if_splits)
    then show ?thesis
      using v l3 Some v6_exempt_enc [OF _ ok(2), of c env h] assms(3)
      by (auto simp: xdp_spec_def Let_def dropped6_def env_ok_def)
  qed
  then show ?thesis by (cases "xdp_spec env ?pkt s") (auto simp: xdp_eq intro: xdp_action.exhaust)
qed

text \<open>
  C8: On every well-formed IPv6 frame with at most two VLAN tags, at most eight extension headers (a
  fragment header among them only that of a first fragment) and a complete transport header, the verdict is XDP_DROP exactly when the data plane is armed, one of the two addresses is in the drop
  map, none is in the allow map or of link scope, and the packet is neither a neighbour discovery
  message with hop limit 255, nor TCP between a configured port and this host on that side, nor
  DHCPv6 to this host.
\<close>

theorem v6_frame_verdict:
  assumes "eth_ok macs tags" and "v6_ok h es x" and "env_ok env"
  shows "\<exists>s'. voidgate_xdp env (eth_frame macs tags VG_ETH_P_IPV6 (enc_v6 h es x)) s =
    Some (if dropped6 env h x then XDP_DROP else XDP_PASS, s')"
  by (rule v6_verdict [OF assms])

text \<open>A flood from 2001:: behind a hop-by-hop and a fragment header, and the same source's NDP.\<close>

definition ex_ip6 :: ip6_hdr where
  "ex_ip6 = \<lparr>j_ver = 0x60, j_flow = [0, 0, 0], j_len = 36, j_hop = 255,
     j_src = 0x20 # 0x01 # replicate 14 0, j_dst = 0x20 # 0x02 # replicate 14 0\<rparr>"

definition ex_exts :: "ext list" where
  "ex_exts = [Opt VG_IPPROTO_HOPOPTS 0 [1, 4, 0, 0, 0, 0], Frag 0 1 [0, 0, 0, 9]]"

definition ex_frame6 :: "l4 \<Rightarrow> bytes" where
  "ex_frame6 x = eth_frame (replicate 12 2) [] VG_ETH_P_IPV6 (enc_v6 ex_ip6 ex_exts x)"

theorem v6_frame_verdict_witness:
  "(\<exists>s'. voidgate_xdp ex_env (ex_frame6 (Tcp 40000 80 (replicate 16 0))) ex_state = Some (XDP_DROP, s')) \<and>
   (\<exists>s'. voidgate_xdp ex_env (ex_frame6 (Icmp6 135 [0, 0, 0])) ex_state = Some (XDP_PASS, s'))"
proof -
  have "v6_ok ex_ip6 ex_exts (Tcp 40000 80 (replicate 16 0))" "v6_ok ex_ip6 ex_exts (Icmp6 135 [0, 0, 0])"
    by (simp_all add: v6_ok_def ip6_ok_def ex_ip6_def ex_exts_def ext_proto_def)
  moreover have "dropped6 ex_env ex_ip6 (Tcp 40000 80 (replicate 16 0))"
    "\<not> dropped6 ex_env ex_ip6 (Icmp6 135 [0, 0, 0])"
    by (simp_all add: dropped6_def port_exempt6_def ports_of_def ex_env_def ex_cfg_def ex_ip6_def v6_in_lpm_def
        link_scope_iff v6_is_linklocal_def v6_is_mcast_link_def)
  moreover have "eth_ok (replicate 12 2) []" by (simp add: eth_ok_def)
  ultimately show ?thesis
    using v6_frame_verdict [OF _ _ ex_env_ok, of "replicate 12 2" "[]" ex_ip6 ex_exts "Tcp 40000 80 (replicate 16 0)" ex_state]
      v6_frame_verdict [OF _ _ ex_env_ok, of "replicate 12 2" "[]" ex_ip6 ex_exts "Icmp6 135 [0, 0, 0]" ex_state]
    by (simp add: ex_frame6_def)
qed

end
