(* ===== verification/XdpFragment.thy ===== *)
theory XdpFragment
  imports XdpFrame
begin

unbundle bit_operations_syntax

section \<open>Verdicts on packets whose transport header is not seen\<close>

text \<open>
  Later fragments, and IPv6 packets with more extension headers than the program walks: no port and
  no ICMPv6 type is known of them. The verdict is that of a packet without ports, so a source cannot
  reach an exemption by hiding its transport header.
\<close>

text \<open>The configuration accepts the ports from 1 to 65535 only.\<close>

definition no_port_0 :: "xdp_env \<Rightarrow> bool" where
  "no_port_0 env \<longleftrightarrow> (case e_cfg env of None \<Rightarrow> True | Some c \<Rightarrow> 0 \<notin> ports_of c)"

text \<open>The header of an IPv4 fragment other than the first.\<close>

definition ip4_later :: "ip4_hdr \<Rightarrow> bool" where
  "ip4_later h \<longleftrightarrow> ip4_ok (h\<lparr>i_frag := 0\<rparr>) \<and> i_frag h AND 0x1fff \<noteq> 0"

text \<open>
  A chain in which, after fewer than \<open>n\<close> headers, a fragment header has a nonzero offset, or which goes
  on after \<open>n\<close> headers.
\<close>

fun hidden :: "nat \<Rightarrow> ext list \<Rightarrow> bool" where
  "hidden n [] \<longleftrightarrow> False"
| "hidden 0 (e # es) \<longleftrightarrow> ext_proto (ext_kind e)"
| "hidden (Suc n) (e # es) \<longleftrightarrow>
     (case e of
        Opt k l d \<Rightarrow> ext_ok e \<and> hidden n es
      | Frag r off d \<Rightarrow> length d = 4 \<and> (off AND 0xfff8 \<noteq> 0 \<or> hidden n es))"

lemma ext_loop_hidden:
  assumes "hidden n es" "length xs = i"
  shows "\<exists>rc l q. ext_loop n (xs @ enc_exts es p @ ys) i (first_kind es p) = Some (rc, l, q) \<and>
    (rc = 0 \<or> rc = 1 \<and> ext_proto q)"
  using assms
proof (induction es arbitrary: n xs i)
  case (Cons e es)
  let ?nx = "first_kind es p" and ?pkt = "xs @ enc_exts (e # es) p @ ys"
  note len = Cons.prems(2)
  show ?case
  proof (cases n)
    case 0
    then show ?thesis using Cons.prems(1) by (simp add: first_kind_def)
  next
    case (Suc m)
    show ?thesis
    proof (cases "\<exists>r off d. e = Frag r off d \<and> off AND 0xfff8 \<noteq> 0")
      case True
      then obtain r off d where e: "e = Frag r off d" "off AND 0xfff8 \<noteq> 0" by blast
      have pkt: "?pkt = xs @ ?nx # r # b16 off @ d @ enc_exts es p @ ys" by (simp add: e)
      have "ld8 ?pkt i = Some ?nx" "ld16 ?pkt (i + 2) = Some off"
        unfolding pkt using len ld8_at [of xs i ?nx] ld16_at [of "xs @ [?nx, r]" "i + 2" off] by simp_all
      moreover have "\<not> length ?pkt < i + 8" using Cons.prems(1) len e Suc by simp
      ultimately show ?thesis using e Suc by (simp add: first_kind_def del: enc_exts.simps)
    next
      case False
      then have ok: "ext_ok e" "hidden m es" using Cons.prems(1) Suc by (auto split: ext.splits)
      have "length (xs @ enc_ext ?nx e) = i + length (enc_ext ?nx e)" using len by simp
      note IH = Cons.IH [OF ok(2) this]
      show ?thesis
        using IH ext_loop_one [OF ok(1) len, of m ?nx "enc_exts es p @ ys"] Suc
        by (simp add: first_kind_def del: ext_loop.simps)
    qed
  qed
qed simp

lemma v6_l4_hidden:
  assumes "ip6_ok h" "hidden VG_MAX_IPV6_EXT es"
  shows "\<exists>q. v6_l4 (enc_ip6 h (first_kind es p) (enc_exts es p @ body)) 0 = (False, q, 0, 0, 0)"
proof -
  let ?nx = "first_kind es p" and ?pl = "enc_ip6 h (first_kind es p) (enc_exts es p @ body)"
  have hd: "?pl = enc_ip6 h ?nx [] @ enc_exts es p @ body" "length (enc_ip6 h ?nx []) = 40"
    using ip6_fields(6) [OF assms(1), of ?nx "enc_exts es p @ body"] ip6_fields(5) [OF assms(1), of ?nx "[]"] by simp_all
  obtain rc l q where w: "ext_loop VG_MAX_IPV6_EXT ?pl 40 ?nx = Some (rc, l, q)" "rc = 0 \<or> rc = 1 \<and> ext_proto q"
    unfolding hd(1) using ext_loop_hidden [OF assms(2) hd(2), of p body] by blast
  have "v6_walk_ext ?pl 40 ?nx = Some (rc, l, q)" using w by (auto simp: v6_walk_ext_def simp del: VG_MAX_IPV6_EXT_def)
  moreover have "rc = 1 \<Longrightarrow> parse_l4 ?pl l q True = Some (0, 0, 0, 0)" using w(2) by (auto simp: parse_l4_def ext_proto_def)
  ultimately show ?thesis using w(2) ip6_fields(1) [OF assms(1)] by (auto simp: v6_l4_def)
qed

lemma v4_l4_later:
  assumes "ip4_later h"
  shows "snd (v4_l4 (enc_ip4 h p body) 0) = (0, 0)"
proof -
  have "be16 (enc_ip4 h p body ! 6) (enc_ip4 h p body ! 7) = i_frag h"
    using assms be16_b16 [of "i_frag h"] by (simp add: enc_ip4_def b16_def)
  then show ?thesis using assms by (simp add: v4_l4_def Let_def ip4_later_def)
qed

lemma later_fields:
  assumes "ip4_later h"
  shows "enc_ip4 h p body ! 9 = p" and "slice 12 4 (enc_ip4 h p body) = i_src h" and "slice 16 4 (enc_ip4 h p body) = i_dst h"
    and "20 \<le> length (enc_ip4 h p body)"
  using assms by (simp_all add: enc_ip4_def ip4_later_def ip4_ok_def b16_def slice_def)

text \<open>Without ports the exemptions are those of the addresses.\<close>

lemma port_0:
  assumes "no_port_0 env" "e_cfg env = Some c" "length (bc_allow_ports c) = VG_MAX_ALLOW_PORTS"
  shows "\<not> port_allowed (Some c) 0"
  using assms port_allowed_iff [OF assms(3), of 0] by (simp add: no_port_0_def)

lemma blind_exempt:
  assumes "\<not> port_allowed (Some c) 0"
  shows "v4_exempt env c src dst q 0 0 \<longleftrightarrow> v4_in_lpm env Allow_v4 src \<or> v4_in_lpm env Allow_v4 dst"
    and "v6_exempt env c a b hop q 0 0 0 \<longleftrightarrow> link_scope a \<or> link_scope b \<or> v6_in_lpm env Allow_v6 a \<or> v6_in_lpm env Allow_v6 b"
  using assms
  by (auto simp: v4_exempt_def v6_exempt_def v4_tcp_allowed_def v6_tcp_allowed_def v4_dhcp_allowed_def v6_dhcp_allowed_def link_scope_iff)

lemma armed_cases:
  assumes "env_ok env" "no_port_0 env" "armed_env env = Some c"
  shows "e_cfg env = Some c" "armed c \<noteq> 0" "\<not> port_allowed (Some c) 0"
proof -
  show c: "e_cfg env = Some c" "armed c \<noteq> 0" using assms(3) by (auto simp: armed_env_def split: option.splits if_splits)
  then show "\<not> port_allowed (Some c) 0" using port_0 [OF assms(2) c(1)] assms(1) by (simp add: env_ok_def)
qed

lemma verdict_of:
  assumes "fst (xdp_spec env pkt s) = XDP_DROP \<longleftrightarrow> Q"
  shows "\<exists>s'. voidgate_xdp env pkt s = Some (if Q then XDP_DROP else XDP_PASS, s')"
  using assms by (cases "xdp_spec env pkt s") (auto simp: xdp_eq intro: xdp_action.exhaust)

lemma v4_later_verdict:
  assumes "eth_ok macs tags" "env_ok env" "no_port_0 env" "ip4_later h"
  shows "\<exists>s'. voidgate_xdp env (eth_frame macs tags VG_ETH_P_IP (enc_ip4 h p body)) s =
    Some (if dropped4 env (i_src h) (i_dst h) (Raw p body) then XDP_DROP else XDP_PASS, s')"
proof (rule verdict_of)
  let ?pl = "enc_ip4 h p body" and ?pre = "macs @ enc_tags tags VG_ETH_P_IP"
  let ?pkt = "eth_frame macs tags VG_ETH_P_IP ?pl"
  have pkt: "?pkt = ?pre @ ?pl" by (simp add: eth_frame_def)
  have nh: "14 + 4 * length tags = length ?pre" using assms(1) by (simp add: eth_ok_def length_enc_tags)
  note f = frame_l3 [OF assms(1), where et = VG_ETH_P_IP and pl = ?pl] and i = later_fields [OF assms(4), of p body]
  have l3: "l3_of ?pkt = L3_v4 (length ?pre)"
    using f i(4) nh by (simp add: l3_of_def vlan_type_def del: VG_MAX_VLANS_def)
  obtain e where l4: "v4_l4 ?pkt (length ?pre) = (e, 0, 0)"
    using v4_l4_shift [of ?pre ?pl] v4_l4_later [OF assms(4), of p body] unfolding pkt by (metis prod.collapse)
  show "fst (xdp_spec env ?pkt s) = XDP_DROP \<longleftrightarrow> dropped4 env (i_src h) (i_dst h) (Raw p body)"
  proof (cases "armed_env env")
    case None
    then show ?thesis by (auto simp: xdp_spec_def pass_def dropped4_def armed_env_def split: option.splits if_splits)
  next
    case (Some c)
    note c = armed_cases [OF assms(2,3) Some]
    have "slice (length ?pre + 12) 4 ?pkt = i_src h" "slice (length ?pre + 16) 4 ?pkt = i_dst h"
      unfolding pkt slice_shift using i by simp_all
    then show ?thesis
      using l3 Some l4 blind_exempt(1) [OF c(3)] c(1,2) v4_count_passes
      by (auto simp: xdp_spec_def Let_def v4_decide_def dropped4_def port_exempt4_def)
  qed
qed

lemma v6_hidden_verdict:
  assumes "eth_ok macs tags" "env_ok env" "no_port_0 env" "ip6_ok h" "hidden VG_MAX_IPV6_EXT es"
  shows "\<exists>s'. voidgate_xdp env (eth_frame macs tags VG_ETH_P_IPV6 (enc_ip6 h (first_kind es p) (enc_exts es p @ body))) s =
    Some (if dropped6 env h (Raw p body) then XDP_DROP else XDP_PASS, s')"
proof (rule verdict_of)
  let ?pl = "enc_ip6 h (first_kind es p) (enc_exts es p @ body)" and ?pre = "macs @ enc_tags tags VG_ETH_P_IPV6"
  let ?pkt = "eth_frame macs tags VG_ETH_P_IPV6 ?pl"
  have pkt: "?pkt = ?pre @ ?pl" by (simp add: eth_frame_def)
  have nh: "14 + 4 * length tags = length ?pre" using assms(1) by (simp add: eth_ok_def length_enc_tags)
  note f = frame_l3 [OF assms(1), where et = VG_ETH_P_IPV6 and pl = ?pl]
    and i = ip6_fields [OF assms(4), of "first_kind es p" "enc_exts es p @ body"]
  have l3: "l3_of ?pkt = L3_v6 (length ?pre)"
    using f i(5) nh by (simp add: l3_of_def vlan_type_def del: VG_MAX_VLANS_def)
  obtain q where l4: "v6_l4 ?pkt (length ?pre) = (False, q, 0, 0, 0)"
    using v6_l4_shift [of ?pre ?pl] v6_l4_hidden [OF assms(4,5), of p body] unfolding pkt by auto
  show "fst (xdp_spec env ?pkt s) = XDP_DROP \<longleftrightarrow> dropped6 env h (Raw p body)"
  proof (cases "armed_env env")
    case None
    then show ?thesis by (auto simp: xdp_spec_def pass_def dropped6_def armed_env_def split: option.splits if_splits)
  next
    case (Some c)
    note c = armed_cases [OF assms(2,3) Some]
    have "slice (length ?pre + 8) 16 ?pkt = j_src h" "slice (length ?pre + 24) 16 ?pkt = j_dst h"
      unfolding pkt slice_shift using i(3,4) by simp_all
    then show ?thesis
      using l3 Some l4 blind_exempt(2) [OF c(3)] c(1,2) v6_count_passes
      by (auto simp: xdp_spec_def Let_def v6_decide_def dropped6_def port_exempt6_def)
  qed
qed

text \<open>
  C9: A sender cannot hide its transport header from the gate. On an IPv4 fragment other than the
  first, and on an IPv6 packet whose chain has a fragment header with a nonzero offset among its first
  eight headers or has more than eight, the verdict is the one of a packet without ports, whatever
  transport header follows: XDP_DROP exactly when the data plane is armed, one of the two addresses is
  in the drop map and none is in the allow map (or, in IPv6, of link scope).
\<close>

theorem hidden_transport_verdict:
  assumes "eth_ok macs tags" and "env_ok env" and "no_port_0 env"
  shows "(ip4_later h \<longrightarrow>
      (\<exists>s'. voidgate_xdp env (eth_frame macs tags VG_ETH_P_IP (enc_ip4 h p body)) s =
        Some (if dropped4 env (i_src h) (i_dst h) (Raw p body) then XDP_DROP else XDP_PASS, s'))) \<and>
    (ip6_ok h6 \<and> hidden VG_MAX_IPV6_EXT es \<longrightarrow>
      (\<exists>s'. voidgate_xdp env (eth_frame macs tags VG_ETH_P_IPV6 (enc_ip6 h6 (first_kind es p) (enc_exts es p @ body))) s =
        Some (if dropped6 env h6 (Raw p body) then XDP_DROP else XDP_PASS, s')))"
  using v4_later_verdict [OF assms] v6_hidden_verdict [OF assms] by blast

text \<open>The dropped source of the example, now with later fragments of SSH packets and nine headers before SSH.\<close>

theorem hidden_transport_verdict_witness:
  "(\<exists>s'. voidgate_xdp ex_env (eth_frame (replicate 12 2) [(VG_ETH_P_8021Q, 5)] VG_ETH_P_IP
       (enc_ip4 (ex_ip4\<lparr>i_frag := 185\<rparr>) VG_IPPROTO_TCP (enc_l4 (Tcp 40000 22 (replicate 16 0))))) ex_state = Some (XDP_DROP, s')) \<and>
   (\<exists>s'. voidgate_xdp ex_env (eth_frame (replicate 12 2) [(VG_ETH_P_8021Q, 5)] VG_ETH_P_IPV6
       (enc_ip6 ex_ip6 VG_IPPROTO_DSTOPTS (enc_exts (replicate 9 (Opt VG_IPPROTO_DSTOPTS 0 [1, 4, 0, 0, 0, 0])) VG_IPPROTO_TCP @
         enc_l4 (Tcp 40000 22 (replicate 16 0))))) ex_state = Some (XDP_DROP, s'))"
proof -
  let ?es = "replicate 9 (Opt VG_IPPROTO_DSTOPTS 0 [1, 4, 0, 0, 0, 0])"
  have "ip4_later (ex_ip4\<lparr>i_frag := 185\<rparr>)" using ex_ip4_ok by (simp add: ip4_later_def ip4_ok_def)
  moreover have "ip6_ok ex_ip6" by (simp add: ip6_ok_def ex_ip6_def)
  moreover have "first_kind ?es VG_IPPROTO_TCP = VG_IPPROTO_DSTOPTS" "hidden VG_MAX_IPV6_EXT ?es" by code_simp+
  moreover have "no_port_0 ex_env" by (simp add: no_port_0_def ex_env_def ex_cfg_def ports_of_def)
  moreover have "dropped4 ex_env (i_src (ex_ip4\<lparr>i_frag := 185\<rparr>)) (i_dst (ex_ip4\<lparr>i_frag := 185\<rparr>)) (Raw q b)"
    "dropped6 ex_env ex_ip6 (Raw q b)" for q b
    by (simp_all add: dropped4_def dropped6_def port_exempt4_def port_exempt6_def ex_env_def ex_cfg_def ex_ip4_def ex_ip6_def
        v4_in_lpm_def v6_in_lpm_def link_scope_iff v6_is_linklocal_def v6_is_mcast_link_def)
  ultimately show ?thesis
    using hidden_transport_verdict [OF ex_eth ex_env_ok, of "ex_ip4\<lparr>i_frag := 185\<rparr>" VG_IPPROTO_TCP
      "enc_l4 (Tcp 40000 22 (replicate 16 0))" ex_state ex_ip6 ?es] by (simp only: simp_thms if_True)
qed

end
