(* ===== verification/XdpCount.thy ===== *)
theory XdpCount
  imports XdpFrame
begin

section \<open>Counting in the data plane\<close>

text \<open>
  What the data plane writes: the metrics of its CPU and the traffic counters of local hosts and
  remote sources. The locale \<open>counter_maps\<close> names what is relied on of the kernel's insertion into a
  hash map; \<open>ref_insert room\<close> is such a kernel, where \<open>room\<close> tells which keys it has room for.
\<close>

subsection \<open>Counters\<close>

lemma bump_fields [simp]:
  "x_metrics (bump f s) = map_option f (x_metrics s)" "x_cnt (bump f s) = x_cnt s"
  by (simp_all add: bump_def)

lemma acc_in_metrics [simp]: "x_metrics (acc_in cm key nb cs) = x_metrics (snd cs)"
  by (simp add: acc_in_def split: prod.splits)

















lemma ex_run:
  "\<exists>s'. voidgate_xdp ex_env (ex_frame 80) ex_state = Some (XDP_DROP, s')"
  "\<exists>s'. voidgate_xdp ex_env (ex_frame 22) ex_state = Some (XDP_PASS, s')"
proof -
  have "map_option fst (voidgate_xdp ex_env (ex_frame 80) ex_state) = Some XDP_DROP"
    "map_option fst (voidgate_xdp ex_env (ex_frame 22) ex_state) = Some XDP_PASS"
    by code_simp+
  then show "\<exists>s'. voidgate_xdp ex_env (ex_frame 80) ex_state = Some (XDP_DROP, s')"
    "\<exists>s'. voidgate_xdp ex_env (ex_frame 22) ex_state = Some (XDP_PASS, s')" by auto
qed


text \<open>
  While the data plane is not armed (or its configuration cannot be read) every packet passes
  without being looked at, and only \<open>rx_pkts\<close>, \<open>rx_bytes\<close> and \<open>passed\<close> change. (The comment at the metrics
  map says that \<open>passed\<close> is counted only while the gate is armed.)
\<close>

theorem xdp_idle_passes:
  assumes "e_cfg env = None \<or> armed (the (e_cfg env)) = 0"
  shows "voidgate_xdp env pkt s = Some (XDP_PASS, s\<lparr>x_metrics := map_option
    (\<lambda>m. m\<lparr>rx_pkts := rx_pkts m + 1, rx_bytes := rx_bytes m + of_nat (length pkt), passed := passed m + 1\<rparr>)
    (x_metrics s)\<rparr>)"
proof -
  have "armed_env env = None" using assms by (auto simp: armed_env_def split: option.splits)
  then show ?thesis
    by (simp add: xdp_eq xdp_spec_def seen_def pass_def bump_def option.map_comp o_def)
qed

theorem xdp_idle_passes_witness:
  "\<exists>s'. voidgate_xdp (ex_env\<lparr>e_cfg := Some (ex_cfg\<lparr>armed := 0\<rparr>)\<rparr>) (ex_frame 80) ex_state = Some (XDP_PASS, s') \<and>
     x_cnt s' = x_cnt ex_state \<and> passed (the (x_metrics s')) = 9"
  using xdp_idle_passes [of "ex_env\<lparr>e_cfg := Some (ex_cfg\<lparr>armed := 0\<rparr>)\<rparr>" "ex_frame 80" ex_state]
  by (simp add: ex_state_def)

lemma drop_only_listed:
  assumes "voidgate_xdp env pkt s = Some (XDP_DROP, s')"
  shows "\<exists>c. e_cfg env = Some c \<and> armed c \<noteq> 0 \<and> x_cnt s' = x_cnt s \<and>
    (\<exists>ip. l3_of pkt = L3_v4 ip \<and>
       (let src = slice (ip + 12) 4 pkt; dst = slice (ip + 16) 4 pkt in
        \<not> v4_in_lpm env Allow_v4 src \<and> \<not> v4_in_lpm env Allow_v4 dst \<and>
        (v4_in_lpm env Drop_v4 src \<or> v4_in_lpm env Drop_v4 dst)) \<or>
     l3_of pkt = L3_v6 ip \<and>
       (let src = slice (ip + 8) 16 pkt; dst = slice (ip + 24) 16 pkt in
        \<not> v6_in_lpm env Allow_v6 src \<and> \<not> v6_in_lpm env Allow_v6 dst \<and>
        \<not> v6_is_linklocal src \<and> \<not> v6_is_linklocal dst \<and>
        (v6_in_lpm env Drop_v6 src \<or> v6_in_lpm env Drop_v6 dst)))"
proof -
  have spec: "xdp_spec env pkt s = (XDP_DROP, s')" using assms by (simp add: xdp_eq)
  then obtain c where c: "armed_env env = Some c"
    by (auto simp: xdp_spec_def pass_def Let_def split: option.splits)
  then have "e_cfg env = Some c" "armed c \<noteq> 0" by (auto simp: armed_env_def split: option.splits if_splits)
  moreover have cnt: "x_cnt (note_err e (seen pkt s)) = x_cnt s" for e by (simp add: note_err_def seen_def)
  ultimately show ?thesis using spec c
    by (auto simp: xdp_spec_def Let_def pass_def parse_fail_def v4_decide_def v6_decide_def v4_count_def
        v6_count_def v4_exempt_def v6_exempt_def cnt split: l3.splits prod.splits if_splits)
qed

text \<open>
  A packet is dropped only when the data plane is armed, both addresses are in the packet,
  neither is in the allow map of its family, one of them is in the drop map, and the packet is not
  one of the link-scope IPv6 packets; the traffic counters then stay as they are.
\<close>

theorem xdp_drop_only_listed:
  assumes "voidgate_xdp env pkt s = Some (XDP_DROP, s')"
  shows "\<exists>c. e_cfg env = Some c \<and> armed c \<noteq> 0 \<and> x_cnt s' = x_cnt s \<and>
    (\<exists>ip. l3_of pkt = L3_v4 ip \<and>
       (let src = slice (ip + 12) 4 pkt; dst = slice (ip + 16) 4 pkt in
        \<not> v4_in_lpm env Allow_v4 src \<and> \<not> v4_in_lpm env Allow_v4 dst \<and>
        (v4_in_lpm env Drop_v4 src \<or> v4_in_lpm env Drop_v4 dst)) \<or>
     l3_of pkt = L3_v6 ip \<and>
       (let src = slice (ip + 8) 16 pkt; dst = slice (ip + 24) 16 pkt in
        \<not> v6_in_lpm env Allow_v6 src \<and> \<not> v6_in_lpm env Allow_v6 dst \<and>
        \<not> v6_is_linklocal src \<and> \<not> v6_is_linklocal dst \<and>
        (v6_in_lpm env Drop_v6 src \<or> v6_in_lpm env Drop_v6 dst)))"
  by (rule drop_only_listed [OF assms])

theorem xdp_drop_only_listed_witness:
  "\<exists>s'. voidgate_xdp ex_env (ex_frame 80) ex_state = Some (XDP_DROP, s') \<and> x_cnt s' = x_cnt ex_state"
proof -
  obtain s' where r: "voidgate_xdp ex_env (ex_frame 80) ex_state = Some (XDP_DROP, s')" using ex_run(1) by blast
  show ?thesis using r xdp_drop_only_listed [OF r] by blast
qed


subsection \<open>Traffic counters\<close>

abbreviation zero_counters :: host_counters where
  "zero_counters \<equiv> \<lparr>in_pkts = 0, in_bytes = 0\<rparr>"

definition add_pkt :: "u64 \<Rightarrow> host_counters \<Rightarrow> host_counters" where
  "add_pkt nb c = c\<lparr>in_pkts := in_pkts c + 1, in_bytes := in_bytes c + nb\<rparr>"

text \<open>A refused insertion changes nothing; a hash map keeps its other entries, an LRU map may evict.\<close>

locale counter_maps =
  fixes ins :: "cnt_map \<Rightarrow> bytes \<Rightarrow> (bytes \<rightharpoonup> host_counters) \<Rightarrow> (bytes \<rightharpoonup> host_counters)"
  assumes ins_new: "M k = None \<Longrightarrow> ins cm k M k = None \<or> ins cm k M k = Some zero_counters"
    and ins_host: "cm = Host_v4 \<or> cm = Host_v6 \<Longrightarrow> k' \<noteq> k \<Longrightarrow> ins cm k M k' = M k'"
    and ins_lru: "k' \<noteq> k \<Longrightarrow> ins cm k M k' = M k' \<or> ins cm k M k' = None"

definition ref_insert ::
  "(bytes \<Rightarrow> bool) \<Rightarrow> cnt_map \<Rightarrow> bytes \<Rightarrow> (bytes \<rightharpoonup> host_counters) \<Rightarrow> (bytes \<rightharpoonup> host_counters)" where
  "ref_insert room cm k M =
     (if room k then M(k \<mapsto> zero_counters)
      else if cm = Host_v4 \<or> cm = Host_v6 then M
      else [k \<mapsto> zero_counters])"

interpretation rc: counter_maps "ref_insert room"
  by unfold_locales (auto simp: ref_insert_def)

lemma acc_get_entry:
  "x_cnt (acc_in cm key nb (VG_HASH_GET env cm key s)) cm key =
     (case x_cnt s cm key of
        Some c \<Rightarrow> Some (add_pkt nb c)
      | None \<Rightarrow> map_option (add_pkt nb) (e_insert env cm key (x_cnt s cm) key))"
  by (auto simp: acc_in_def VG_HASH_GET_def add_pkt_def Let_def split: option.splits)

lemma acc_get_others:
  "key' \<noteq> key \<Longrightarrow> x_cnt (acc_in cm key nb (VG_HASH_GET env cm key s)) cm key' =
     (if x_cnt s cm key = None then e_insert env cm key (x_cnt s cm) key' else x_cnt s cm key')"
  "cm' \<noteq> cm \<Longrightarrow> x_cnt (acc_in cm key nb (VG_HASH_GET env cm key s)) cm' = x_cnt s cm'"
  by (auto simp: acc_in_def VG_HASH_GET_def Let_def)

text \<open>
  One more packet of \<open>nb\<close> bytes for \<open>key\<close>: its entry grows, or appears with this packet exactly when
  there is \<open>room\<close> for it; \<open>keep\<close> says that no other entry goes.
\<close>

definition counted ::
  "bool \<Rightarrow> bool \<Rightarrow> bytes \<Rightarrow> u64 \<Rightarrow> (bytes \<rightharpoonup> host_counters) \<Rightarrow> (bytes \<rightharpoonup> host_counters) \<Rightarrow> bool" where
  "counted keep room key nb M M' \<longleftrightarrow>
     (case M key of
        Some c \<Rightarrow> M' key = Some (add_pkt nb c) \<and> (\<forall>k. k \<noteq> key \<longrightarrow> M' k = M k)
      | None \<Rightarrow> M' key = (if room then Some \<lparr>in_pkts = 1, in_bytes = nb\<rparr> else None) \<and>
          (\<forall>k. k \<noteq> key \<longrightarrow> M' k = M k \<or> \<not> keep \<and> M' k = None))"

text \<open>Whether the kernel takes a new key, and how often counting for one key finds the map full.\<close>

definition cnt_room :: "xdp_env \<Rightarrow> cnt_map \<Rightarrow> bytes \<Rightarrow> xdp_state \<Rightarrow> bool" where
  "cnt_room env cm key s \<longleftrightarrow> e_insert env cm key (x_cnt s cm) key \<noteq> None"

definition refused :: "xdp_env \<Rightarrow> cnt_map \<Rightarrow> bytes \<Rightarrow> xdp_state \<Rightarrow> u64" where
  "refused env cm key s = (if x_cnt s cm key = None \<and> \<not> cnt_room env cm key s then 1 else 0)"

definition full_of :: "xdp_state \<Rightarrow> u64 option" where
  "full_of s = map_option map_full (x_metrics s)"

lemma acc_get_full:
  "full_of (acc_in cm key nb (VG_HASH_GET env cm key s)) = map_option (\<lambda>n. n + refused env cm key s) (full_of s)"
  by (simp add: full_of_def VG_HASH_GET_def refused_def cnt_room_def Let_def option.map_comp o_def option.map_ident)

lemma full_of_simps:
  "full_of (bump inc_passed s) = full_of s" "full_of (note_err e (seen pkt s)) = full_of s"
  by (simp_all add: full_of_def note_err_def seen_def option.map_comp o_def)

lemma refused_cong: "x_cnt s cm = x_cnt s' cm \<Longrightarrow> refused env cm key s = refused env cm key s'"
  "x_cnt s cm = x_cnt s' cm \<Longrightarrow> cnt_room env cm key s = cnt_room env cm key s'"
  by (simp_all add: refused_def cnt_room_def)

context counter_maps
begin

lemma acc_counted:
  assumes "e_insert env = ins"
  shows "counted (cm = Host_v4 \<or> cm = Host_v6) (cnt_room env cm key s) key nb (x_cnt s cm)
    (x_cnt (acc_in cm key nb (VG_HASH_GET env cm key s)) cm)"
  using acc_get_entry [of cm key nb env s] acc_get_others(1) [of _ key cm nb env s]
    ins_new [of "x_cnt s cm" key cm] ins_lru [of _ key cm "x_cnt s cm"] ins_host [of cm _ key "x_cnt s cm"] assms
  by (auto simp: counted_def cnt_room_def add_pkt_def split: option.splits)

text \<open>Counting a packet for a host and then, in another map, for its source.\<close>

lemma both_counted:
  assumes "e_insert env = ins" and "h = Host_v4 \<and> r = CRemote_v4 \<or> h = Host_v6 \<and> r = CRemote_v6"
    and s1: "s1 = acc_in h dst nb (VG_HASH_GET env h dst s)"
    and s2: "s2 = acc_in r src nb (VG_HASH_GET env r src s1)"
  shows "counted True (cnt_room env h dst s) dst nb (x_cnt s h) (x_cnt s2 h) \<and>
    counted False (cnt_room env r src s) src nb (x_cnt s r) (x_cnt s2 r) \<and>
    full_of s2 = map_option (\<lambda>n. n + refused env h dst s + refused env r src s) (full_of s)"
proof -
  have kind: "(h = Host_v4 \<or> h = Host_v6) = True" "(r = Host_v4 \<or> r = Host_v6) = False" "h \<noteq> r" using assms(2) by auto
  have other: "x_cnt s2 h = x_cnt s1 h" "x_cnt s1 r = x_cnt s r"
    unfolding s2 s1 by (rule acc_get_others(2), use kind in simp)+
  note host = acc_counted [OF assms(1), of h dst s nb, folded s1, unfolded kind]
    and remote = acc_counted [OF assms(1), of r src s1 nb, folded s2, unfolded kind]
  note c = refused_cong [OF other(2), of env src]
  have "full_of s2 = map_option (\<lambda>n. n + refused env h dst s + refused env r src s) (full_of s)"
    unfolding s2 acc_get_full c(1) unfolding s1 acc_get_full by (simp add: option.map_comp o_def)
  then show ?thesis using host remote unfolding other c(2) by blast
qed

end

lemma note_err_cnt: "x_cnt (note_err e (seen pkt s)) = x_cnt s"
  by (simp add: note_err_def seen_def)

lemma note_err_room:
  "cnt_room env cm key (note_err e (seen pkt s)) = cnt_room env cm key s"
  "refused env cm key (note_err e (seen pkt s)) = refused env cm key s"
  by (simp_all add: refused_def cnt_room_def note_err_cnt)


lemma v6_decide_pass:
  assumes "fst (v6_decide env c pkt ip s) = XDP_PASS"
  shows "\<exists>e. v6_decide env c pkt ip s = v6_count env (slice (ip + 8) 16 pkt) (slice (ip + 24) 16 pkt)
    (of_nat (length pkt)) (note_err e s)"
proof -
  obtain e pr sp dp ty where "v6_l4 pkt ip = (e, pr, sp, dp, ty)" by (metis prod_cases5)
  then show ?thesis using assms by (auto simp: v6_decide_def Let_def split: if_splits)
qed


text \<open>The example with a host map that takes no new IPv4 host, and one with room for everything.\<close>

definition ex_env_lru :: xdp_env where
  "ex_env_lru = ex_env\<lparr>e_insert := ref_insert (\<lambda>k. length k = 16)\<rparr>"

definition ex_env_room :: xdp_env where
  "ex_env_room = ex_env\<lparr>e_insert := ref_insert (\<lambda>k. True)\<rparr>"

lemma ex_lru: "counter_maps (e_insert ex_env_lru)" "armed_env ex_env_lru \<noteq> None"
    "counter_maps (e_insert ex_env_room)" "armed_env ex_env_room \<noteq> None"
  using rc.counter_maps_axioms by (simp_all add: ex_env_lru_def ex_env_room_def armed_env_def ex_env_def ex_cfg_def)




text \<open>
  The same for IPv6.
\<close>

theorem v6_pass_counted:
  assumes "counter_maps (e_insert env)" and "armed_env env \<noteq> None" and "l3_of pkt = L3_v6 ip"
    and "voidgate_xdp env pkt s = Some (XDP_PASS, s')" and "v6_in_lpm env Local_v6 (slice (ip + 24) 16 pkt)"
    and "src = slice (ip + 8) 16 pkt" and "dst = slice (ip + 24) 16 pkt"
  shows "counted True (cnt_room env Host_v6 dst s) dst (of_nat (length pkt)) (x_cnt s Host_v6) (x_cnt s' Host_v6) \<and>
    counted False (cnt_room env CRemote_v6 src s) src (of_nat (length pkt)) (x_cnt s CRemote_v6) (x_cnt s' CRemote_v6) \<and>
    full_of s' = map_option (\<lambda>n. n + refused env Host_v6 dst s + refused env CRemote_v6 src s) (full_of s)"
proof -
  obtain c where c: "armed_env env = Some c" using assms(2) by blast
  have d: "v6_decide env c pkt ip (seen pkt s) = (XDP_PASS, s')"
    using assms(3,4) c by (simp add: xdp_eq xdp_spec_def)
  then obtain e where e: "(XDP_PASS, s') = v6_count env src dst (of_nat (length pkt)) (note_err e (seen pkt s))"
    using v6_decide_pass [of env c pkt ip "seen pkt s"] assms(6,7) by auto
  note b = counter_maps.both_counted [OF assms(1) refl _ refl refl, where h = Host_v6 and r = CRemote_v6 and dst = dst
    and nb = "of_nat (length pkt)" and s = "note_err e (seen pkt s)" and src = src]
  from e assms(5,7) have "s' = bump inc_passed (acc_in CRemote_v6 src (of_nat (length pkt)) (VG_HASH_GET env CRemote_v6 src
      (acc_in Host_v6 dst (of_nat (length pkt)) (VG_HASH_GET env Host_v6 dst (note_err e (seen pkt s))))))"
    by (simp add: v6_count_def pass_def)
  then show ?thesis using b by (simp add: full_of_simps note_err_room note_err_cnt)
qed

theorem v6_pass_counted_witness:
  "\<exists>s'. voidgate_xdp ex_env_lru (ex_frame6 (Icmp6 135 [0, 0, 0])) ex_state = Some (XDP_PASS, s') \<and>
     x_cnt s' CRemote_v6 (j_src ex_ip6) = Some \<lparr>in_pkts = 1, in_bytes = 74\<rparr>"
proof -
  let ?f = "ex_frame6 (Icmp6 135 [0, 0, 0])"
  have e: "map_option fst (voidgate_xdp ex_env_lru ?f ex_state) = Some XDP_PASS"
    "l3_of ?f = L3_v6 14" "v6_in_lpm ex_env_lru Local_v6 (slice (14 + 24) 16 ?f)" "j_src ex_ip6 = slice (14 + 8) 16 ?f"
    "length ?f = 74" "length (j_src ex_ip6) = 16"
    by code_simp+
  then obtain s' where r: "voidgate_xdp ex_env_lru ?f ex_state = Some (XDP_PASS, s')" by auto
  have "cnt_room ex_env_lru CRemote_v6 (j_src ex_ip6) ex_state" "x_cnt ex_state CRemote_v6 (j_src ex_ip6) = None"
    using e(6) by (simp_all add: cnt_room_def ex_env_lru_def ref_insert_def ex_state_def)
  then show ?thesis
    using r v6_pass_counted [OF ex_lru(1,2) e(2) r e(3,4) refl] e(5) by (simp add: counted_def)
qed

end
