(* ===== verification/DropTable.thy ===== *)
theory DropTable
  imports Config IntrusiveList
begin

section \<open>The drop table: pool, list and hash of policy.c\<close>

text \<open>
  The records of \<open>struct vg_ctrl\<close> that list the drops in force: \<open>drop_pool\<close> with \<open>drop_pool_cap\<close>
  and \<open>drop_used\<close>, the lists \<open>drop_all\<close> and \<open>drop_free\<close>, \<open>drop_count\<close>, and the hash buckets
  \<open>drop_heads\<close> with \<open>drop_nbuckets\<close>. A record is its index in the pool; the addresses of
  \<open>struct vg_list\<close> objects are \<open>lnode\<close>. \<open>tab_rep t xs fs hs\<close> is the representation invariant: the
  drop list holds the records \<open>xs\<close>, oldest first, the free list \<open>fs\<close>, and \<open>hs\<close> are records taken
  by \<open>drop_alloc\<close> and on no list yet. \<open>drops\<close> reads the listed records off the links.
\<close>

record vg_drop_rec =
  cidr :: vg_cidr
  reason :: u32
  inserted :: int
  expires :: int

datatype lnode = LNull | All | Free | Rec nat

record drop_tab =
  drop_pool :: "nat \<Rightarrow> vg_drop_rec"
  drop_pool_cap :: u32
  drop_used :: u32
  links :: "lnode vg_links"
  drop_count :: int
  hlinks :: vg_hlinks
  drop_nbuckets :: u32

fun vg_list_entry :: "lnode \<Rightarrow> nat option" where
  "vg_list_entry (Rec i) = Some i"
| "vg_list_entry _ = None"

fun hash_bytes :: "u32 \<Rightarrow> bytes \<Rightarrow> u32" where
  "hash_bytes h [] = h"
| "hash_bytes h (b # bs) = hash_bytes ((h XOR ucast b) * 16777619) bs"

definition drop_hash :: "drop_tab \<Rightarrow> vg_cidr \<Rightarrow> u32" where
  "drop_hash t p =
     (let h = AF_num (family p) * 16777619;
          n = (if family p = AF_INET then 4 else 16);
          h = (h XOR ucast (prefixlen p)) * 16777619;
          h = hash_bytes h (take n (addr p))
      in h AND (drop_nbuckets t - 1))"

text \<open>
  The walk of a bucket chain. A chain holds each used record at most once, so \<open>drop_used\<close> bounds
  the iterations.
\<close>

fun find_loop :: "nat \<Rightarrow> drop_tab \<Rightarrow> vg_cidr \<Rightarrow> nat option \<Rightarrow> nat option" where
  "find_loop 0 t p n = None"
| "find_loop (Suc fuel) t p None = None"
| "find_loop (Suc fuel) t p (Some r) =
     (let q = cidr (drop_pool t r) in
      if family q = family p \<and> prefixlen q = prefixlen p \<and>
         take (if family p = AF_INET then 4 else 16) (addr q) =
         take (if family p = AF_INET then 4 else 16) (addr p)
      then Some r
      else find_loop fuel t p (hnext (hlinks t) r))"

definition drops_find :: "drop_tab \<Rightarrow> vg_cidr \<Rightarrow> nat option" where
  "drops_find t p =
     find_loop (Suc (unat (drop_used t))) t p (first (hlinks t) (unat (drop_hash t p)))"

definition drop_alloc :: "drop_tab \<Rightarrow> nat option \<times> drop_tab" where
  "drop_alloc t =
     (if \<not> vg_list_empty Free (links t) then
        (let l = next (links t) Free
         in (vg_list_entry l, t\<lparr>links := vg_list_del l (links t)\<rparr>))
      else if drop_used t < drop_pool_cap t then
        (Some (unat (drop_used t)), t\<lparr>drop_used := drop_used t + 1\<rparr>)
      else (None, t))"

definition drops_reset :: "drop_tab \<Rightarrow> drop_tab" where
  "drops_reset t =
     (let t = t\<lparr>hlinks := (hlinks t)\<lparr>first :=
                  (\<lambda>b. if b < unat (drop_nbuckets t) then None else first (hlinks t) b)\<rparr>\<rparr>;
          t = t\<lparr>links := vg_list_init Free (links t)\<rparr>;
          t = t\<lparr>links := vg_list_init All (links t)\<rparr>;
          t = t\<lparr>drop_used := 0\<rparr>
      in t\<lparr>drop_count := 0\<rparr>)"

text \<open>
  The table's part of \<open>drop_remove\<close> (after the kernel entry is gone) and of \<open>drop_add\<close>: giving a
  record back, and filling in and listing a new one.
\<close>

definition drop_unlink :: "nat \<Rightarrow> drop_tab \<Rightarrow> drop_tab" where
  "drop_unlink r t =
     (let t = t\<lparr>hlinks := vg_hlist_del r (hlinks t)\<rparr>;
          t = t\<lparr>links := vg_list_del (Rec r) (links t)\<rparr>;
          t = t\<lparr>links := vg_list_add_tail (Rec r) Free (links t)\<rparr>
      in t\<lparr>drop_count := drop_count t - 1\<rparr>)"

definition drop_release :: "nat \<Rightarrow> drop_tab \<Rightarrow> drop_tab" where
  "drop_release r t = t\<lparr>links := vg_list_add_tail (Rec r) Free (links t)\<rparr>"

definition drop_link :: "nat \<Rightarrow> vg_drop_rec \<Rightarrow> drop_tab \<Rightarrow> drop_tab" where
  "drop_link r d t =
     (let t = t\<lparr>drop_pool := (drop_pool t)(r := d)\<rparr>;
          t = t\<lparr>hlinks := vg_hlist_add_head r (unat (drop_hash t (cidr d))) (hlinks t)\<rparr>;
          t = t\<lparr>links := vg_list_add_tail (Rec r) All (links t)\<rparr>
      in t\<lparr>drop_count := drop_count t + 1\<rparr>)"

definition set_rec :: "nat \<Rightarrow> vg_drop_rec \<Rightarrow> drop_tab \<Rightarrow> drop_tab" where
  "set_rec r d t = t\<lparr>drop_pool := (drop_pool t)(r := d)\<rparr>"

text \<open>The tables as \<open>vg_ctrl_init\<close> leaves them: \<open>calloc\<close>ed memory and two empty lists.\<close>

definition zero_cidr :: vg_cidr where
  "zero_cidr = \<lparr>family = AF_INET, addr = replicate 16 0, prefixlen = 0\<rparr>"

definition drop_tab_init :: "u32 \<Rightarrow> u32 \<Rightarrow> drop_tab" where
  "drop_tab_init cap nb =
     (let t = \<lparr>drop_pool = (\<lambda>_. \<lparr>cidr = zero_cidr, reason = 0, inserted = 0, expires = 0\<rparr>),
               drop_pool_cap = cap, drop_used = 0,
               links = \<lparr>prev = (\<lambda>_. LNull), next = (\<lambda>_. LNull)\<rparr>, drop_count = 0,
               hlinks = \<lparr>first = (\<lambda>_. None), hnext = (\<lambda>_. None), pprev = (\<lambda>_. None)\<rparr>,
               drop_nbuckets = nb\<rparr>;
          t = t\<lparr>links := vg_list_init Free (links t)\<rparr>
      in t\<lparr>links := vg_list_init All (links t)\<rparr>)"

subsection \<open>The consistency check of the tests\<close>

text \<open>\<open>vg_ctrl_drops_check\<close>: each loop returns the count it reached, or \<open>None\<close> for -1.\<close>

fun check_list :: "nat \<Rightarrow> drop_tab \<Rightarrow> lnode \<Rightarrow> int \<Rightarrow> int option" where
  "check_list 0 t l listed = None"
| "check_list (Suc fuel) t l listed =
     (if l = All then Some listed
      else case vg_list_entry l of
             None \<Rightarrow> None
           | Some r \<Rightarrow>
               if prev (links t) (next (links t) l) \<noteq> l \<or> r \<ge> unat (drop_used t) \<or>
                  drops_find t (cidr (drop_pool t r)) \<noteq> Some r \<or> listed + 1 > drop_count t
               then None
               else check_list fuel t (next (links t) l) (listed + 1))"

fun check_chain :: "nat \<Rightarrow> drop_tab \<Rightarrow> u32 \<Rightarrow> hslot \<Rightarrow> int \<Rightarrow> int option" where
  "check_chain 0 t b pp hashed = None"
| "check_chain (Suc fuel) t b pp hashed =
     (case read_slot (hlinks t) pp of
        None \<Rightarrow> Some hashed
      | Some n \<Rightarrow>
          if pprev (hlinks t) n \<noteq> Some pp \<or> drop_hash t (cidr (drop_pool t n)) \<noteq> b \<or>
             hashed + 1 > drop_count t
          then None
          else check_chain fuel t b (NextOf n) (hashed + 1))"

fun check_buckets :: "nat \<Rightarrow> drop_tab \<Rightarrow> nat list \<Rightarrow> int \<Rightarrow> int option" where
  "check_buckets fuel t [] hashed = Some hashed"
| "check_buckets fuel t (b # bs) hashed =
     (case check_chain fuel t (of_nat b) (Bucket b) hashed of
        None \<Rightarrow> None
      | Some h \<Rightarrow> check_buckets fuel t bs h)"

definition vg_ctrl_drops_check :: "drop_tab \<Rightarrow> int" where
  "vg_ctrl_drops_check t =
     (let fuel = Suc (unat (drop_used t)) in
      case check_list fuel t (next (links t) All) 0 of
        None \<Rightarrow> - 1
      | Some listed \<Rightarrow>
          (case check_buckets fuel t [0..<unat (drop_nbuckets t)] 0 of
             None \<Rightarrow> - 1
           | Some hashed \<Rightarrow>
               if listed = drop_count t \<and> hashed = drop_count t then 0 else - 1))"

subsection \<open>Representation\<close>

definition drop_ids :: "drop_tab \<Rightarrow> nat list" where
  "drop_ids t =
     List.map_filter vg_list_entry
       (walk_next (Suc (unat (drop_used t))) (links t) All (next (links t) All))"

definition drops :: "drop_tab \<Rightarrow> vg_drop_rec list" where
  "drops t = map (drop_pool t) (drop_ids t)"

definition chain_ok :: "drop_tab \<Rightarrow> nat list \<Rightarrow> nat \<Rightarrow> nat list \<Rightarrow> bool" where
  "chain_ok t xs b ys \<longleftrightarrow> hchain (hlinks t) (Bucket b) ys \<and> distinct ys \<and>
     set ys = {i \<in> set xs. unat (drop_hash t (cidr (drop_pool t i))) = b}"

definition tab_rep :: "drop_tab \<Rightarrow> nat list \<Rightarrow> nat list \<Rightarrow> nat list \<Rightarrow> bool" where
  "tab_rep t xs fs hs \<longleftrightarrow>
     dll (links t) All (map Rec xs) \<and> dll (links t) Free (map Rec fs) \<and>
     distinct (xs @ fs @ hs) \<and> set (xs @ fs @ hs) = {..<unat (drop_used t)} \<and>
     drop_used t \<le> drop_pool_cap t \<and>
     (\<forall>b < unat (drop_nbuckets t). \<exists>ys. chain_ok t xs b ys) \<and>
     (\<exists>k < 32. drop_nbuckets t = 2 ^ k) \<and>
     (\<forall>i \<in> set xs. cidr_wf (cidr (drop_pool t i))) \<and>
     inj_on (\<lambda>i. cidr (drop_pool t i)) (set xs) \<and>
     drop_count t = int (length xs)"

definition tab_ok :: "drop_tab \<Rightarrow> bool" where
  "tab_ok t \<longleftrightarrow> (\<exists>fs. tab_rep t (drop_ids t) fs [])"

lemma drop_hash_cong: "drop_nbuckets t' = drop_nbuckets t \<Longrightarrow> drop_hash t' p = drop_hash t p"
  by (simp add: drop_hash_def)

lemma unat_exp32:
  assumes "k < 32"
  shows "unat (2 ^ k :: u32) = 2 ^ k"
proof -
  have "(2::nat) ^ k < 2 ^ 32" using assms by (intro power_strict_increasing) simp_all
  then have "unat (of_nat (2 ^ k) :: u32) = 2 ^ k"
    using assms by (simp add: unsigned_of_nat take_bit_nat_eq_self del: of_nat_power)
  then show ?thesis by simp
qed

lemma drop_hash_less:
  assumes "drop_nbuckets t = 2 ^ k" and "k < 32"
  shows "unat (drop_hash t p) < unat (drop_nbuckets t)"
proof -
  have "drop_hash t p = take_bit k (hash_bytes ((AF_num (family p) * 16777619 XOR ucast (prefixlen p)) * 16777619)
      (take (if family p = AF_INET then 4 else 16) (addr p)))"
    unfolding drop_hash_def Let_def assms(1) take_bit_eq_mask mask_eq_exp_minus_1 ..
  then have "unat (drop_hash t p) < 2 ^ k"
    by (simp add: unsigned_take_bit_eq del: take_bit_eq_mask)
  moreover have "unat (drop_nbuckets t) = 2 ^ k" using assms by (simp add: unat_exp32)
  ultimately show ?thesis by simp
qed

lemma find_test:
  assumes "cidr_wf q" "cidr_wf p"
  shows "(family q = family p \<and> prefixlen q = prefixlen p \<and>
      take (if family p = AF_INET then 4 else 16) (addr q) =
      take (if family p = AF_INET then 4 else 16) (addr p)) \<longleftrightarrow> q = p"
  using wf_eqI [OF assms] by (auto simp: nbytes_def)

lemma find_loop_chain:
  assumes "hchain (hlinks t) s ys" and "length ys < fuel" and "cidr_wf p"
    and "\<forall>i \<in> set ys. cidr_wf (cidr (drop_pool t i))"
  shows "find_loop fuel t p (read_slot (hlinks t) s) = find (\<lambda>i. cidr (drop_pool t i) = p) ys"
  using assms
proof (induction ys arbitrary: s fuel)
  case Nil
  then show ?case by (cases fuel) simp_all
next
  case (Cons y ys)
  then obtain f where f: "fuel = Suc f" by (cases fuel) auto
  have "find_loop f t p (read_slot (hlinks t) (NextOf y)) = find (\<lambda>i. cidr (drop_pool t i) = p) ys"
    using Cons.prems f by (intro Cons.IH) simp_all
  then show ?case
    using Cons.prems f find_test [of "cidr (drop_pool t y)" p] by (simp add: Let_def)
qed

lemma tab_repD:
  assumes "tab_rep t xs fs hs"
  shows "dll (links t) All (map Rec xs)" "dll (links t) Free (map Rec fs)"
    "distinct (xs @ fs @ hs)" "set (xs @ fs @ hs) = {..<unat (drop_used t)}"
    "length xs + length fs + length hs = unat (drop_used t)" "length xs \<le> unat (drop_used t)"
    "drop_count t = int (length xs)" "drop_used t \<le> drop_pool_cap t"
    "\<And>i. i \<in> set xs \<Longrightarrow> cidr_wf (cidr (drop_pool t i))"
    "inj_on (\<lambda>i. cidr (drop_pool t i)) (set xs)"
    "\<And>p. unat (drop_hash t p) < unat (drop_nbuckets t)"
proof -
  have d: "distinct (xs @ fs @ hs)" and s: "set (xs @ fs @ hs) = {..<unat (drop_used t)}"
    using assms unfolding tab_rep_def by blast+
  have "length (xs @ fs @ hs) = unat (drop_used t)"
    using distinct_card [OF d] s by simp
  then show "length xs + length fs + length hs = unat (drop_used t)" "length xs \<le> unat (drop_used t)"
    by simp_all
qed (use assms drop_hash_less in \<open>auto simp: tab_rep_def\<close>)

lemma tab_repI:
  assumes "tab_rep t xs fs hs"
    and "dll (links t') All (map Rec xs')" "dll (links t') Free (map Rec fs')"
    and "distinct (xs' @ fs' @ hs')" "set (xs' @ fs' @ hs') = {..<unat (drop_used t)}"
    and "\<And>b. b < unat (drop_nbuckets t) \<Longrightarrow> \<exists>ys. chain_ok t' xs' b ys"
    and "\<And>i. i \<in> set xs' \<Longrightarrow> cidr_wf (cidr (drop_pool t' i))"
    and "inj_on (\<lambda>i. cidr (drop_pool t' i)) (set xs')" "drop_count t' = int (length xs')"
    and "drop_used t' = drop_used t" "drop_pool_cap t' = drop_pool_cap t" "drop_nbuckets t' = drop_nbuckets t"
  shows "tab_rep t' xs' fs' hs'"
  using assms(1) unfolding tab_rep_def assms(9-12)
  by (intro conjI allI ballI impI assms(2-8)) blast+

lemma tab_rep_chain:
  assumes "tab_rep t xs fs hs" and "b < unat (drop_nbuckets t)"
  obtains ys where "chain_ok t xs b ys"
  using assms unfolding tab_rep_def by blast

lemma entries_Rec: "List.map_filter vg_list_entry (map Rec xs) = xs"
  by (induction xs) (simp_all add: List.map_filter_def)

lemma tab_rep_ids: "tab_rep t xs fs hs \<Longrightarrow> drop_ids t = xs"
  using walk_dll [of "links t" All "map Rec xs" "Suc (unat (drop_used t))"] tab_repD(1,6) [of t xs fs hs]
  by (simp add: drop_ids_def entries_Rec del: walk_next.simps)

text \<open>The lookup returns the listed record of the prefix, if there is one.\<close>

lemma find_rep:
  assumes rep: "tab_rep t xs fs hs" and wf: "cidr_wf p"
  shows "drops_find t p = Some i \<longleftrightarrow> i \<in> set xs \<and> cidr (drop_pool t i) = p"
proof -
  obtain ys where ys: "chain_ok t xs (unat (drop_hash t p)) ys"
    using tab_rep_chain [OF rep tab_repD(11) [OF rep]] .
  then have sub: "set ys \<subseteq> set xs" and d: "distinct ys" by (auto simp: chain_ok_def)
  have "card (set ys) \<le> card (set xs)" using sub by (intro card_mono) simp_all
  moreover have "distinct xs" using tab_repD(3) [OF rep] by simp
  ultimately have "length ys \<le> length xs" using d by (simp add: distinct_card)
  then have len: "length ys < Suc (unat (drop_used t))" using tab_repD(6) [OF rep] by simp
  have loop: "drops_find t p = find (\<lambda>i. cidr (drop_pool t i) = p) ys"
    using find_loop_chain [OF _ len wf, of t "Bucket (unat (drop_hash t p))"] ys sub tab_repD(9) [OF rep]
    by (auto simp: drops_find_def chain_ok_def simp del: find_loop.simps)
  have mem: "i \<in> set ys" if "i \<in> set xs" "cidr (drop_pool t i) = p" for i
    using ys that by (auto simp: chain_ok_def)
  show ?thesis
  proof
    assume "drops_find t p = Some i"
    then show "i \<in> set xs \<and> cidr (drop_pool t i) = p"
      using loop sub by (auto simp: find_Some_iff)
  next
    assume i: "i \<in> set xs \<and> cidr (drop_pool t i) = p"
    then have "drops_find t p \<noteq> None" using loop mem by (auto simp: find_None_iff)
    then obtain j where j: "drops_find t p = Some j" by auto
    then have "j \<in> set xs \<and> cidr (drop_pool t j) = p" using loop sub by (auto simp: find_Some_iff)
    with i have "j = i" using tab_repD(10) [OF rep] by (auto dest: inj_onD)
    with j show "drops_find t p = Some i" by simp
  qed
qed

lemma find_none:
  assumes rep: "tab_rep t xs fs hs" and wf: "cidr_wf p"
  shows "drops_find t p = None \<longleftrightarrow> p \<notin> (\<lambda>i. cidr (drop_pool t i)) ` set xs"
proof (cases "drops_find t p")
  case None
  then show ?thesis using find_rep [OF assms] by auto
next
  case (Some i)
  then show ?thesis using find_rep [OF assms, of i] by auto
qed

subsection \<open>The operations keep the representation\<close>

lemma chain_ok_cong:
  assumes "chain_ok t xs b ys" and "hlinks t' = hlinks t" and "drop_nbuckets t' = drop_nbuckets t"
    and "\<And>i. i \<in> set xs \<Longrightarrow> cidr (drop_pool t' i) = cidr (drop_pool t i)"
  shows "chain_ok t' xs b ys"
  using assms drop_hash_cong [of t' t] by (auto simp: chain_ok_def)

lemma chain_ok_upd [simp]:
  "chain_ok (t\<lparr>links := L\<rparr>) = chain_ok t" "chain_ok (t\<lparr>drop_used := u\<rparr>) = chain_ok t"
  "chain_ok (t\<lparr>drop_count := n\<rparr>) = chain_ok t"
  by (intro ext; simp add: chain_ok_def drop_hash_def)+

lemma u32_inc: "a < b \<Longrightarrow> unat (a + 1 :: u32) = Suc (unat a) \<and> a + 1 \<le> b"
proof -
  assume lt: "a < b"
  then have n: "unat a < unat b" by (simp add: word_less_nat_alt)
  then have "unat a + 1 < 2 ^ LENGTH(32)" using unsigned_less [of b, where ?'a = nat] by simp
  then have u: "unat (a + 1) = Suc (unat a)" by (simp add: unat_word_ariths)
  then show ?thesis using n by (simp add: word_le_nat_alt)
qed

lemma free_head:
  assumes rep: "tab_rep t xs (i # fs) []"
  shows "tab_rep (t\<lparr>links := vg_list_del (Rec i) (links t)\<rparr>) xs fs [i]"
proof -
  note d = tab_repD [OF rep]
  have f: "dll (links t) Free ([] @ Rec i # map Rec fs)" using d(2) by simp
  have "set (All # map Rec xs) \<inter> set (Free # [] @ Rec i # map Rec fs) = {}" using d(3) by auto
  then have "dll (vg_list_del (Rec i) (links t)) All (map Rec xs)" by (rule il.del_frame [OF f d(1)])
  moreover have "dll (vg_list_del (Rec i) (links t)) Free (map Rec fs)" using il.rep_del [OF f] by simp
  ultimately show ?thesis using rep by (auto simp: tab_rep_def)
qed

lemma alloc_rep:
  assumes rep: "tab_rep t xs fs []" and al: "drop_alloc t = (Some i, t')"
  shows "\<exists>fs'. tab_rep t' xs fs' [i]" and "drop_pool t' = drop_pool t"
    and "drop_pool_cap t' = drop_pool_cap t" and "drop_nbuckets t' = drop_nbuckets t"
proof -
  note d = tab_repD [OF rep]
  have "(\<exists>fs'. tab_rep t' xs fs' [i]) \<and> drop_pool t' = drop_pool t \<and>
    drop_pool_cap t' = drop_pool_cap t \<and> drop_nbuckets t' = drop_nbuckets t"
  proof (cases fs)
    case Nil
    then have e: "vg_list_empty Free (links t)" using il.rep_empty [OF d(2)] by simp
    with al have lt: "drop_used t < drop_pool_cap t" and i: "i = unat (drop_used t)"
      and t': "t' = t\<lparr>drop_used := drop_used t + 1\<rparr>"
      by (auto simp: drop_alloc_def split: if_splits)
    have "set xs = {..<unat (drop_used t)}" "distinct xs" using d(3,4) Nil by simp_all
    then have "tab_rep t' xs [] [i]"
      using rep Nil u32_inc [OF lt] unfolding t' i tab_rep_def
      by (auto simp: lessThan_Suc)
    then show ?thesis using t' by auto
  next
    case (Cons j js)
    then have "\<not> vg_list_empty Free (links t)" "next (links t) Free = Rec j"
      using il.rep_empty [OF d(2)] dll_first [of "links t" Free "Rec j"] d(2) by simp_all
    with al have "i = j" and t': "t' = t\<lparr>links := vg_list_del (Rec j) (links t)\<rparr>"
      by (auto simp: drop_alloc_def)
    then show ?thesis using free_head [of t xs j js] rep Cons by auto
  qed
  then show "\<exists>fs'. tab_rep t' xs fs' [i]" and "drop_pool t' = drop_pool t"
    and "drop_pool_cap t' = drop_pool_cap t" and "drop_nbuckets t' = drop_nbuckets t" by auto
qed

text \<open>An allocation fails only when every record of the pool is listed.\<close>

lemma alloc_none:
  assumes rep: "tab_rep t xs fs []" and al: "drop_alloc t = (None, t')"
  shows "t' = t" and "length xs = unat (drop_pool_cap t)"
proof -
  note d = tab_repD [OF rep]
  have "fs = []"
  proof (rule ccontr)
    assume "fs \<noteq> []"
    then obtain j js where "fs = j # js" by (cases fs) auto
    then show False using al il.rep_empty [OF d(2)] dll_first [of "links t" Free "Rec j"] d(2)
      by (simp add: drop_alloc_def Let_def)
  qed
  moreover have "vg_list_empty Free (links t)" using il.rep_empty [OF d(2)] calculation by simp
  ultimately show "t' = t" and "length xs = unat (drop_pool_cap t)"
    using al d(5,8) by (auto simp: drop_alloc_def split: if_splits)
qed

lemma release_rep:
  assumes rep: "tab_rep t xs fs [i]"
  shows "tab_rep (drop_release i t) xs (fs @ [i]) []"
proof -
  note d = tab_repD [OF rep]
  have new: "Rec i \<notin> set (Free # map Rec fs)" using d(3) by auto
  have "set (All # map Rec xs) \<inter> set (Rec i # Free # map Rec fs) = {}" using d(3) by auto
  then have "dll (vg_list_add_tail (Rec i) Free (links t)) All (map Rec xs)"
    by (rule il.add_frame [OF d(2,1) new])
  then show ?thesis using rep il.rep_add [OF d(2) new]
    by (auto simp: tab_rep_def drop_release_def)
qed

lemma reset_rep:
  assumes "\<exists>k < 32. drop_nbuckets t = 2 ^ k"
  shows "tab_rep (drops_reset t) [] [] []"
proof -
  have "dll (links (drops_reset t)) All [] \<and> dll (links (drops_reset t)) Free []"
    using il.init_two [of All Free "links t"] by (simp add: drops_reset_def Let_def)
  moreover have "chain_ok (drops_reset t) [] b []" if "b < unat (drop_nbuckets t)" for b
    using that by (simp add: chain_ok_def drops_reset_def)
  moreover have "drop_nbuckets (drops_reset t) = drop_nbuckets t" "drop_used (drops_reset t) = 0"
    "drop_count (drops_reset t) = 0"
    by (simp_all add: drops_reset_def Let_def)
  ultimately show ?thesis using assms by (auto simp: tab_rep_def)
qed

lemma init_rep:
  assumes "\<exists>k < 32. nb = 2 ^ k"
  shows "tab_rep (drop_tab_init cap nb) [] [] []"
proof -
  have "dll (links (drop_tab_init cap nb)) All [] \<and> dll (links (drop_tab_init cap nb)) Free []"
    using il.init_two [of All Free] by (simp add: drop_tab_init_def Let_def)
  then show ?thesis
    using assms by (auto simp: tab_rep_def drop_tab_init_def chain_ok_def intro: exI [of _ "[]"])
qed

lemma set_rec_rep:
  assumes "tab_rep t xs fs hs" and "cidr d = cidr (drop_pool t i)"
  shows "tab_rep (set_rec i d t) xs fs hs"
proof -
  have same: "cidr (drop_pool (set_rec i d t) j) = cidr (drop_pool t j)" for j
    using assms(2) by (simp add: set_rec_def)
  have hash: "drop_hash (set_rec i d t) = drop_hash t" by (rule ext) (simp add: set_rec_def drop_hash_def)
  have fields: "links (set_rec i d t) = links t" "hlinks (set_rec i d t) = hlinks t"
    "drop_used (set_rec i d t) = drop_used t" "drop_pool_cap (set_rec i d t) = drop_pool_cap t"
    "drop_nbuckets (set_rec i d t) = drop_nbuckets t" "drop_count (set_rec i d t) = drop_count t"
    by (simp_all add: set_rec_def)
  show ?thesis using assms(1) unfolding tab_rep_def chain_ok_def same hash fields .
qed

text \<open>Listing a new record puts it at the end of the list and at the head of its chain.\<close>

lemma link_chains:
  assumes rep: "tab_rep t xs fs [i]" and b: "b < unat (drop_nbuckets t)"
  shows "\<exists>ys. chain_ok (drop_link i d t) (xs @ [i]) b ys"
proof -
  let ?t = "drop_link i d t" and ?h = "unat (drop_hash t (cidr d))"
  note tr = tab_repD [OF rep]
  have hash: "drop_hash ?t = drop_hash t"
    by (rule ext) (simp add: drop_link_def Let_def drop_hash_def)
  have pool: "drop_pool ?t = (drop_pool t)(i := d)" by (simp add: drop_link_def Let_def)
  have hl: "hlinks ?t = vg_hlist_add_head i ?h (hlinks t)"
    by (simp add: drop_link_def Let_def drop_hash_def)
  have i: "i \<notin> set xs" using tr(3) by simp
  obtain ys where ys: "chain_ok t xs b ys" using tab_rep_chain [OF rep b] .
  obtain zs where zs: "chain_ok t xs ?h zs" using tab_rep_chain [OF rep tr(11)] .
  have sub: "set ys \<subseteq> set xs" "set zs \<subseteq> set xs" using ys zs by (auto simp: chain_ok_def)
  show ?thesis
  proof (cases "b = ?h")
    case True
    have "hchain (hlinks ?t) (Bucket ?h) (i # zs)"
      unfolding hl using zs sub i by (intro hchain_add_head) (auto simp: chain_ok_def)
    then have "chain_ok ?t (xs @ [i]) b (i # zs)"
      using True zs sub i unfolding chain_ok_def hash pool by auto
    then show ?thesis ..
  next
    case False
    have "hchain (hlinks ?t) (Bucket b) ys"
      unfolding hl
      by (rule hchain_add_head_frame [of _ _ zs]) (use False ys zs sub i in \<open>auto simp: chain_ok_def\<close>)
    then have "chain_ok ?t (xs @ [i]) b ys"
      using False ys sub i unfolding chain_ok_def hash pool by auto
    then show ?thesis ..
  qed
qed

lemma link_rep:
  assumes rep: "tab_rep t xs fs [i]" and wf: "cidr_wf (cidr d)"
    and new: "cidr d \<notin> (\<lambda>i. cidr (drop_pool t i)) ` set xs"
  shows "tab_rep (drop_link i d t) (xs @ [i]) fs []"
proof -
  note tr = tab_repD [OF rep]
  have fields: "links (drop_link i d t) = vg_list_add_tail (Rec i) All (links t)"
    "drop_used (drop_link i d t) = drop_used t" "drop_pool_cap (drop_link i d t) = drop_pool_cap t"
    "drop_nbuckets (drop_link i d t) = drop_nbuckets t" "drop_count (drop_link i d t) = drop_count t + 1"
    "drop_pool (drop_link i d t) = (drop_pool t)(i := d)"
    by (simp_all add: drop_link_def Let_def)
  have i: "i \<notin> set xs" "Rec i \<notin> set (All # map Rec xs)" using tr(3) by auto
  have "set (Free # map Rec fs) \<inter> set (Rec i # All # map Rec xs) = {}" using tr(3) by auto
  then have "dll (links (drop_link i d t)) Free (map Rec fs)"
    unfolding fields by (rule il.add_frame [OF tr(1,2) i(2)])
  moreover have "dll (links (drop_link i d t)) All (map Rec (xs @ [i]))"
    unfolding fields using il.rep_add [OF tr(1) i(2)] by simp
  moreover have "inj_on (\<lambda>j. cidr (drop_pool (drop_link i d t) j)) (set (xs @ [i]))"
  proof -
    have "inj_on (\<lambda>j. cidr (((drop_pool t)(i := d)) j)) (set xs)"
      using tr(10) by (rule inj_on_cong [THEN iffD1, rotated]) (use i in auto)
    moreover have "(\<lambda>j. cidr (((drop_pool t)(i := d)) j)) ` (set xs - {i}) =
        (\<lambda>j. cidr (drop_pool t j)) ` set xs"
      using i by (intro image_cong) auto
    ultimately show ?thesis using new by (simp add: fields)
  qed
  moreover have "cidr_wf (cidr (drop_pool (drop_link i d t) j))" if "j \<in> set (xs @ [i])" for j
    using that tr(9) wf unfolding fields by auto
  moreover have "distinct ((xs @ [i]) @ fs @ [])" "set ((xs @ [i]) @ fs @ []) = {..<unat (drop_used t)}"
    using tr(3,4) by auto
  ultimately show ?thesis
    using tr(7) fields by (intro tab_repI [OF rep] link_chains [OF rep]) (assumption | simp)+
qed

text \<open>Lifting a listed record moves it to the end of the free list.\<close>

lemma unlink_chains:
  assumes rep: "tab_rep t (as @ i # bs) fs hs" and b: "b < unat (drop_nbuckets t)"
  shows "\<exists>ys. chain_ok (drop_unlink i t) (as @ bs) b ys"
proof -
  let ?t = "drop_unlink i t" and ?h = "unat (drop_hash t (cidr (drop_pool t i)))"
  note tr = tab_repD [OF rep]
  have hash: "drop_hash ?t = drop_hash t"
    by (rule ext) (simp add: drop_unlink_def Let_def drop_hash_def)
  have pool: "drop_pool ?t = drop_pool t" by (simp add: drop_unlink_def Let_def)
  have hl: "hlinks ?t = vg_hlist_del i (hlinks t)" by (simp add: drop_unlink_def Let_def)
  have i: "i \<notin> set as" "i \<notin> set bs" using tr(3) by simp_all
  obtain ys where ys: "chain_ok t (as @ i # bs) b ys" using tab_rep_chain [OF rep b] .
  obtain zs where zs: "chain_ok t (as @ i # bs) ?h zs" using tab_rep_chain [OF rep tr(11)] .
  then have "i \<in> set zs" by (auto simp: chain_ok_def)
  then obtain us vs where sp: "zs = us @ i # vs" by (meson split_list)
  have d: "distinct (us @ i # vs)" "hchain (hlinks t) (Bucket ?h) (us @ i # vs)"
    using zs sp by (auto simp: chain_ok_def)
  show ?thesis
  proof (cases "b = ?h")
    case True
    have "hchain (hlinks ?t) (Bucket ?h) (us @ vs)"
      unfolding hl using d by (intro hchain_del) (auto simp: outer_def)
    moreover have "set (us @ vs) = set zs - {i}" using d(1) sp by auto
    ultimately have "chain_ok ?t (as @ bs) b (us @ vs)"
      using True zs d(1) i unfolding chain_ok_def hash pool by auto
    then show ?thesis ..
  next
    case False
    have "hchain (hlinks ?t) (Bucket b) ys"
      unfolding hl
      by (rule hchain_del_frame [OF d(2,1)]) (use False ys zs sp in \<open>auto simp: chain_ok_def\<close>)
    then have "chain_ok ?t (as @ bs) b ys"
      using False ys i unfolding chain_ok_def hash pool by auto
    then show ?thesis ..
  qed
qed

lemma unlink_rep:
  assumes rep: "tab_rep t (as @ i # bs) fs []"
  shows "tab_rep (drop_unlink i t) (as @ bs) (fs @ [i]) []"
proof -
  note tr = tab_repD [OF rep]
  have fields: "links (drop_unlink i t) = vg_list_add_tail (Rec i) Free (vg_list_del (Rec i) (links t))"
    "drop_used (drop_unlink i t) = drop_used t" "drop_pool_cap (drop_unlink i t) = drop_pool_cap t"
    "drop_nbuckets (drop_unlink i t) = drop_nbuckets t" "drop_count (drop_unlink i t) = drop_count t - 1"
    "drop_pool (drop_unlink i t) = drop_pool t"
    by (simp_all add: drop_unlink_def Let_def)
  have a: "dll (links t) All (map Rec as @ Rec i # map Rec bs)" using tr(1) by simp
  have disj: "set (Free # map Rec fs) \<inter> set (All # map Rec as @ Rec i # map Rec bs) = {}"
    using tr(3) by auto
  have "dll (links (drop_unlink i t)) All (map Rec (as @ bs))"
    "dll (links (drop_unlink i t)) Free (map Rec (fs @ [i]))"
    unfolding fields using il.move_tail [OF a tr(2) disj] by simp_all
  moreover have "inj_on (\<lambda>j. cidr (drop_pool t j)) (set (as @ bs))"
    using tr(10) by (rule inj_on_subset) auto
  moreover have "distinct ((as @ bs) @ (fs @ [i]) @ [])" "set ((as @ bs) @ (fs @ [i]) @ []) = {..<unat (drop_used t)}"
    using tr(3,4) by auto
  ultimately show ?thesis
    using tr(7,9) fields by (intro tab_repI [OF rep] unlink_chains [OF rep]) auto
qed

subsection \<open>The consistency check accepts every represented table\<close>

lemma check_list_rep:
  assumes rep: "tab_rep t (as @ ys) fs hs" and "length ys < fuel"
  shows "check_list fuel t (hd (map Rec ys @ [All])) (int (length as)) = Some (int (length (as @ ys)))"
  using assms
proof (induction ys arbitrary: as fuel)
  case Nil
  then show ?case by (cases fuel) simp_all
next
  case (Cons y ys)
  then obtain f where f: "fuel = Suc f" by (cases fuel) auto
  note tr = tab_repD [OF Cons.prems(1)]
  have a: "dll (links t) All (map Rec as @ Rec y # map Rec ys)" using tr(1) by simp
  have nx: "next (links t) (Rec y) = hd (map Rec ys @ [All])" using dll_split(2) [OF a] .
  have pv: "prev (links t) (hd (map Rec ys @ [All])) = Rec y"
  proof (cases ys)
    case Nil
    then have "prev (links t) All = last (All # map Rec as @ [Rec y])" using dll_last [OF a] by simp
    then show ?thesis using Nil by simp
  next
    case (Cons z zs)
    then have "dll (links t) All ((map Rec as @ [Rec y]) @ Rec z # map Rec zs)" using a by simp
    from dll_split(1) [OF this] show ?thesis using Cons by simp
  qed
  have y: "y < unat (drop_used t)" using tr(4) by auto
  have fi: "drops_find t (cidr (drop_pool t y)) = Some y"
    using find_rep [OF Cons.prems(1) tr(9)] by simp
  have "check_list f t (hd (map Rec ys @ [All])) (int (length (as @ [y]))) = Some (int (length ((as @ [y]) @ ys)))"
    using Cons.prems f by (intro Cons.IH) simp_all
  then show ?case using f nx pv y fi tr(7) by (simp add: add.commute)
qed

lemma check_chain_rep:
  assumes "hchain (hlinks t) s ys" "length ys < fuel" "hashed + int (length ys) \<le> drop_count t"
    and "\<forall>i \<in> set ys. drop_hash t (cidr (drop_pool t i)) = b"
  shows "check_chain fuel t b s hashed = Some (hashed + int (length ys))"
  using assms
proof (induction ys arbitrary: s fuel hashed)
  case Nil
  then show ?case by (cases fuel) simp_all
next
  case (Cons y ys)
  then obtain f where f: "fuel = Suc f" by (cases fuel) auto
  have "check_chain f t b (NextOf y) (hashed + 1) = Some ((hashed + 1) + int (length ys))"
    using Cons.prems f by (intro Cons.IH) auto
  then show ?case using Cons.prems f by simp
qed

lemma check_buckets_rep:
  assumes rep: "tab_rep t xs fs hs" and fuel: "fuel = Suc (unat (drop_used t))"
    and "distinct bs" "set bs \<subseteq> {..<unat (drop_nbuckets t)}"
    and "hashed + int (card {i \<in> set xs. unat (drop_hash t (cidr (drop_pool t i))) \<in> set bs}) \<le> drop_count t"
  shows "check_buckets fuel t bs hashed =
    Some (hashed + int (card {i \<in> set xs. unat (drop_hash t (cidr (drop_pool t i))) \<in> set bs}))"
  using assms(3-5)
proof (induction bs arbitrary: hashed)
  case Nil
  then show ?case by simp
next
  case (Cons b bs)
  let ?h = "\<lambda>i. unat (drop_hash t (cidr (drop_pool t i)))"
  obtain ys where ys: "chain_ok t xs b ys" using tab_rep_chain [OF rep, of b] Cons.prems(2) by auto
  then have sub: "set ys = {i \<in> set xs. ?h i = b}" and d: "distinct ys" by (auto simp: chain_ok_def)
  have split: "{i \<in> set xs. ?h i \<in> set (b # bs)} = set ys \<union> {i \<in> set xs. ?h i \<in> set bs}"
    using sub by auto
  have "set ys \<inter> {i \<in> set xs. ?h i \<in> set bs} = {}" using sub Cons.prems(1) by auto
  then have c: "card {i \<in> set xs. ?h i \<in> set (b # bs)} = length ys + card {i \<in> set xs. ?h i \<in> set bs}"
    unfolding split by (subst card_Un_disjoint) (simp_all add: distinct_card [OF d])
  have "card (set ys) \<le> card (set xs)" using sub by (intro card_mono) auto
  then have len: "length ys \<le> length xs" using d tab_repD(3) [OF rep] by (simp add: distinct_card)
  have hb: "\<forall>i \<in> set ys. drop_hash t (cidr (drop_pool t i)) = of_nat b"
    using sub by auto
  have "check_chain fuel t (of_nat b) (Bucket b) hashed = Some (hashed + int (length ys))"
  proof (rule check_chain_rep)
    show "hchain (hlinks t) (Bucket b) ys" using ys by (simp add: chain_ok_def)
    show "length ys < fuel" using len fuel tab_repD(6) [OF rep] by simp
    show "hashed + int (length ys) \<le> drop_count t" using Cons.prems(3) unfolding c by simp
  qed (fact hb)
  moreover have "check_buckets fuel t bs (hashed + int (length ys)) =
      Some ((hashed + int (length ys)) + int (card {i \<in> set xs. ?h i \<in> set bs}))"
  proof (rule Cons.IH)
    show "distinct bs" "set bs \<subseteq> {..<unat (drop_nbuckets t)}" using Cons.prems(1,2) by simp_all
    show "hashed + int (length ys) + int (card {i \<in> set xs. ?h i \<in> set bs}) \<le> drop_count t"
      using Cons.prems(3) unfolding c by simp
  qed
  ultimately show ?case unfolding c by simp
qed

lemma drops_check_rep:
  assumes rep: "tab_rep t xs fs hs"
  shows "vg_ctrl_drops_check t = 0"
proof -
  let ?f = "Suc (unat (drop_used t))"
  note tr = tab_repD [OF rep]
  have "next (links t) All = hd (map Rec xs @ [All])"
    using tr(1) by (cases xs) (simp_all add: dll_def)
  then have l: "check_list ?f t (next (links t) All) 0 = Some (drop_count t)"
    using check_list_rep [of t "[]" xs fs hs ?f] rep tr(6,7) by simp
  have all: "{i \<in> set xs. unat (drop_hash t (cidr (drop_pool t i))) \<in> set [0..<unat (drop_nbuckets t)]} = set xs"
    using tr(11) by auto
  have "card (set xs) = length xs" using tr(3) by (simp add: distinct_card)
  then have "check_buckets ?f t [0..<unat (drop_nbuckets t)] 0 = Some (drop_count t)"
    using check_buckets_rep [OF rep refl, of "[0..<unat (drop_nbuckets t)]" 0] tr(7) unfolding all
    by (simp add: atLeast0LessThan)
  with l show ?thesis by (simp add: vg_ctrl_drops_check_def del: check_list.simps)
qed

subsection \<open>The contract of the drop table\<close>

text \<open>
  What \<open>drop_add\<close>, \<open>drop_remove\<close> and the walks rely on, in terms of the record numbers on the list
  (\<open>xs\<close>), on the free list (\<open>fs\<close>) and in hand (\<open>hs\<close>). The lemmas of the locale combine the calls the
  way these routines do and state the result on the list of records.
\<close>

locale drop_store =
  fixes rep :: "'t \<Rightarrow> nat list \<Rightarrow> nat list \<Rightarrow> nat list \<Rightarrow> bool"
    and pool :: "'t \<Rightarrow> nat \<Rightarrow> vg_drop_rec"
    and find :: "'t \<Rightarrow> vg_cidr \<Rightarrow> nat option"
    and alloc :: "'t \<Rightarrow> nat option \<times> 't"
    and release :: "nat \<Rightarrow> 't \<Rightarrow> 't"
    and link :: "nat \<Rightarrow> vg_drop_rec \<Rightarrow> 't \<Rightarrow> 't"
    and unlink :: "nat \<Rightarrow> 't \<Rightarrow> 't"
    and replace :: "nat \<Rightarrow> vg_drop_rec \<Rightarrow> 't \<Rightarrow> 't"
  assumes rep_ids: "rep t xs fs hs \<Longrightarrow> distinct (xs @ fs @ hs)"
    and rep_inj: "rep t xs fs hs \<Longrightarrow> inj_on (\<lambda>i. cidr (pool t i)) (set xs)"
    and find_none: "rep t xs fs hs \<Longrightarrow> cidr_wf p \<Longrightarrow>
      find t p = None \<longleftrightarrow> p \<notin> (\<lambda>i. cidr (pool t i)) ` set xs"
    and alloc_some: "rep t xs fs [] \<Longrightarrow> alloc t = (Some i, t') \<Longrightarrow> \<exists>fs'. rep t' xs fs' [i]"
    and alloc_pool: "rep t xs fs [] \<Longrightarrow> alloc t = (Some i, t') \<Longrightarrow> pool t' = pool t"
    and rep_release: "rep t xs fs [i] \<Longrightarrow> rep (release i t) xs (fs @ [i]) []"
    and release_pool: "pool (release i t) = pool t"
    and rep_link: "rep t xs fs [i] \<Longrightarrow> cidr_wf (cidr d) \<Longrightarrow>
      cidr d \<notin> (\<lambda>i. cidr (pool t i)) ` set xs \<Longrightarrow> rep (link i d t) (xs @ [i]) fs []"
    and link_pool: "pool (link i d t) = (pool t)(i := d)"
    and rep_unlink: "rep t (as @ i # bs) fs [] \<Longrightarrow> rep (unlink i t) (as @ bs) (fs @ [i]) []"
    and unlink_pool: "pool (unlink i t) = pool t"
    and rep_replace: "rep t xs fs hs \<Longrightarrow> cidr d = cidr (pool t i) \<Longrightarrow> rep (replace i d t) xs fs hs"
    and replace_pool: "pool (replace i d t) = (pool t)(i := d)"
begin

lemma add_new:
  assumes rep: "rep t xs fs []" and nf: "find t (cidr d) = None" and al: "alloc t = (Some i, t')"
    and wf: "cidr_wf (cidr d)"
  shows "\<exists>fs'. rep (link i d t') (xs @ [i]) fs' []"
    and "map (pool (link i d t')) (xs @ [i]) = map (pool t) xs @ [d]"
proof -
  obtain fs' where r: "rep t' xs fs' [i]" using alloc_some [OF rep al] by blast
  have p: "pool t' = pool t" using alloc_pool [OF rep al] .
  have "cidr d \<notin> (\<lambda>i. cidr (pool t' i)) ` set xs"
    using find_none [OF rep wf] nf p by simp
  from rep_link [OF r wf this] show "\<exists>fs'. rep (link i d t') (xs @ [i]) fs' []" by blast
  show "map (pool (link i d t')) (xs @ [i]) = map (pool t) xs @ [d]"
    using rep_ids [OF r] by (simp add: link_pool p)
qed

lemma give_back:
  assumes rep: "rep t xs fs []" and al: "alloc t = (Some i, t')"
  shows "\<exists>fs'. rep (release i t') xs fs' []" and "map (pool (release i t')) xs = map (pool t) xs"
  using alloc_some [OF rep al] alloc_pool [OF rep al] by (blast intro: rep_release, simp add: release_pool)

lemma lift:
  assumes rep: "rep t xs fs []" and i: "i \<in> set xs"
  shows "\<exists>fs'. rep (unlink i t) (remove1 i xs) fs' []"
    and "map (pool (unlink i t)) (remove1 i xs) =
      filter (\<lambda>r. cidr r \<noteq> cidr (pool t i)) (map (pool t) xs)"
proof -
  obtain as bs where xs: "xs = as @ i # bs" using i by (meson split_list)
  have d: "i \<notin> set as" "i \<notin> set bs" using rep_ids [OF rep] xs by simp_all
  then have rm: "remove1 i xs = as @ bs" by (simp add: xs remove1_append)
  show "\<exists>fs'. rep (unlink i t) (remove1 i xs) fs' []"
    using rep_unlink [of t as i bs fs] rep rm xs by auto
  have "cidr (pool t j) \<noteq> cidr (pool t i)" if "j \<in> set (as @ bs)" for j
  proof
    assume "cidr (pool t j) = cidr (pool t i)"
    then have "j = i" using inj_onD [OF rep_inj [OF rep]] that xs by simp
    then show False using that d by simp
  qed
  then have "filter (\<lambda>r. cidr r \<noteq> cidr (pool t i)) (map (pool t) (as @ bs)) = map (pool t) (as @ bs)"
    by (intro filter_True) auto
  then show "map (pool (unlink i t)) (remove1 i xs) =
      filter (\<lambda>r. cidr r \<noteq> cidr (pool t i)) (map (pool t) xs)"
    unfolding rm by (simp add: xs unlink_pool)
qed

lemma replaced:
  assumes rep: "rep t xs fs []" and i: "i \<in> set xs" and c: "cidr d = cidr (pool t i)"
  shows "rep (replace i d t) xs fs []"
    and "map (pool (replace i d t)) xs = map (\<lambda>r. if cidr r = cidr d then d else r) (map (pool t) xs)"
  using rep_replace [OF rep c] rep_inj [OF rep] i c by (auto simp: replace_pool dest: inj_onD)

end

interpretation dt: drop_store tab_rep drop_pool drops_find drop_alloc drop_release drop_link
  drop_unlink set_rec
  by unfold_locales
    (fact tab_repD(3) tab_repD(10) find_none alloc_rep(1) alloc_rep(2) release_rep link_rep unlink_rep
      set_rec_rep
     | simp add: drop_release_def drop_link_def drop_unlink_def set_rec_def Let_def)+

subsection \<open>The table as a list of records\<close>

lemma tab_okI: "tab_rep t xs fs [] \<Longrightarrow> tab_ok t \<and> drops t = map (drop_pool t) xs"
  using tab_rep_ids by (auto simp: tab_ok_def drops_def)

lemma tab_find:
  assumes "tab_ok t" "cidr_wf p" "drops_find t p = Some i"
  shows "i \<in> set (drop_ids t)" "cidr (drop_pool t i) = p"
  using assms find_rep by (auto simp: tab_ok_def)

lemma tab_find_none:
  "tab_ok t \<Longrightarrow> cidr_wf p \<Longrightarrow> drops_find t p = None \<longleftrightarrow> p \<notin> cidr ` set (drops t)"
  using find_none by (auto simp: tab_ok_def drops_def image_image)

lemma tab_add:
  assumes "tab_ok t" "drops_find t (cidr d) = None" "drop_alloc t = (Some i, t')" "cidr_wf (cidr d)"
  shows "tab_ok (drop_link i d t')" "drops (drop_link i d t') = drops t @ [d]"
proof -
  obtain fs where r: "tab_rep t (drop_ids t) fs []" using assms(1) by (auto simp: tab_ok_def)
  from dt.add_new [OF r assms(2-4)] show "tab_ok (drop_link i d t')" "drops (drop_link i d t') = drops t @ [d]"
    using tab_okI by (auto simp: drops_def [of t])
qed

lemma tab_release:
  assumes "tab_ok t" "drop_alloc t = (Some i, t')"
  shows "tab_ok (drop_release i t')" "drops (drop_release i t') = drops t"
proof -
  obtain fs where r: "tab_rep t (drop_ids t) fs []" using assms(1) by (auto simp: tab_ok_def)
  from dt.give_back [OF r assms(2)] show "tab_ok (drop_release i t')" "drops (drop_release i t') = drops t"
    using tab_okI by (auto simp: drops_def [of t])
qed

lemma tab_full:
  assumes "tab_ok t" "drop_alloc t = (None, t')"
  shows "t' = t" "length (drops t) = unat (drop_pool_cap t)"
  using assms alloc_none by (auto simp: tab_ok_def drops_def)

lemma tab_unlink:
  assumes "tab_ok t" "i \<in> set (drop_ids t)"
  shows "tab_ok (drop_unlink i t)"
    "drops (drop_unlink i t) = filter (\<lambda>r. cidr r \<noteq> cidr (drop_pool t i)) (drops t)"
    "drop_ids (drop_unlink i t) = remove1 i (drop_ids t)"
proof -
  obtain fs where r: "tab_rep t (drop_ids t) fs []" using assms(1) by (auto simp: tab_ok_def)
  obtain fs' where r': "tab_rep (drop_unlink i t) (remove1 i (drop_ids t)) fs' []"
    using dt.lift(1) [OF r assms(2)] by blast
  then show "tab_ok (drop_unlink i t)" "drop_ids (drop_unlink i t) = remove1 i (drop_ids t)"
    using tab_okI tab_rep_ids by blast+
  show "drops (drop_unlink i t) = filter (\<lambda>r. cidr r \<noteq> cidr (drop_pool t i)) (drops t)"
    using tab_okI [OF r'] dt.lift(2) [OF r assms(2)] by (simp add: drops_def [of t])
qed

lemma tab_set_rec:
  assumes "tab_ok t" "i \<in> set (drop_ids t)" "cidr d = cidr (drop_pool t i)"
  shows "tab_ok (set_rec i d t)"
    "drops (set_rec i d t) = map (\<lambda>r. if cidr r = cidr d then d else r) (drops t)"
proof -
  obtain fs where r: "tab_rep t (drop_ids t) fs []" using assms(1) by (auto simp: tab_ok_def)
  from dt.replaced [OF r assms(2,3)]
  show "tab_ok (set_rec i d t)"
    "drops (set_rec i d t) = map (\<lambda>r. if cidr r = cidr d then d else r) (drops t)"
    using tab_okI by (simp_all add: drops_def [of t])
qed

lemma tab_reset: "tab_ok t \<Longrightarrow> tab_ok (drops_reset t) \<and> drops (drops_reset t) = []"
proof -
  assume "tab_ok t"
  then have "\<exists>k < 32. drop_nbuckets t = 2 ^ k" unfolding tab_ok_def tab_rep_def by blast
  from tab_okI [OF reset_rep [OF this]] show ?thesis by simp
qed

lemma tab_init: "\<exists>k < 32. nb = 2 ^ k \<Longrightarrow> tab_ok (drop_tab_init cap nb) \<and> drops (drop_tab_init cap nb) = []"
  using tab_okI [OF init_rep] by simp

lemma tab_facts:
  assumes "tab_ok t"
  shows "distinct (drop_ids t)" "distinct (map cidr (drops t))" "drop_count t = int (length (drops t))"
    "length (drops t) \<le> unat (drop_pool_cap t)" "\<And>r. r \<in> set (drops t) \<Longrightarrow> cidr_wf (cidr r)"
proof -
  obtain fs where r: "tab_rep t (drop_ids t) fs []" using assms(1) by (auto simp: tab_ok_def)
  note tr = tab_repD [OF r]
  show d: "distinct (drop_ids t)" using tr(3) by simp
  show "distinct (map cidr (drops t))" using d tr(10) by (simp add: drops_def distinct_map comp_def)
  show "drop_count t = int (length (drops t))" using tr(7) by (simp add: drops_def)
  show "length (drops t) \<le> unat (drop_pool_cap t)"
    using tr(6,8) by (simp add: drops_def word_le_nat_alt)
  show "cidr_wf (cidr r)" if "r \<in> set (drops t)" for r using that tr(9) by (auto simp: drops_def)
qed

lemma tab_set_fun:
  assumes ok: "tab_ok t" and i: "i \<in> set (drop_ids t)" and c: "\<And>r. cidr (f r) = cidr r"
  shows "tab_ok (set_rec i (f (drop_pool t i)) t)"
    "drops (set_rec i (f (drop_pool t i)) t) =
      map (\<lambda>r. if cidr r = cidr (drop_pool t i) then f r else r) (drops t)"
proof -
  note s = tab_set_rec [OF ok i, of "f (drop_pool t i)"]
  show "tab_ok (set_rec i (f (drop_pool t i)) t)" using s(1) c by simp
  have d: "drop_pool t i \<in> set (drops t)" using i by (simp add: drops_def)
  have "r = drop_pool t i" if "r \<in> set (drops t)" "cidr r = cidr (drop_pool t i)" for r
    using that d tab_facts(2) [OF ok] by (auto simp: distinct_map dest: inj_onD)
  then show "drops (set_rec i (f (drop_pool t i)) t) =
      map (\<lambda>r. if cidr r = cidr (drop_pool t i) then f r else r) (drops t)"
    using s(2) c by (auto intro!: map_cong)
qed

lemma set_rec_ids: "tab_ok t \<Longrightarrow> i \<in> set (drop_ids t) \<Longrightarrow> cidr d = cidr (drop_pool t i) \<Longrightarrow>
    drop_ids (set_rec i d t) = drop_ids t"
  by (simp add: drop_ids_def set_rec_def)

end
