(* ===== verification/Snap.thy ===== *)
theory Snap
  imports DropTable
begin

section \<open>Rate snapshots: the snapshot pool of policy.c\<close>

text \<open>
  The counters last seen of every remote, kept in a pool of \<open>snap_cap\<close> entries chained in 4096
  buckets, with a chain of free entries. An entry is its index in the pool, a NULL pointer is
  \<open>None\<close>. A free entry's \<open>family\<close> is never read (the model uses \<open>AF_INET\<close> for the zero of
  \<open>calloc\<close>). \<open>snap_rep t C fs\<close> says that bucket \<open>b\<close> holds the entries \<open>C b\<close> and the free chain
  \<open>fs\<close>.
\<close>

definition VG_SNAP_BUCKETS :: nat where [simp]: "VG_SNAP_BUCKETS = 4096"

record vg_snap_ent =
  s_family :: family
  s_addr :: bytes
  s_in_pkts :: u64
  s_in_bytes :: u64
  gen :: u32
  s_next :: "nat option"

record snap_tab =
  snap_pool :: "nat \<Rightarrow> vg_snap_ent"
  snap_free :: "nat option"
  snaps :: "nat \<Rightarrow> nat option"
  snap_cap :: u32
  snap_gen :: u32

definition snap_hash :: "family \<Rightarrow> bytes \<Rightarrow> nat" where
  "snap_hash fam a =
     (let h = AF_num fam * 16777619;
          n = (if fam = AF_INET then 4 else 16)
      in unat (hash_bytes h (take n a)) mod VG_SNAP_BUCKETS)"

definition set_ent :: "nat \<Rightarrow> vg_snap_ent \<Rightarrow> snap_tab \<Rightarrow> snap_tab" where
  "set_ent i e t = t\<lparr>snap_pool := (snap_pool t)(i := e)\<rparr>"

fun reset_loop :: "nat \<Rightarrow> nat \<Rightarrow> snap_tab \<Rightarrow> snap_tab" where
  "reset_loop 0 i t = t"
| "reset_loop (Suc n) i t =
     (let t = set_ent i ((snap_pool t i)\<lparr>gen := 0\<rparr>) t;
          t = set_ent i ((snap_pool t i)\<lparr>s_next :=
                if i + 1 < unat (snap_cap t) then Some (i + 1) else None\<rparr>) t
      in reset_loop n (i + 1) t)"

definition snap_reset_pool :: "snap_tab \<Rightarrow> snap_tab" where
  "snap_reset_pool t =
     (let t = t\<lparr>snaps := (\<lambda>b. if b < VG_SNAP_BUCKETS then None else snaps t b)\<rparr>;
          t = t\<lparr>snap_free := None\<rparr>
      in if snap_cap t = 0 then t
         else (let t = reset_loop (unat (snap_cap t)) 0 t in t\<lparr>snap_free := Some 0\<rparr>))"

definition snap_clear :: "snap_tab \<Rightarrow> snap_tab" where
  "snap_clear t = snap_reset_pool t"

text \<open>
  \<open>snap_prune\<close> walks with the address of the pointer to the current entry, a bucket head or an
  entry's \<open>next\<close> field. Each step removes an entry from the chain or passes one, so the pool size
  bounds the steps of a bucket.
\<close>

fun read_link :: "snap_tab \<Rightarrow> hslot \<Rightarrow> nat option" where
  "read_link t (Bucket b) = snaps t b"
| "read_link t (NextOf e) = s_next (snap_pool t e)"

fun write_link :: "hslot \<Rightarrow> nat option \<Rightarrow> snap_tab \<Rightarrow> snap_tab" where
  "write_link (Bucket b) v t = t\<lparr>snaps := (snaps t)(b := v)\<rparr>"
| "write_link (NextOf e) v t = set_ent e ((snap_pool t e)\<lparr>s_next := v\<rparr>) t"

fun prune_loop :: "nat \<Rightarrow> hslot \<Rightarrow> snap_tab \<Rightarrow> snap_tab" where
  "prune_loop 0 l t = t"
| "prune_loop (Suc fuel) l t =
     (case read_link t l of
        None \<Rightarrow> t
      | Some e \<Rightarrow>
          if gen (snap_pool t e) \<noteq> snap_gen t then
            (let t = write_link l (s_next (snap_pool t e)) t;
                 t = set_ent e ((snap_pool t e)\<lparr>gen := 0\<rparr>) t;
                 t = set_ent e ((snap_pool t e)\<lparr>s_next := snap_free t\<rparr>) t;
                 t = t\<lparr>snap_free := Some e\<rparr>
             in prune_loop fuel l t)
          else prune_loop fuel (NextOf e) t)"

fun prune_buckets :: "nat list \<Rightarrow> snap_tab \<Rightarrow> snap_tab" where
  "prune_buckets [] t = t"
| "prune_buckets (b # bs) t = prune_buckets bs (prune_loop (Suc (unat (snap_cap t))) (Bucket b) t)"

definition snap_prune :: "snap_tab \<Rightarrow> snap_tab" where
  "snap_prune t = prune_buckets [0..<VG_SNAP_BUCKETS] t"

fun snap_find :: "nat \<Rightarrow> snap_tab \<Rightarrow> family \<Rightarrow> bytes \<Rightarrow> nat option \<Rightarrow> nat option" where
  "snap_find 0 t fam a e = None"
| "snap_find (Suc fuel) t fam a None = None"
| "snap_find (Suc fuel) t fam a (Some e) =
     (if s_family (snap_pool t e) = fam \<and>
         take (if fam = AF_INET then 4 else 16) (s_addr (snap_pool t e)) =
         take (if fam = AF_INET then 4 else 16) a
      then Some e
      else snap_find fuel t fam a (s_next (snap_pool t e)))"

definition snap_get :: "snap_tab \<Rightarrow> family \<Rightarrow> bytes \<Rightarrow> nat option \<times> bool \<times> snap_tab" where
  "snap_get t fam a =
     (let h = snap_hash fam a;
          n = (if fam = AF_INET then 4 else 16)
      in case snap_find (Suc (unat (snap_cap t))) t fam a (snaps t h) of
           Some e \<Rightarrow> (Some e, False, set_ent e ((snap_pool t e)\<lparr>gen := snap_gen t\<rparr>) t)
         | None \<Rightarrow>
             (case snap_free t of
                None \<Rightarrow> (None, False, t)
              | Some e \<Rightarrow>
                  (let t = t\<lparr>snap_free := s_next (snap_pool t e)\<rparr>;
                       ent = (snap_pool t e)\<lparr>s_family := fam,
                               s_addr := take n a @ drop n (s_addr (snap_pool t e)),
                               s_in_pkts := 0, s_in_bytes := 0, gen := snap_gen t,
                               s_next := snaps t h\<rparr>;
                       t = set_ent e ent t;
                       t = t\<lparr>snaps := (snaps t)(h := Some e)\<rparr>
                   in (Some e, True, t))))"

fun count_chain :: "nat \<Rightarrow> snap_tab \<Rightarrow> nat option \<Rightarrow> nat" where
  "count_chain 0 t e = 0"
| "count_chain (Suc fuel) t None = 0"
| "count_chain (Suc fuel) t (Some e) = Suc (count_chain fuel t (s_next (snap_pool t e)))"

definition vg_ctrl_snap_count :: "snap_tab \<Rightarrow> u32" where
  "vg_ctrl_snap_count t =
     of_nat (\<Sum>b \<leftarrow> [0..<VG_SNAP_BUCKETS]. count_chain (Suc (unat (snap_cap t))) t (snaps t b))"

subsection \<open>Representation\<close>

fun schain :: "(nat \<Rightarrow> nat option) \<Rightarrow> nat option \<Rightarrow> nat list \<Rightarrow> bool" where
  "schain nx h [] = (h = None)"
| "schain nx h (x # xs) = (h = Some x \<and> schain nx (nx x) xs)"

definition nxt :: "snap_tab \<Rightarrow> nat \<Rightarrow> nat option" where
  "nxt t i = s_next (snap_pool t i)"

definition skey :: "snap_tab \<Rightarrow> nat \<Rightarrow> family \<times> bytes" where
  "skey t i = (let e = snap_pool t i in (s_family e, take (nbytes (s_family e)) (s_addr e)))"

definition snap_rep :: "snap_tab \<Rightarrow> (nat \<Rightarrow> nat list) \<Rightarrow> nat list \<Rightarrow> bool" where
  "snap_rep t C fs \<longleftrightarrow>
     (\<forall>b < VG_SNAP_BUCKETS. schain (nxt t) (snaps t b) (C b) \<and> distinct (C b) \<and> set (C b) \<inter> set fs = {}) \<and>
     (\<forall>b < VG_SNAP_BUCKETS. \<forall>i \<in> set (C b). snap_hash (fst (skey t i)) (snd (skey t i)) = b) \<and>
     (\<forall>b < VG_SNAP_BUCKETS. inj_on (skey t) (set (C b))) \<and>
     schain (nxt t) (snap_free t) fs \<and> distinct fs \<and>
     (\<Union>b < VG_SNAP_BUCKETS. set (C b)) \<union> set fs = {..<unat (snap_cap t)}"

text \<open>The snapshots taken: the counters last stored under each address.\<close>

definition snap_ent :: "snap_tab \<Rightarrow> family \<Rightarrow> bytes \<Rightarrow> vg_snap_ent option" where
  "snap_ent t fam a =
     map_option (snap_pool t) (snap_find (Suc (unat (snap_cap t))) t fam a (snaps t (snap_hash fam a)))"

definition snap_of :: "snap_tab \<Rightarrow> family \<Rightarrow> bytes \<Rightarrow> (u64 \<times> u64) option" where
  "snap_of t fam a = map_option (\<lambda>e. (s_in_pkts e, s_in_bytes e)) (snap_ent t fam a)"

definition snap_ok :: "snap_tab \<Rightarrow> bool" where
  "snap_ok t \<longleftrightarrow> (\<exists>C fs. snap_rep t C fs)"

lemma set_ent_fields [simp]:
  "snap_pool (set_ent i e t) = (snap_pool t)(i := e)" "snaps (set_ent i e t) = snaps t"
  "snap_free (set_ent i e t) = snap_free t" "snap_cap (set_ent i e t) = snap_cap t"
  "snap_gen (set_ent i e t) = snap_gen t"
  by (simp_all add: set_ent_def)

lemma schain_cong:
  "schain nx h xs \<Longrightarrow> (\<And>x. x \<in> set xs \<Longrightarrow> nx' x = nx x) \<Longrightarrow> schain nx' h xs"
  by (induction xs arbitrary: h) auto

lemma schain_head: "schain nx h xs \<Longrightarrow> h = (case xs of [] \<Rightarrow> None | x # _ \<Rightarrow> Some x)"
  by (cases xs) auto

lemma snap_hash_take: "snap_hash fam (take (nbytes fam) a) = snap_hash fam a"
  by (simp add: snap_hash_def nbytes_def)

lemma snap_hash_less: "snap_hash fam a < VG_SNAP_BUCKETS"
  by (simp add: snap_hash_def Let_def)

lemma snap_repD:
  assumes "snap_rep t C fs" and "b < VG_SNAP_BUCKETS"
  shows "schain (nxt t) (snaps t b) (C b)" "distinct (C b)" "set (C b) \<inter> set fs = {}"
    "\<And>i. i \<in> set (C b) \<Longrightarrow> snap_hash (fst (skey t i)) (snd (skey t i)) = b"
    "inj_on (skey t) (set (C b))" "length (C b) \<le> unat (snap_cap t)"
proof -
  have "set (C b) \<subseteq> {..<unat (snap_cap t)}" using assms unfolding snap_rep_def by blast
  then have "card (set (C b)) \<le> unat (snap_cap t)"
    using card_mono [OF finite_lessThan, of "set (C b)" "unat (snap_cap t)"] by simp
  moreover show "distinct (C b)" using assms by (simp add: snap_rep_def)
  ultimately show "length (C b) \<le> unat (snap_cap t)" by (simp add: distinct_card)
qed (use assms in \<open>simp_all add: snap_rep_def\<close>)

lemma snap_disjoint:
  assumes "snap_rep t C fs" "b < VG_SNAP_BUCKETS" "b' < VG_SNAP_BUCKETS" "b \<noteq> b'"
  shows "set (C b) \<inter> set (C b') = {}"
  using snap_repD(4) [OF assms(1,2)] snap_repD(4) [OF assms(1,3)] assms(4) by blast

lemma snap_find_chain:
  assumes "schain (nxt t) h ys" and "length ys < fuel"
  shows "snap_find fuel t fam a h = find (\<lambda>i. skey t i = (fam, take (nbytes fam) a)) ys"
  using assms
proof (induction ys arbitrary: h fuel)
  case Nil
  then show ?case by (cases fuel) simp_all
next
  case (Cons y ys)
  then obtain f where f: "fuel = Suc f" by (cases fuel) auto
  have "snap_find f t fam a (nxt t y) = find (\<lambda>i. skey t i = (fam, take (nbytes fam) a)) ys"
    using Cons.prems f by (intro Cons.IH) simp_all
  then show ?case using Cons.prems f by (auto simp: skey_def nxt_def nbytes_def Let_def)
qed

lemma snap_find_rep:
  assumes rep: "snap_rep t C fs"
  shows "snap_find (Suc (unat (snap_cap t))) t fam a (snaps t (snap_hash fam a)) =
    find (\<lambda>i. skey t i = (fam, take (nbytes fam) a)) (C (snap_hash fam a))"
  using snap_repD [OF rep snap_hash_less] by (intro snap_find_chain) (simp_all add: less_Suc_eq_le)

text \<open>\<open>snap_get\<close> finds the entry of the address, or chains a free one for it.\<close>

lemma skey_gen: "skey (set_ent e ((snap_pool t e)\<lparr>gen := g\<rparr>) t) = skey t"
  "nxt (set_ent e ((snap_pool t e)\<lparr>gen := g\<rparr>) t) = nxt t"
  by (auto simp: skey_def nxt_def fun_eq_iff Let_def)

lemma snap_get_old:
  assumes rep: "snap_rep t C fs" and g: "snap_get t fam a = (Some e, False, t')"
  shows "e \<in> set (C (snap_hash fam a))" "skey t e = (fam, take (nbytes fam) a)" "snap_rep t' C fs"
    "t' = set_ent e ((snap_pool t e)\<lparr>gen := snap_gen t\<rparr>) t"
proof -
  have f: "find (\<lambda>i. skey t i = (fam, take (nbytes fam) a)) (C (snap_hash fam a)) = Some e"
    and t': "t' = set_ent e ((snap_pool t e)\<lparr>gen := snap_gen t\<rparr>) t"
    using g snap_find_rep [OF rep, of fam a]
    by (auto simp: snap_get_def Let_def simp del: snap_find.simps split: option.splits)
  then show "e \<in> set (C (snap_hash fam a))" "skey t e = (fam, take (nbytes fam) a)"
    by (auto simp: find_Some_iff)
  show "snap_rep t' C fs" using rep unfolding snap_rep_def t' skey_gen by simp
qed (use g in \<open>auto simp: snap_get_def Let_def simp del: snap_find.simps split: option.splits\<close>)

lemma snap_get_none:
  assumes rep: "snap_rep t C fs" and g: "snap_get t fam a = (None, cr, t')"
  shows "t' = t" "fs = []"
  using g rep schain_head [of "nxt t" "snap_free t" fs]
  by (auto simp: snap_get_def Let_def snap_rep_def simp del: snap_find.simps split: option.splits list.splits)

lemma snap_get_fields:
  assumes "snap_get t fam a = (r, cr, t')"
  shows "snap_cap t' = snap_cap t" "snap_gen t' = snap_gen t"
  using assms by (auto simp: snap_get_def Let_def simp del: snap_find.simps split: option.splits)

lemma snap_get_new:
  assumes rep: "snap_rep t C fs" and g: "snap_get t fam a = (Some e, True, t')"
    and len: "length a = nbytes fam"
  shows "\<exists>fs'. fs = e # fs' \<and> snap_rep t' (C(snap_hash fam a := e # C (snap_hash fam a))) fs'"
    and "skey t' e = (fam, a)" and "(fam, a) \<notin> skey t ` set (C (snap_hash fam a))"
    and "\<And>i. i \<noteq> e \<Longrightarrow> snap_pool t' i = snap_pool t i"
proof -
  let ?h = "snap_hash fam a"
  have f: "find (\<lambda>i. skey t i = (fam, a)) (C ?h) = None" and fr: "snap_free t = Some e"
    using g snap_find_rep [OF rep, of fam a] len
    by (auto simp: snap_get_def Let_def simp del: snap_find.simps split: option.splits)
  show new: "(fam, a) \<notin> skey t ` set (C ?h)" using f by (auto simp: find_None_iff)
  have "snap_find (Suc (unat (snap_cap t))) t fam a (snaps t ?h) = None"
    using snap_find_rep [OF rep, of fam a] f len by simp
  then have t': "t' = (set_ent e ((snap_pool t e)\<lparr>s_family := fam,
        s_addr := take (nbytes fam) a @ drop (nbytes fam) (s_addr (snap_pool t e)),
        s_in_pkts := 0, s_in_bytes := 0, gen := snap_gen t, s_next := snaps t ?h\<rparr>)
      (t\<lparr>snap_free := s_next (snap_pool t e)\<rparr>))\<lparr>snaps := (snaps t)(?h := Some e)\<rparr>"
    using g fr by (simp add: snap_get_def Let_def nbytes_def del: snap_find.simps split: if_splits)
  show oth: "\<And>i. i \<noteq> e \<Longrightarrow> snap_pool t' i = snap_pool t i" unfolding t' by simp
  then have same: "\<And>i. i \<noteq> e \<Longrightarrow> skey t' i = skey t i" "\<And>i. i \<noteq> e \<Longrightarrow> nxt t' i = nxt t i"
    by (simp_all add: skey_def nxt_def)
  show key: "skey t' e = (fam, a)" unfolding t' using len by (simp add: skey_def)
  have ne: "nxt t' e = snaps t ?h" unfolding t' by (simp add: nxt_def)
  obtain fs' where fs: "fs = e # fs'" and fch: "schain (nxt t) (nxt t e) fs'"
    using rep fr by (cases fs) (auto simp: snap_rep_def)
  have d: "e \<notin> set fs'" "distinct fs'" using rep fs by (auto simp: snap_rep_def)
  let ?C = "C(?h := e # C ?h)"
  have out: "e \<notin> set (C b)" if "b < VG_SNAP_BUCKETS" for b
    using snap_repD(3) [OF rep that] fs by auto
  have "schain (nxt t') (snaps t' b) (?C b) \<and> distinct (?C b) \<and> set (?C b) \<inter> set fs' = {} \<and>
      (\<forall>i \<in> set (?C b). snap_hash (fst (skey t' i)) (snd (skey t' i)) = b) \<and> inj_on (skey t') (set (?C b))"
    if b: "b < VG_SNAP_BUCKETS" for b
  proof -
    note r = snap_repD [OF rep b]
    have inC: "skey t' i = skey t i" "nxt t' i = nxt t i" if "i \<in> set (C b)" for i
      using same [of i] out [OF b] that by blast+
    have "schain (nxt t') (snaps t b) (C b)" using r(1) inC(2) by (rule schain_cong)
    moreover have "inj_on (skey t') (set (C b))"
      using r(5) by (rule inj_on_cong [THEN iffD1, rotated]) (simp add: inC(1))
    moreover have "skey t' ` set (C b) = skey t ` set (C b)" using inC(1) by (rule image_cong [OF refl])
    moreover have "snap_hash (fst (skey t' i)) (snd (skey t' i)) = b" if "i \<in> set (C b)" for i
      using r(4) [OF that] inC(1) [OF that] by simp
    moreover have "snaps t' b = (if b = ?h then Some e else snaps t b)" unfolding t' by simp
    ultimately show ?thesis
      using r out [OF b] fs d key ne new by auto
  qed
  moreover have "schain (nxt t') (snap_free t') fs'"
  proof -
    have "snap_free t' = nxt t e" unfolding t' by (simp add: nxt_def)
    moreover have "schain (nxt t') (nxt t e) fs'"
      using fch by (rule schain_cong) (use d(1) same(2) in metis)
    ultimately show ?thesis by simp
  qed
  moreover have "(\<Union>b < VG_SNAP_BUCKETS. set (?C b)) \<union> set fs' = {..<unat (snap_cap t')}"
  proof -
    have "(\<Union>b < VG_SNAP_BUCKETS. set (?C b)) = insert e (\<Union>b < VG_SNAP_BUCKETS. set (C b))"
      using snap_hash_less [of fam a] by (auto split: if_splits)
    moreover have "snap_cap t' = snap_cap t" unfolding t' by simp
    ultimately show ?thesis using rep fs by (auto simp: snap_rep_def)
  qed
  ultimately show "\<exists>fs'. fs = e # fs' \<and> snap_rep t' ?C fs'"
    using fs d unfolding snap_rep_def by blast
qed

text \<open>Pruning one bucket keeps the entries of the current generation, in order.\<close>

definition fresh :: "snap_tab \<Rightarrow> nat \<Rightarrow> bool" where
  "fresh t i \<longleftrightarrow> gen (snap_pool t i) = snap_gen t"

definition prune_step :: "hslot \<Rightarrow> nat \<Rightarrow> snap_tab \<Rightarrow> snap_tab" where
  "prune_step l e t =
     (let t = write_link l (s_next (snap_pool t e)) t;
          t = set_ent e ((snap_pool t e)\<lparr>gen := 0\<rparr>) t;
          t = set_ent e ((snap_pool t e)\<lparr>s_next := snap_free t\<rparr>) t
      in t\<lparr>snap_free := Some e\<rparr>)"

lemma prune_loop_Suc:
  "prune_loop (Suc fuel) l t =
     (case read_link t l of None \<Rightarrow> t
      | Some e \<Rightarrow> if \<not> fresh t e then prune_loop fuel l (prune_step l e t)
                  else prune_loop fuel (NextOf e) t)"
  by (simp add: prune_step_def fresh_def Let_def split: option.splits)

declare prune_loop.simps(2) [simp del]

lemma prune_step_facts:
  assumes "l \<noteq> NextOf e"
  shows "read_link (prune_step l e t) l = nxt t e"
    and "\<And>i. i \<noteq> e \<Longrightarrow> NextOf i \<noteq> l \<Longrightarrow> snap_pool (prune_step l e t) i = snap_pool t i"
    and "\<And>i. i \<noteq> e \<Longrightarrow> fresh (prune_step l e t) i = fresh t i"
    and "nxt (prune_step l e t) e = snap_free t" "snap_free (prune_step l e t) = Some e"
    and "snap_cap (prune_step l e t) = snap_cap t" "snap_gen (prune_step l e t) = snap_gen t"
    and "\<And>b. Bucket b \<noteq> l \<Longrightarrow> snaps (prune_step l e t) b = snaps t b"
    and "skey (prune_step l e t) = skey t"
    and "s_in_pkts (snap_pool (prune_step l e t) i) = s_in_pkts (snap_pool t i)"
    and "s_in_bytes (snap_pool (prune_step l e t) i) = s_in_bytes (snap_pool t i)"
  using assms
  by (cases l; auto simp: prune_step_def nxt_def fresh_def skey_def fun_eq_iff Let_def)+

definition pruned :: "snap_tab \<Rightarrow> hslot \<Rightarrow> nat list \<Rightarrow> nat list \<Rightarrow> snap_tab \<Rightarrow> bool" where
  "pruned t l ys fs t' \<longleftrightarrow>
     schain (nxt t') (read_link t' l) (filter (fresh t) ys) \<and>
     schain (nxt t') (snap_free t') (rev (filter (\<lambda>i. \<not> fresh t i) ys) @ fs) \<and>
     (\<forall>i. i \<notin> set ys \<longrightarrow> NextOf i \<noteq> l \<longrightarrow> snap_pool t' i = snap_pool t i) \<and>
     (\<forall>i. i \<in> set ys \<longrightarrow> fresh t i \<longrightarrow> fresh t' i) \<and>
     (\<forall>b. Bucket b \<noteq> l \<longrightarrow> snaps t' b = snaps t b) \<and> skey t' = skey t \<and>
     (\<forall>i. s_in_pkts (snap_pool t' i) = s_in_pkts (snap_pool t i) \<and>
        s_in_bytes (snap_pool t' i) = s_in_bytes (snap_pool t i)) \<and>
     snap_cap t' = snap_cap t \<and> snap_gen t' = snap_gen t \<and>
     (\<forall>i. NextOf i = l \<longrightarrow> fresh t' i = fresh t i)"

lemma prune_loop_chain:
  assumes "schain (nxt t) (read_link t l) ys" "schain (nxt t) (snap_free t) fs"
    and "distinct (ys @ fs)" "outer l (ys @ fs)" "length ys < fuel"
  shows "pruned t l ys fs (prune_loop fuel l t)"
  using assms
proof (induction ys arbitrary: l t fs fuel)
  case Nil
  then obtain f where "fuel = Suc f" by (cases fuel) auto
  then show ?case using Nil by (simp add: prune_loop_Suc pruned_def)
next
  case (Cons e ys)
  then obtain f where f: "fuel = Suc f" by (cases fuel) auto
  have rl: "read_link t l = Some e" and tl: "schain (nxt t) (nxt t e) ys" using Cons.prems(1) by simp_all
  have d: "e \<notin> set ys" "e \<notin> set fs" "distinct (ys @ fs)" and ne: "l \<noteq> NextOf e"
    using Cons.prems(3,4) by (auto simp: outer_def)
  show ?case
  proof (cases "fresh t e")
    case True
    let ?t = "prune_loop f (NextOf e) t"
    have IH: "pruned t (NextOf e) ys fs ?t"
      using Cons.prems d f tl by (intro Cons.IH) (simp_all add: nxt_def outer_def)
    have "read_link ?t l = Some e"
      using IH rl ne Cons.prems(4) by (cases l) (auto simp: outer_def pruned_def)
    then have "pruned t l (e # ys) fs ?t"
      using IH True ne Cons.prems(4) unfolding pruned_def by (auto simp: nxt_def outer_def fresh_def)
    then show ?thesis using f rl True by (simp add: prune_loop_Suc)
  next
    case False
    let ?s = "prune_step l e t"
    note st = prune_step_facts [OF ne, where t = t]
    have pool: "nxt ?s i = nxt t i" if "i \<in> set (ys @ fs)" for i
    proof -
      have "i \<noteq> e" "NextOf i \<noteq> l" using that d Cons.prems(4) by (auto simp: outer_def)
      then show ?thesis using st(2) by (simp add: nxt_def)
    qed
    have fr: "fresh ?s i = fresh t i" if "i \<in> set ys" for i using st(3) that d(1) by metis
    have "schain (nxt ?s) (read_link ?s l) ys"
      unfolding st(1) using tl by (rule schain_cong) (simp add: pool)
    moreover have "schain (nxt ?s) (snap_free ?s) (e # fs)"
    proof -
      have "schain (nxt ?s) (snap_free t) fs" using Cons.prems(2) by (rule schain_cong) (simp add: pool)
      then show ?thesis using st(4,5) by simp
    qed
    moreover have "distinct (ys @ e # fs)" "outer l (ys @ e # fs)" "length ys < f"
      using d Cons.prems f by (auto simp: outer_def split: hslot.splits)
    ultimately have IH: "pruned ?s l ys (e # fs) (prune_loop f l ?s)" by (rule Cons.IH)
    have flt: "filter (fresh ?s) ys = filter (fresh t) ys"
      "filter (\<lambda>i. \<not> fresh ?s i) ys = filter (\<lambda>i. \<not> fresh t i) ys"
      by (rule filter_cong; simp add: fr)+
    have "pruned t l (e # ys) fs (prune_loop f l ?s)"
      using IH False fr st(2,3,6-11) ne unfolding pruned_def flt by auto
    then show ?thesis using f rl False by (simp add: prune_loop_Suc)
  qed
qed

lemma prune_bucket:
  assumes rep: "snap_rep t C fs" and b: "b < VG_SNAP_BUCKETS"
  defines "t' \<equiv> prune_loop (Suc (unat (snap_cap t))) (Bucket b) t"
  shows "snap_rep t' (C(b := filter (fresh t) (C b))) (rev (filter (\<lambda>i. \<not> fresh t i) (C b)) @ fs)"
    and "\<And>i. i \<notin> set (C b) \<Longrightarrow> snap_pool t' i = snap_pool t i"
    and "skey t' = skey t" "snap_cap t' = snap_cap t" "snap_gen t' = snap_gen t"
    and "\<And>i. s_in_pkts (snap_pool t' i) = s_in_pkts (snap_pool t i) \<and>
       s_in_bytes (snap_pool t' i) = s_in_bytes (snap_pool t i)"
proof -
  note r = snap_repD [OF rep b]
  have "distinct fs" "schain (nxt t) (snap_free t) fs" using rep by (simp_all add: snap_rep_def)
  with r have p: "pruned t (Bucket b) (C b) fs t'"
    unfolding t'_def by (intro prune_loop_chain) (auto simp: outer_def)
  then show pool: "\<And>i. i \<notin> set (C b) \<Longrightarrow> snap_pool t' i = snap_pool t i"
    and key: "skey t' = skey t" and cap: "snap_cap t' = snap_cap t" and "snap_gen t' = snap_gen t"
    and "\<And>i. s_in_pkts (snap_pool t' i) = s_in_pkts (snap_pool t i) \<and>
       s_in_bytes (snap_pool t' i) = s_in_bytes (snap_pool t i)"
    by (simp_all add: pruned_def)
  let ?C = "C(b := filter (fresh t) (C b))" and ?fs = "rev (filter (\<lambda>i. \<not> fresh t i) (C b)) @ fs"
  have "schain (nxt t') (snaps t' c) (?C c) \<and> distinct (?C c) \<and> set (?C c) \<inter> set ?fs = {}"
    if c: "c < VG_SNAP_BUCKETS" for c
  proof (cases "c = b")
    case True
    then show ?thesis using p r by (auto simp: pruned_def)
  next
    case False
    note rc = snap_repD [OF rep c]
    have disj: "set (C c) \<inter> set (C b) = {}" using snap_disjoint [OF rep c b False] .
    have "schain (nxt t') (snaps t c) (C c)"
      using rc(1) by (rule schain_cong) (metis pool disj disjoint_iff nxt_def)
    moreover have "snaps t' c = snaps t c" using p False by (simp add: pruned_def)
    ultimately show ?thesis using False rc(2,3) disj by auto
  qed
  moreover have "\<forall>c < VG_SNAP_BUCKETS. \<forall>i \<in> set (?C c). snap_hash (fst (skey t' i)) (snd (skey t' i)) = c"
    using snap_repD(4) [OF rep] unfolding key by simp
  moreover have "\<forall>c < VG_SNAP_BUCKETS. inj_on (skey t') (set (?C c))"
    using snap_repD(5) [OF rep] unfolding key by (auto intro: inj_on_subset)
  moreover have "(\<Union>c < VG_SNAP_BUCKETS. set (?C c)) \<union> set ?fs = (\<Union>c < VG_SNAP_BUCKETS. set (C c)) \<union> set fs"
    using b by (auto split: if_splits)
  moreover have "distinct ?fs" using r(2,3) \<open>distinct fs\<close> by auto
  moreover have "schain (nxt t') (snap_free t') ?fs" using p by (simp add: pruned_def)
  ultimately show "snap_rep t' ?C ?fs"
    using rep cap unfolding snap_rep_def by auto
qed

lemma prune_buckets_rep:
  assumes "snap_rep t C fs" "set bs \<subseteq> {..<VG_SNAP_BUCKETS}" "distinct bs"
  shows "\<exists>fs'. snap_rep (prune_buckets bs t) (\<lambda>b. if b \<in> set bs then filter (fresh t) (C b) else C b) fs'"
    and "skey (prune_buckets bs t) = skey t \<and> snap_cap (prune_buckets bs t) = snap_cap t \<and>
      snap_gen (prune_buckets bs t) = snap_gen t"
    and "s_in_pkts (snap_pool (prune_buckets bs t) i) = s_in_pkts (snap_pool t i) \<and>
      s_in_bytes (snap_pool (prune_buckets bs t) i) = s_in_bytes (snap_pool t i)"
  using assms
proof (induction bs arbitrary: t C fs)
  case (Cons b bs)
  case 1
  let ?t = "prune_loop (Suc (unat (snap_cap t))) (Bucket b) t" and ?C = "C(b := filter (fresh t) (C b))"
  have b: "b < VG_SNAP_BUCKETS" using 1 by simp
  note p = prune_bucket [OF 1(1) b]
  obtain fs' where r: "snap_rep (prune_buckets bs ?t) (\<lambda>c. if c \<in> set bs then filter (fresh ?t) (?C c) else ?C c) fs'"
    using Cons.IH(1) [OF p(1)] 1 by auto
  have "fresh ?t i = fresh t i" if "i \<in> set (C c)" "c \<in> set bs" for c i
  proof -
    have "c < VG_SNAP_BUCKETS" "c \<noteq> b" using that(2) 1(2,3) by auto
    then have "i \<notin> set (C b)" using that(1) snap_disjoint [OF 1(1) _ b] by blast
    from p(2) [OF this] show ?thesis using p(5) by (simp add: fresh_def)
  qed
  then have "(\<lambda>c. if c \<in> set bs then filter (fresh ?t) (?C c) else ?C c) =
      (\<lambda>c. if c \<in> set (b # bs) then filter (fresh t) (C c) else C c)"
    using 1(3) by (auto simp: fun_eq_iff intro!: filter_cong)
  then show ?case using r by auto
next
  case (Cons b bs)
  case 2
  then show ?case using prune_bucket [OF 2(1), of b] Cons.IH(2) [OF prune_bucket(1) [OF 2(1), of b]]
    by simp
next
  case (Cons b bs)
  case 3
  then show ?case using prune_bucket [OF 3(1), of b] Cons.IH(3) [OF prune_bucket(1) [OF 3(1), of b]]
    by simp
qed auto

lemma snap_prune_rep:
  assumes "snap_rep t C fs"
  shows "\<exists>C' fs'. snap_rep (snap_prune t) C' fs' \<and> (\<forall>b < VG_SNAP_BUCKETS. C' b = filter (fresh t) (C b))"
    and "skey (snap_prune t) = skey t" "snap_cap (snap_prune t) = snap_cap t"
    "snap_gen (snap_prune t) = snap_gen t"
    and "s_in_pkts (snap_pool (snap_prune t) i) = s_in_pkts (snap_pool t i) \<and>
      s_in_bytes (snap_pool (snap_prune t) i) = s_in_bytes (snap_pool t i)"
proof -
  have bs: "set [0..<VG_SNAP_BUCKETS] \<subseteq> {..<VG_SNAP_BUCKETS}" "distinct [0..<VG_SNAP_BUCKETS]"
    by (simp_all only: set_upt atLeast0LessThan order.refl distinct_upt)
  note p = prune_buckets_rep [OF assms bs, folded snap_prune_def]
  obtain fs' where "snap_rep (snap_prune t)
      (\<lambda>b. if b \<in> set [0..<VG_SNAP_BUCKETS] then filter (fresh t) (C b) else C b) fs'"
    using p(1) by blast
  moreover have "\<forall>b < VG_SNAP_BUCKETS. (if b \<in> set [0..<VG_SNAP_BUCKETS] then filter (fresh t) (C b) else C b) =
      filter (fresh t) (C b)"
    by simp
  ultimately show "\<exists>C' fs'. snap_rep (snap_prune t) C' fs' \<and>
      (\<forall>b < VG_SNAP_BUCKETS. C' b = filter (fresh t) (C b))"
    by blast
qed (use prune_buckets_rep [OF assms, of "[0..<VG_SNAP_BUCKETS]"] in
    \<open>simp_all add: snap_prune_def atLeast0LessThan\<close>)

lemma snap_ent_rep:
  "snap_rep t C fs \<Longrightarrow> snap_ent t fam a =
     map_option (snap_pool t) (find (\<lambda>i. skey t i = (fam, take (nbytes fam) a)) (C (snap_hash fam a)))"
  by (simp add: snap_ent_def snap_find_rep del: snap_find.simps)

lemma find_filter_inj:
  assumes "inj_on f (set xs)" "distinct xs"
  shows "find (\<lambda>i. f i = k) (filter P xs) =
    (case find (\<lambda>i. f i = k) xs of None \<Rightarrow> None | Some i \<Rightarrow> if P i then Some i else None)"
  using assms
proof (induction xs)
  case (Cons x xs)
  show ?case
  proof (cases "f x = k")
    case True
    have "f i \<noteq> k" if "i \<in> set xs" for i
      using Cons.prems True that by (metis distinct.simps(2) inj_on_eq_iff list.set_intros)
    then have "find (\<lambda>i. f i = k) (filter P xs) = None" by (simp add: find_None_iff)
    then show ?thesis using True by simp
  qed (use Cons in simp)
qed simp

lemma reset_loop_facts:
  "snap_cap (reset_loop n i t) = snap_cap t \<and> snaps (reset_loop n i t) = snaps t \<and>
   snap_gen (reset_loop n i t) = snap_gen t \<and>
   (\<forall>j. nxt (reset_loop n i t) j =
      (if i \<le> j \<and> j < i + n then if j + 1 < unat (snap_cap t) then Some (j + 1) else None else nxt t j))"
proof (induction n arbitrary: i t)
  case (Suc n)
  define t1 where "t1 = set_ent i ((snap_pool t i)\<lparr>gen := 0, s_next :=
      if i + 1 < unat (snap_cap t) then Some (i + 1) else None\<rparr>) t"
  have "reset_loop (Suc n) i t = reset_loop n (i + 1) t1"
    by (simp add: t1_def set_ent_def Let_def)
  moreover have "snap_cap t1 = snap_cap t" "snaps t1 = snaps t" "snap_gen t1 = snap_gen t"
    "nxt t1 j = (if j = i then if j + 1 < unat (snap_cap t) then Some (j + 1) else None else nxt t j)" for j
    by (simp_all add: t1_def nxt_def)
  ultimately show ?case using Suc.IH [of "i + 1" t1] by auto
qed auto

lemma schain_upt:
  assumes "\<And>j. j < n \<Longrightarrow> nx j = (if j + 1 < n then Some (j + 1) else None)" and "k < n"
  shows "schain nx (Some k) [k..<n]"
  using assms(2)
proof (induction "n - k" arbitrary: k)
  case (Suc d)
  have "schain nx (nx k) [k + 1..<n]"
  proof (cases "k + 1 < n")
    case True
    then show ?thesis using Suc.hyps(1) [of "k + 1"] Suc.hyps(2) assms(1) [OF Suc.prems] by simp
  next
    case False
    then show ?thesis using assms(1) [OF Suc.prems] by simp
  qed
  then show ?case using Suc.prems by (simp add: upt_rec [of k])
qed simp

lemma snap_reset_rep:
  shows "snap_rep (snap_reset_pool t) (\<lambda>_. []) [0..<unat (snap_cap t)]"
    and "snap_cap (snap_reset_pool t) = snap_cap t" and "snap_gen (snap_reset_pool t) = snap_gen t"
proof -
  define t0 where "t0 = t\<lparr>snaps := (\<lambda>b. if b < VG_SNAP_BUCKETS then None else snaps t b), snap_free := None\<rparr>"
  define t1 where "t1 = reset_loop (unat (snap_cap t)) 0 t0"
  have r: "snap_reset_pool t = (if snap_cap t = 0 then t0 else t1\<lparr>snap_free := Some 0\<rparr>)"
    unfolding snap_reset_pool_def Let_def t1_def t0_def by simp
  have f: "snap_cap t1 = snap_cap t" "snaps t1 = snaps t0" "snap_gen t1 = snap_gen t"
    "\<And>j. j < unat (snap_cap t) \<Longrightarrow> nxt t1 j = (if j + 1 < unat (snap_cap t) then Some (j + 1) else None)"
    using reset_loop_facts [of "unat (snap_cap t)" 0 t0] by (simp_all add: t1_def) (simp_all add: t0_def)
  show "snap_cap (snap_reset_pool t) = snap_cap t" "snap_gen (snap_reset_pool t) = snap_gen t"
    using f by (simp_all add: r) (simp_all add: t0_def)
  have nx: "nxt (t1\<lparr>snap_free := x\<rparr>) = nxt t1" for x by (simp add: nxt_def fun_eq_iff)
  show "snap_rep (snap_reset_pool t) (\<lambda>_. []) [0..<unat (snap_cap t)]"
  proof (cases "snap_cap t = 0")
    case True
    then show ?thesis unfolding r by (simp add: snap_rep_def t0_def)
  next
    case False
    then have "0 < unat (snap_cap t)" by (simp add: unat_gt_0)
    from schain_upt [OF f(4) this] False show ?thesis
      unfolding r by (simp add: snap_rep_def nx f) (auto simp: t0_def)
  qed
qed

subsection \<open>The pool as a map from addresses to counters\<close>

definition store :: "nat \<Rightarrow> u64 \<Rightarrow> u64 \<Rightarrow> snap_tab \<Rightarrow> snap_tab" where
  "store e p b t = set_ent e ((snap_pool t e)\<lparr>s_in_pkts := p, s_in_bytes := b\<rparr>) t"

lemma store_rep:
  "snap_rep t C fs \<Longrightarrow> snap_rep (store e p b t) C fs" "skey (store e p b t) = skey t"
proof -
  show k: "skey (store e p b t) = skey t" by (auto simp: store_def skey_def fun_eq_iff Let_def)
  have n: "nxt (store e p b t) = nxt t" by (auto simp: store_def nxt_def)
  have f: "snaps (store e p b t) = snaps t" "snap_free (store e p b t) = snap_free t"
    "snap_cap (store e p b t) = snap_cap t"
    by (simp_all add: store_def)
  show "snap_rep t C fs \<Longrightarrow> snap_rep (store e p b t) C fs" unfolding snap_rep_def k n f .
qed

lemma find_inj:
  assumes "inj_on f (set xs)" "e \<in> set xs"
  shows "find (\<lambda>i. f i = f e) xs = Some e"
  using assms by (induction xs) (auto simp: inj_on_def)

lemma find_key_map:
  "find (\<lambda>i. f i = k) xs = Some i \<Longrightarrow> f i = k \<and> i \<in> set xs"
  by (auto simp: find_Some_iff)

lemma snap_of_store:
  assumes rep: "snap_rep t C fs" and e: "e \<in> set (C (snap_hash fam a))" "skey t e = (fam, a)"
    and len: "length a = nbytes fam" "length a' = nbytes fam'"
  shows "snap_of (store e p b t) fam' a' = (if (fam', a') = (fam, a) then Some (p, b) else snap_of t fam' a')"
proof -
  note r = snap_repD [OF rep snap_hash_less]
  have st: "snap_ent (store e p b t) fam' a' =
      map_option (snap_pool (store e p b t)) (find (\<lambda>i. skey t i = (fam', a')) (C (snap_hash fam' a')))"
    using snap_ent_rep [OF store_rep(1) [OF rep], of e p b fam' a'] len by (simp add: store_rep)
  have old: "snap_ent t fam' a' = map_option (snap_pool t) (find (\<lambda>i. skey t i = (fam', a')) (C (snap_hash fam' a')))"
    using snap_ent_rep [OF rep, of fam' a'] len by simp
  show ?thesis
  proof (cases "(fam', a') = (fam, a)")
    case True
    then have "find (\<lambda>i. skey t i = (fam', a')) (C (snap_hash fam' a')) = Some e"
      using find_inj [OF r(5) e(1)] e(2) by simp
    then show ?thesis using True st by (simp add: snap_of_def) (simp add: store_def)
  next
    case False
    have "snap_pool (store e p b t) i = snap_pool t i"
      if "find (\<lambda>i. skey t i = (fam', a')) (C (snap_hash fam' a')) = Some i" for i
    proof -
      have "skey t i = (fam', a')" using find_key_map [OF that] by simp
      then have "i \<noteq> e" using e(2) False by metis
      then show ?thesis by (simp add: store_def)
    qed
    then have "snap_ent (store e p b t) fam' a' = snap_ent t fam' a'"
      unfolding st old by (cases "find (\<lambda>i. skey t i = (fam', a')) (C (snap_hash fam' a'))") simp_all
    then show ?thesis using False by (auto simp: snap_of_def)
  qed
qed

text \<open>What a call of \<open>snap_get\<close> followed by storing the current counters does.\<close>

lemma snap_get_created:
  assumes ok: "snap_ok t" and g: "snap_get t fam a = (Some e, True, t')" and len: "length a = nbytes fam"
  shows "snap_of t fam a = None" and "snap_ok (store e p b t')"
    and "length a' = nbytes fam' \<Longrightarrow> snap_of (store e p b t') fam' a' =
      (if (fam', a') = (fam, a) then Some (p, b) else snap_of t fam' a')"
proof -
  obtain C fs where rep: "snap_rep t C fs" using ok by (auto simp: snap_ok_def)
  note n = snap_get_new [OF rep g len]
  let ?h = "snap_hash fam a"
  let ?C = "C(?h := e # C ?h)"
  obtain fs' where fs: "fs = e # fs'" and rep': "snap_rep t' ?C fs'" using n(1) by blast
  have nf: "find (\<lambda>i. skey t i = (fam, a)) (C ?h) = None"
    using n(3) unfolding find_None_iff by (metis image_eqI)
  then show none: "snap_of t fam a = None" using snap_ent_rep [OF rep, of fam a] len by (simp add: snap_of_def)
  show "snap_ok (store e p b t')" using store_rep(1) [OF rep'] unfolding snap_ok_def by blast
  show "snap_of (store e p b t') fam' a' = (if (fam', a') = (fam, a) then Some (p, b) else snap_of t fam' a')"
    if len': "length a' = nbytes fam'"
  proof (cases "(fam', a') = (fam, a)")
    case True
    then show ?thesis using snap_of_store [OF rep' _ n(2) len len', of p b] by simp
  next
    case False
    have e: "e \<notin> set (C (snap_hash fam' a'))" using snap_repD(3) [OF rep snap_hash_less] fs by auto
    have pool: "snap_pool t' i = snap_pool t i" if "i \<in> set (C (snap_hash fam' a'))" for i
      using that e n(4) by metis
    then have "skey t' i = skey t i" if "i \<in> set (C (snap_hash fam' a'))" for i
      using that by (simp add: skey_def)
    then have "find (\<lambda>i. skey t' i = (fam', a')) (C (snap_hash fam' a')) =
        find (\<lambda>i. skey t i = (fam', a')) (C (snap_hash fam' a'))"
      by (intro find_cong) simp_all
    moreover have "skey t' e \<noteq> (fam', a')" using n(2) False by metis
    ultimately have "find (\<lambda>i. skey t' i = (fam', a')) (?C (snap_hash fam' a')) =
        find (\<lambda>i. skey t i = (fam', a')) (C (snap_hash fam' a'))"
      by (cases "snap_hash fam' a' = snap_hash fam a") (simp_all add: fun_upd_def)
    moreover have "map_option (snap_pool t') (find (\<lambda>i. skey t i = (fam', a')) (C (snap_hash fam' a'))) =
        map_option (snap_pool t) (find (\<lambda>i. skey t i = (fam', a')) (C (snap_hash fam' a')))"
      using pool find_key_map by (cases "find (\<lambda>i. skey t i = (fam', a')) (C (snap_hash fam' a'))") fastforce+
    ultimately have "snap_ent t' fam' a' = snap_ent t fam' a'"
      using snap_ent_rep [OF rep', of fam' a'] snap_ent_rep [OF rep, of fam' a'] len' by simp
    then show ?thesis using snap_of_store [OF rep' _ n(2) len len', of p b] False by (auto simp: snap_of_def)
  qed
qed

lemma snap_get_seen:
  assumes ok: "snap_ok t" and g: "snap_get t fam a = (Some e, False, t')" and len: "length a = nbytes fam"
  shows "snap_of t fam a = Some (s_in_pkts (snap_pool t' e), s_in_bytes (snap_pool t' e))"
    and "snap_ok (store e p b t')"
    and "length a' = nbytes fam' \<Longrightarrow> snap_of (store e p b t') fam' a' =
      (if (fam', a') = (fam, a) then Some (p, b) else snap_of t fam' a')"
proof -
  obtain C fs where rep: "snap_rep t C fs" using ok by (auto simp: snap_ok_def)
  note o = snap_get_old [OF rep g]
  have key: "skey t e = (fam, a)" using o(2) len by simp
  have same: "skey t' = skey t" using o(4) skey_gen by simp
  have find: "find (\<lambda>i. skey t i = (fam, a)) (C (snap_hash fam a)) = Some e"
    using find_inj [OF snap_repD(5) [OF rep snap_hash_less] o(1)] key by simp
  have cnt: "map_option (\<lambda>i. (s_in_pkts (snap_pool t' i), s_in_bytes (snap_pool t' i))) r =
      map_option (\<lambda>i. (s_in_pkts (snap_pool t i), s_in_bytes (snap_pool t i))) r" for r
    unfolding o(4) by (cases r) simp_all
  have ent: "snap_of t' f x = snap_of t f x" for f x
    using snap_ent_rep [OF rep, of f x] snap_ent_rep [OF o(3), of f x] cnt
    by (simp add: snap_of_def same option.map_comp comp_def)
  show "snap_of t fam a = Some (s_in_pkts (snap_pool t' e), s_in_bytes (snap_pool t' e))"
    using snap_ent_rep [OF rep, of fam a] find len o(4) by (simp add: snap_of_def)
  show "snap_ok (store e p b t')" using store_rep(1) [OF o(3)] unfolding snap_ok_def by blast
  show "snap_of (store e p b t') fam' a' = (if (fam', a') = (fam, a) then Some (p, b) else snap_of t fam' a')"
    if "length a' = nbytes fam'"
    using snap_of_store [OF o(3,1) _ len that, of p b] key same ent by simp
qed

lemma snap_get_full:
  assumes ok: "snap_ok t" and g: "snap_get t fam a = (None, cr, t')"
  shows "t' = t" "snap_of t fam a = None"
proof -
  obtain C fs where rep: "snap_rep t C fs" using ok by (auto simp: snap_ok_def)
  show "t' = t" using snap_get_none [OF rep g] by simp
  show "snap_of t fam a = None"
    using g by (auto simp: snap_get_def Let_def snap_of_def snap_ent_def simp del: snap_find.simps split: option.splits)
qed

lemma snap_get_store:
  assumes "snap_ok t" "snap_get t fam a = (Some e, cr, t')" "length a = nbytes fam"
  shows "snap_ok (store e p b t')" "snap_of (store e p b t') fam a = Some (p, b)"
  using assms snap_get_created snap_get_seen by (cases cr; simp)+

lemma snap_ok_reset: "snap_ok (snap_reset_pool t)" "snap_of (snap_reset_pool t) fam a = None"
  using snap_reset_rep [of t] snap_ent_rep [OF snap_reset_rep(1)] by (auto simp: snap_ok_def snap_of_def)

lemma snap_ok_gen: "snap_ok (t\<lparr>snap_gen := g\<rparr>) = snap_ok t"
proof -
  have "skey (t\<lparr>snap_gen := g\<rparr>) = skey t" "nxt (t\<lparr>snap_gen := g\<rparr>) = nxt t"
    by (auto simp: skey_def nxt_def fun_eq_iff)
  then show ?thesis by (simp add: snap_ok_def snap_rep_def)
qed

lemma snap_get_ok:
  assumes "snap_ok t" and "length a = nbytes fam"
  shows "snap_ok (snd (snd (snap_get t fam a)))"
proof -
  obtain C fs where rep: "snap_rep t C fs" using assms(1) by (auto simp: snap_ok_def)
  obtain r cr t' where g: "snap_get t fam a = (r, cr, t')" by (metis prod_cases3)
  show ?thesis
  proof (cases r)
    case None
    then show ?thesis using snap_get_none(1) [OF rep, of fam a cr t'] g assms(1) by simp
  next
    case (Some e)
    then show ?thesis
      using g snap_get_new(1) [OF rep, of fam a e t'] snap_get_old(3) [OF rep, of fam a e t'] assms(2)
      by (cases cr) (auto simp: snap_ok_def)
  qed
qed

lemma snap_ok_prune: "snap_ok t \<Longrightarrow> snap_ok (snap_prune t)"
  using snap_prune_rep(1) by (fastforce simp: snap_ok_def)

text \<open>
  C35: After a complete walk, pruning keeps exactly the snapshots of the addresses seen in the
  current generation, with their counters, and frees the others.
\<close>

theorem prune_keeps_current_generation:
  assumes "snap_ok t" and "length a = nbytes fam"
  shows "snap_ok (snap_prune t) \<and>
    snap_of (snap_prune t) fam a =
      (case snap_ent t fam a of
         None \<Rightarrow> None
       | Some e \<Rightarrow> if gen e = snap_gen t then Some (s_in_pkts e, s_in_bytes e) else None)"
proof (rule conjI)
  show "snap_ok (snap_prune t)" using assms(1) by (rule snap_ok_prune)
  obtain C fs where rep: "snap_rep t C fs" using assms(1) by (auto simp: snap_ok_def)
  note p = snap_prune_rep [OF rep]
  let ?h = "snap_hash fam a"
  obtain C' fs' where rep': "snap_rep (snap_prune t) C' fs'" and C': "C' ?h = filter (fresh t) (C ?h)"
    using p(1) snap_hash_less by blast
  have "find (\<lambda>i. skey t i = (fam, a)) (C' ?h) =
      (case find (\<lambda>i. skey t i = (fam, a)) (C ?h) of None \<Rightarrow> None | Some i \<Rightarrow> if fresh t i then Some i else None)"
    unfolding C' using snap_repD(5,2) [OF rep snap_hash_less] by (rule find_filter_inj)
  then show "snap_of (snap_prune t) fam a =
      (case snap_ent t fam a of
         None \<Rightarrow> None
       | Some e \<Rightarrow> if gen e = snap_gen t then Some (s_in_pkts e, s_in_bytes e) else None)"
    using snap_ent_rep [OF rep', of fam a] snap_ent_rep [OF rep, of fam a] assms(2) p(2,5)
    by (auto simp: snap_of_def fresh_def split: option.splits)
qed

text \<open>A pool of two entries that saw one address in generation 1 and another in generation 2.\<close>

definition ex_snap0 :: snap_tab where
  "ex_snap0 = snap_reset_pool
     \<lparr>snap_pool = (\<lambda>_. \<lparr>s_family = AF_INET, s_addr = replicate 16 0, s_in_pkts = 0, s_in_bytes = 0,
        gen = 0, s_next = None\<rparr>), snap_free = None, snaps = (\<lambda>_. None), snap_cap = 2, snap_gen = 1\<rparr>"

definition ex_snap1 :: snap_tab where
  "ex_snap1 = snd (snd (snap_get ex_snap0 AF_INET [192, 0, 2, 1]))"

definition ex_snap2 :: snap_tab where
  "ex_snap2 = snd (snd (snap_get (ex_snap1\<lparr>snap_gen := 2\<rparr>) AF_INET [192, 0, 2, 2]))"

lemma ex_snap2_ok: "snap_ok ex_snap2"
proof -
  have "snap_ok ex_snap0" unfolding ex_snap0_def by (rule snap_ok_reset)
  then have "snap_ok ex_snap1" unfolding ex_snap1_def by (rule snap_get_ok) (simp add: nbytes_def)
  then have "snap_ok (ex_snap1\<lparr>snap_gen := 2\<rparr>)" by (simp add: snap_ok_gen)
  then show ?thesis unfolding ex_snap2_def by (rule snap_get_ok) (simp add: nbytes_def)
qed

lemma ex_hash: "snap_hash AF_INET [192, 0, 2, 1] = 2311" "snap_hash AF_INET [192, 0, 2, 2] = 2714"
  by (simp_all add: snap_hash_def AF_num_def)

lemma ex_unfold:
  "reset_loop 2 = reset_loop (Suc (Suc 0))" "snap_find 3 = snap_find (Suc (Suc (Suc 0)))"
  by (simp_all add: eval_nat_numeral)

lemma ex_snap0_fields:
  "snap_pool ex_snap0 0 = \<lparr>s_family = AF_INET, s_addr = replicate 16 0, s_in_pkts = 0, s_in_bytes = 0,
     gen = 0, s_next = Some 1\<rparr>"
  "snap_pool ex_snap0 1 = \<lparr>s_family = AF_INET, s_addr = replicate 16 0, s_in_pkts = 0, s_in_bytes = 0,
     gen = 0, s_next = None\<rparr>"
  "snap_free ex_snap0 = Some 0" "snaps ex_snap0 = (\<lambda>_. None)" "snap_cap ex_snap0 = 2" "snap_gen ex_snap0 = 1"
  by (simp_all add: ex_snap0_def snap_reset_pool_def Let_def ex_unfold fun_eq_iff)

lemma ex_snap1_fields:
  "snap_pool ex_snap1 0 = \<lparr>s_family = AF_INET, s_addr = [192, 0, 2, 1] @ replicate 12 0, s_in_pkts = 0,
     s_in_bytes = 0, gen = 1, s_next = None\<rparr>"
  "snap_pool ex_snap1 1 = snap_pool ex_snap0 1"
  "snap_free ex_snap1 = Some 1" "snaps ex_snap1 = (\<lambda>_. None)(2311 := Some 0)" "snap_cap ex_snap1 = 2"
  by (simp_all add: ex_snap1_def snap_get_def Let_def ex_hash ex_snap0_fields ex_unfold del: One_nat_def)

lemma ex_snap2_fields:
  "snap_pool ex_snap2 0 = snap_pool ex_snap1 0"
  "snap_pool ex_snap2 1 = \<lparr>s_family = AF_INET, s_addr = [192, 0, 2, 2] @ replicate 12 0, s_in_pkts = 0,
     s_in_bytes = 0, gen = 2, s_next = None\<rparr>"
  "snaps ex_snap2 = (\<lambda>_. None)(2311 := Some 0, 2714 := Some 1)" "snap_cap ex_snap2 = 2" "snap_gen ex_snap2 = 2"
  by (simp_all add: ex_snap2_def snap_get_def Let_def ex_hash ex_snap1_fields ex_snap0_fields ex_unfold del: One_nat_def)

theorem prune_keeps_current_generation_witness:
  "snap_of ex_snap2 AF_INET [192, 0, 2, 1] = Some (0, 0) \<and>
   snap_of (snap_prune ex_snap2) AF_INET [192, 0, 2, 1] = None \<and>
   snap_of (snap_prune ex_snap2) AF_INET [192, 0, 2, 2] = Some (0, 0)"
proof -
  have e: "snap_ent ex_snap2 AF_INET [192, 0, 2, 1] = Some (snap_pool ex_snap2 0)"
    "snap_ent ex_snap2 AF_INET [192, 0, 2, 2] = Some (snap_pool ex_snap2 1)"
    by (simp_all add: snap_ent_def ex_hash ex_snap2_fields ex_snap1_fields ex_unfold del: One_nat_def)
  show ?thesis
    using prune_keeps_current_generation [OF ex_snap2_ok, of "[192, 0, 2, 1]" AF_INET]
      prune_keeps_current_generation [OF ex_snap2_ok, of "[192, 0, 2, 2]" AF_INET]
    by (simp add: e nbytes_def snap_of_def ex_snap2_fields ex_snap1_fields del: One_nat_def)
qed

end
