(* ===== verification/Policy.thy ===== *)
theory Policy
  imports Complex_Main Snap Maps
begin

section \<open>The control plane: policy.c\<close>

text \<open>
  \<open>struct vg_ctrl\<close> and the routines of \<open>src/src/policy.c\<close>. The drop table and the snapshot pool
  are the nested records \<open>tab\<close> and \<open>snap\<close>; the configuration and the map handle that \<open>cfg\<close> and
  \<open>maps\<close> point to are values. A routine takes the controller and the world and returns them with
  its result; 0 and -1 are the code's return values. \<open>fl\<close> rounds the result of one operation on
  \<open>double\<close>s, which are real numbers here: it is the arithmetic of the machine and stays a
  parameter. Log output is not part of the state.
\<close>

datatype vg_state = VG_IDLE | VG_ACTIVE

record vg_ctrl =
  state :: vg_state
  cfg :: vg_config
  maps :: vg_maps
  cfg_path :: string
  iface_override :: string
  last_m :: vg_metrics
  have_last_m :: bool
  last_tick :: timespec
  have_last_tick :: bool
  rx_pps :: real
  rx_bps :: real
  quiet_since :: int
  tab :: drop_tab
  drops_new :: "int list"
  drops_again :: int
  snap :: snap_tab

subsection \<open>Setting up\<close>

text \<open>
  The bucket count doubles until it reaches the pool size. The variable is 32 bits wide, so the
  loop is a partial function: \<open>None\<close> means that it does not end.
\<close>

partial_function (option) nbuckets_loop :: "u32 \<Rightarrow> u32 \<Rightarrow> u32 option" where
  "nbuckets_loop cap nb = (if nb < cap then nbuckets_loop cap (push_bit 1 nb) else Some nb)"

definition drop_cap :: "vg_config \<Rightarrow> u32" where
  "drop_cap cf = 2 * (if drop_map_size cf \<noteq> 0 then drop_map_size cf else VG_DROP_MAP_MAX)"

definition snap_size :: "vg_config \<Rightarrow> u32" where
  "snap_size cf = (if remote_map_size cf \<noteq> 0 then remote_map_size cf * 2 else VG_REMOTE_MAP_MAX * 2)"

definition snap_tab_zero :: "u32 \<Rightarrow> snap_tab" where
  "snap_tab_zero cap =
     \<lparr>snap_pool = (\<lambda>_. \<lparr>s_family = AF_INET, s_addr = replicate 16 0, s_in_pkts = 0, s_in_bytes = 0,
                      gen = 0, s_next = None\<rparr>),
      snap_free = None, snaps = (\<lambda>_. None), snap_cap = cap, snap_gen = 0\<rparr>"

text \<open>
  \<open>vg_ctrl_init\<close>: \<open>mem\<close> says which of the three allocations succeed (pool, heads, snapshots). The
  outer \<open>option\<close> is termination, the inner result is \<open>None\<close> for -1.
\<close>

definition vg_ctrl_init ::
  "bool \<times> bool \<times> bool \<Rightarrow> vg_config \<Rightarrow> vg_maps \<Rightarrow> string \<Rightarrow> string \<Rightarrow> vg_ctrl option option" where
  "vg_ctrl_init mem cf m path iface =
     (case nbuckets_loop (drop_cap cf) 1024 of
        None \<Rightarrow> None
      | Some nb \<Rightarrow>
          (let (pool_ok, heads_ok, snap_ok) = mem in
           if \<not> pool_ok \<or> \<not> heads_ok then Some None
           else if \<not> snap_ok then Some None
           else Some (Some
             \<lparr>state = VG_IDLE, cfg = cf, maps = m,
              cfg_path = take (VG_CFG_PATH_MAX - 1) path,
              iface_override = take (VG_MAX_IFACE - 1) iface,
              last_m = \<lparr>rx_pkts = 0, rx_bytes = 0, passed = 0, dropped = 0, non_ip = 0,
                        map_full = 0, parse_err = 0\<rparr>,
              have_last_m = False, last_tick = \<lparr>tv_sec = 0, tv_nsec = 0\<rparr>, have_last_tick = False,
              rx_pps = 0, rx_bps = 0, quiet_since = 0,
              tab = drop_tab_init (drop_cap cf) nb, drops_new = [0, 0, 0, 0, 0], drops_again = 0,
              snap = snap_reset_pool (snap_tab_zero (snap_size cf))\<rparr>)))"

subsection \<open>Arming and disarming\<close>

definition vg_ctrl_arm :: "'w kern \<Rightarrow> vg_ctrl \<Rightarrow> 'w \<Rightarrow> int \<times> vg_ctrl \<times> 'w" where
  "vg_ctrl_arm K c w =
     (if state c = VG_ACTIVE then (0, c, w)
      else
        (let c = c\<lparr>snap := snap_clear (snap c)\<rparr>;
             c = c\<lparr>quiet_since := 0\<rparr>;
             (e, w) = vg_cfg_commit K 1 (cfg c) w
         in if e \<noteq> None then (- 1, c, w)
            else (0, c\<lparr>state := VG_ACTIVE\<rparr>, w)))"

definition vg_ctrl_disarm :: "'w kern \<Rightarrow> vg_ctrl \<Rightarrow> 'w \<Rightarrow> int \<times> vg_ctrl \<times> 'w" where
  "vg_ctrl_disarm K c w =
     (let w = vg_drop_flush K w;
          c = c\<lparr>tab := drops_reset (tab c)\<rparr>;
          (e, w) = vg_cfg_commit K 0 (cfg c) w
      in if e \<noteq> None then (- 1, c, w)
         else (0, c\<lparr>state := VG_IDLE, quiet_since := 0\<rparr>, w))"

subsection \<open>Dropping and lifting\<close>

definition drop_remove :: "'w kern \<Rightarrow> vg_ctrl \<Rightarrow> nat \<Rightarrow> 'w \<Rightarrow> int \<times> vg_ctrl \<times> 'w" where
  "drop_remove K c r w =
     (let (e, w) = vg_drop_del K (cidr (drop_pool (tab c) r)) w
      in if e \<noteq> None \<and> e \<noteq> Some ENOENT then (- 1, c, w)
         else (0, c\<lparr>tab := drop_unlink r (tab c)\<rparr>, w))"

text \<open>The expiry time a re-drop leaves: a timed drop replaces policy drops and only extends.\<close>

definition redrop_expires :: "vg_config \<Rightarrow> vg_drop_rec \<Rightarrow> int \<Rightarrow> int" where
  "redrop_expires cf r ex =
     (let old = (if reason r \<noteq> VG_REASON_TIMED then inserted r + ban_time cf else expires r)
      in if ex < old then old else ex)"

definition count_new :: "u32 \<Rightarrow> vg_ctrl \<Rightarrow> vg_ctrl" where
  "count_new rsn c =
     (let i = (if rsn \<le> VG_REASON_TIMED then unat rsn else 0)
      in c\<lparr>drops_new := (drops_new c)[i := drops_new c ! i + 1]\<rparr>)"

definition add_new_drop ::
  "'w kern \<Rightarrow> vg_ctrl \<Rightarrow> vg_cidr \<Rightarrow> u32 \<Rightarrow> int \<Rightarrow> int \<Rightarrow> 'w \<Rightarrow> int \<times> vg_ctrl \<times> 'w" where
  "add_new_drop K c p rsn ex now w =
     (let (ro, t) = drop_alloc (tab c); c = c\<lparr>tab := t\<rparr> in
      case ro of
        None \<Rightarrow> (- 1, c, w)
      | Some r \<Rightarrow>
          (let (e, w) = vg_drop_add K p rsn (word_of_int now) w in
           if e \<noteq> None then (- 1, c\<lparr>tab := drop_release r (tab c)\<rparr>, w)
           else
             (let d = \<lparr>cidr = p, reason = rsn, inserted = now, expires = ex\<rparr>;
                  c = c\<lparr>tab := drop_link r d (tab c)\<rparr>
              in (0, count_new rsn c, w))))"

text \<open>
  The branch for a listed prefix. \<open>r->expires\<close> is written before the map update, which may fail.
\<close>

definition redrop ::
  "'w kern \<Rightarrow> vg_ctrl \<Rightarrow> nat \<Rightarrow> vg_cidr \<Rightarrow> u32 \<Rightarrow> int \<Rightarrow> int \<Rightarrow> 'w \<Rightarrow> int \<times> vg_ctrl \<times> 'w" where
  "redrop K c r p rsn ex now w =
     (let d = drop_pool (tab c) r in
      if rsn = VG_REASON_TIMED \<and> reason d = VG_REASON_MANUAL then (0, c, w)
      else
        (let c = (if rsn = VG_REASON_TIMED \<and> reason d \<noteq> VG_REASON_TIMED
                  then c\<lparr>tab := set_rec r (d\<lparr>expires := inserted d + ban_time (cfg c)\<rparr>) (tab c)\<rparr>
                  else c);
             ex = (if rsn = VG_REASON_TIMED then redrop_expires (cfg c) d ex else ex);
             (e, w) = vg_drop_add K p rsn (word_of_int now) w
         in if e \<noteq> None then (- 1, c, w)
            else
              (let c = (if rsn = VG_REASON_MANUAL \<or> rsn = VG_REASON_TIMED
                        then c\<lparr>tab := set_rec r ((drop_pool (tab c) r)
                               \<lparr>reason := rsn, inserted := now, expires := ex\<rparr>) (tab c)\<rparr>
                        else c)
               in (0, c\<lparr>drops_again := drops_again c + 1\<rparr>, w))))"

definition drop_add ::
  "'w kern \<Rightarrow> vg_ctrl \<Rightarrow> vg_cidr \<Rightarrow> u32 \<Rightarrow> int \<Rightarrow> 'w \<Rightarrow> int \<times> vg_ctrl \<times> 'w" where
  "drop_add K c p rsn ex w =
     (let (now, w) = k_time K w in
      if vg_cidr_is_protected (cfg c) p then (- 1, c, w)
      else
        (let (a, c, w) = (if state c \<noteq> VG_ACTIVE then vg_ctrl_arm K c w else (0, c, w)) in
         if a < 0 then (- 1, c, w)
         else (case drops_find (tab c) p of
                 None \<Rightarrow> add_new_drop K c p rsn ex now w
               | Some r \<Rightarrow> redrop K c r p rsn ex now w)))"

definition vg_ctrl_drop :: "'w kern \<Rightarrow> vg_ctrl \<Rightarrow> vg_cidr \<Rightarrow> u32 \<Rightarrow> 'w \<Rightarrow> int \<times> vg_ctrl \<times> 'w" where
  "vg_ctrl_drop K c p rsn w = drop_add K c p rsn 0 w"

definition vg_ctrl_drop_ttl :: "'w kern \<Rightarrow> vg_ctrl \<Rightarrow> vg_cidr \<Rightarrow> u32 \<Rightarrow> 'w \<Rightarrow> int \<times> vg_ctrl \<times> 'w" where
  "vg_ctrl_drop_ttl K c p ttl w =
     (let (t, w) = k_time K w in drop_add K c p VG_REASON_TIMED (t + uint ttl) w)"

definition vg_ctrl_undrop :: "'w kern \<Rightarrow> vg_ctrl \<Rightarrow> vg_cidr \<Rightarrow> 'w \<Rightarrow> int \<times> vg_ctrl \<times> 'w" where
  "vg_ctrl_undrop K c p w =
     (case drops_find (tab c) p of
        Some r \<Rightarrow>
          (let (x, c, w) = drop_remove K c r w in if x < 0 then (- 1, c, w) else (0, c, w))
      | None \<Rightarrow>
          (let (e, w) = vg_drop_del K p w
           in if e \<noteq> None \<and> e \<noteq> Some ENOENT then (- 1, c, w) else (0, c, w)))"

text \<open>
  \<open>vg_list_for_each_safe\<close> over the drop list: \<open>nx\<close> is read before the body runs. The body works on
  the record number, a counter, the controller and the world.
\<close>

type_synonym 'w walk = "int \<times> vg_ctrl \<times> 'w"

fun for_each_safe :: "nat \<Rightarrow> (nat \<Rightarrow> 'w walk \<Rightarrow> 'w walk) \<Rightarrow> lnode \<Rightarrow> lnode \<Rightarrow> 'w walk \<Rightarrow> 'w walk" where
  "for_each_safe 0 body l nx s = s"
| "for_each_safe (Suc fuel) body l nx s =
     (if l = All then s
      else case vg_list_entry l of
             None \<Rightarrow> s
           | Some r \<Rightarrow>
               (let s = body r s; L = links (tab (fst (snd s)))
                in for_each_safe fuel body nx (next L nx) s))"

definition walk_all :: "(nat \<Rightarrow> 'w walk \<Rightarrow> 'w walk) \<Rightarrow> vg_ctrl \<Rightarrow> 'w \<Rightarrow> 'w walk" where
  "walk_all body c w =
     (let L = links (tab c); l = next L All
      in for_each_safe (Suc (unat (drop_used (tab c)))) body l (next L l) (0, c, w))"

definition prune_body :: "'w kern \<Rightarrow> nat \<Rightarrow> 'w walk \<Rightarrow> 'w walk" where
  "prune_body K r s =
     (case s of (n, c, w) \<Rightarrow>
        if \<not> vg_cidr_is_protected (cfg c) (cidr (drop_pool (tab c) r)) then (n, c, w)
        else (case drop_remove K c r w of (x, c, w) \<Rightarrow> (if x = 0 then n + 1 else n, c, w)))"

definition vg_ctrl_prune_protected :: "'w kern \<Rightarrow> vg_ctrl \<Rightarrow> 'w \<Rightarrow> int \<times> vg_ctrl \<times> 'w" where
  "vg_ctrl_prune_protected K c w = walk_all (prune_body K) c w"

definition expired :: "vg_config \<Rightarrow> int \<Rightarrow> vg_drop_rec \<Rightarrow> bool" where
  "expired cf now r \<longleftrightarrow>
     \<not> (reason r = VG_REASON_MANUAL \<or>
        (if reason r = VG_REASON_TIMED then now < expires r else now - inserted r < ban_time cf))"

definition expire_body :: "'w kern \<Rightarrow> int \<Rightarrow> nat \<Rightarrow> 'w walk \<Rightarrow> 'w walk" where
  "expire_body K now r s =
     (case s of (n, c, w) \<Rightarrow>
        if \<not> expired (cfg c) now (drop_pool (tab c) r) then (n, c, w)
        else (case drop_remove K c r w of (x, c, w) \<Rightarrow> (if x < 0 then n else n + 1, c, w)))"

definition expire_drops :: "'w kern \<Rightarrow> vg_ctrl \<Rightarrow> 'w \<Rightarrow> vg_ctrl \<times> 'w" where
  "expire_drops K c w =
     (let (now, w) = k_time K w; (n, c, w) = walk_all (expire_body K now) c w in (c, w))"

subsection \<open>Policy on remote hosts\<close>

fun agg_loop :: "nat \<Rightarrow> drop_tab \<Rightarrow> vg_cidr \<Rightarrow> lnode \<Rightarrow> int \<Rightarrow> int" where
  "agg_loop 0 t net l n = n"
| "agg_loop (Suc fuel) t net l n =
     (if l = All then n
      else case vg_list_entry l of
             None \<Rightarrow> n
           | Some r \<Rightarrow>
               (let d = drop_pool t r
                in agg_loop fuel t net (next (links t) l)
                     (if reason d \<noteq> VG_REASON_TIMED \<and> vg_cidr_contains net (cidr d) then n + 1 else n)))"

definition maybe_aggregate :: "'w kern \<Rightarrow> vg_ctrl \<Rightarrow> vg_cidr \<Rightarrow> 'w \<Rightarrow> int \<times> vg_ctrl \<times> 'w" where
  "maybe_aggregate K c host w =
     (case (if family host = AF_INET then vg_cidr_v4_slash24 host else vg_cidr_v6_slash64 host) of
        None \<Rightarrow> (0, c, w)
      | Some net \<Rightarrow>
          (let t = tab c;
               n = agg_loop (Suc (unat (drop_used t))) t net (next (links t) All) 0
           in if n \<ge> aggregate_k (cfg c) then vg_ctrl_drop K c net VG_REASON_AGGREGATE w
              else (0, c, w)))"

definition delta :: "u64 \<Rightarrow> u64 \<Rightarrow> u64" where
  "delta cur old = (if cur \<ge> old then cur - old else 0)"

definition per_sec :: "(real \<Rightarrow> real) \<Rightarrow> u64 \<Rightarrow> real \<Rightarrow> real" where
  "per_sec fl n dt = fl (fl (real (unat n)) / dt)"

definition bits_per_sec :: "(real \<Rightarrow> real) \<Rightarrow> u64 \<Rightarrow> real \<Rightarrow> real" where
  "bits_per_sec fl n dt = fl (fl (fl (real (unat n)) * 8) / dt)"

definition as_mbps :: "(real \<Rightarrow> real) \<Rightarrow> u64 \<Rightarrow> real" where
  "as_mbps fl n = fl (fl (real (unat n)) * 1000000)"

text \<open>The test that lets a remote host be: both rates are below the thresholds.\<close>

definition below_threshold :: "(real \<Rightarrow> real) \<Rightarrow> vg_config \<Rightarrow> u64 \<Rightarrow> u64 \<Rightarrow> real \<Rightarrow> bool" where
  "below_threshold fl cf dp db dt \<longleftrightarrow>
     per_sec fl dp dt < fl (real (unat (threshold_pps cf))) \<and>
     bits_per_sec fl db dt < as_mbps fl (threshold_mbps cf)"

definition host_cidr :: "family \<Rightarrow> bytes \<Rightarrow> vg_cidr" where
  "host_cidr fam a =
     \<lparr>family = fam, addr = take (nbytes fam) a @ replicate (16 - nbytes fam) 0,
      prefixlen = (if fam = AF_INET then 32 else 128)\<rparr>"

definition policy_one_remote ::
  "'w kern \<Rightarrow> (real \<Rightarrow> real) \<Rightarrow> real \<Rightarrow> family \<Rightarrow> bytes \<Rightarrow> host_counters \<Rightarrow> vg_ctrl \<Rightarrow> 'w \<Rightarrow> vg_ctrl \<times> 'w" where
  "policy_one_remote K fl dt fam a cur c w =
     (case snap_get (snap c) fam a of
        (None, _, t) \<Rightarrow> (c\<lparr>snap := t\<rparr>, w)
      | (Some e, True, t) \<Rightarrow> (c\<lparr>snap := store e (in_pkts cur) (in_bytes cur) t\<rparr>, w)
      | (Some e, False, t) \<Rightarrow>
          (let dp = delta (in_pkts cur) (s_in_pkts (snap_pool t e));
               db = delta (in_bytes cur) (s_in_bytes (snap_pool t e));
               c = c\<lparr>snap := store e (in_pkts cur) (in_bytes cur) t\<rparr>
           in if dt \<le> 0 then (c, w)
              else if below_threshold fl (cfg c) dp db dt then (c, w)
              else
                (let p = host_cidr fam a;
                     (x, c, w) = vg_ctrl_drop K c p VG_REASON_POLICY w
                 in if x = 0 then (let (_, c, w) = maybe_aggregate K c p w in (c, w))
                    else (c, w))))"

definition walk_remotes :: "'w kern \<Rightarrow> (real \<Rightarrow> real) \<Rightarrow> real \<Rightarrow> vg_ctrl \<Rightarrow> 'w \<Rightarrow> vg_ctrl \<times> 'w" where
  "walk_remotes K fl dt c w =
     (let budget = remote_map_size (cfg c);
          budget = (if budget = 0 then VG_REMOTE_MAP_MAX else budget);
          c = c\<lparr>snap := (snap c)\<lparr>snap_gen := snap_gen (snap c) + 1\<rparr>\<rparr>;
          c = (if snap_gen (snap c) = 0
               then c\<lparr>snap := (snap_reset_pool (snap c))\<lparr>snap_gen := 1\<rparr>\<rparr> else c);
          (complete, c, w) = vg_remote_foreach K (maps c) budget (policy_one_remote K fl dt) c w
      in if complete = 1 then (c\<lparr>snap := snap_prune (snap c)\<rparr>, w) else (c, w))"

subsection \<open>The tick\<close>

definition log_drops :: "vg_ctrl \<Rightarrow> vg_ctrl" where
  "log_drops c = c\<lparr>drops_new := [0, 0, 0, 0, 0], drops_again := 0\<rparr>"

definition tick_dt :: "'w kern \<Rightarrow> (real \<Rightarrow> real) \<Rightarrow> vg_ctrl \<Rightarrow> 'w \<Rightarrow> real \<times> vg_ctrl \<times> 'w" where
  "tick_dt K fl c w =
     (let (now, w) = k_monotonic K w in
      if \<not> have_last_tick c then (0, c\<lparr>last_tick := now, have_last_tick := True\<rparr>, w)
      else
        (let dt = fl (fl (of_int (tv_sec now - tv_sec (last_tick c))) +
                      fl (fl (of_int (tv_nsec now - tv_nsec (last_tick c))) / 1000000000))
         in (dt, c\<lparr>last_tick := now\<rparr>, w)))"

definition over_wake :: "(real \<Rightarrow> real) \<Rightarrow> vg_ctrl \<Rightarrow> bool" where
  "over_wake fl c \<longleftrightarrow>
     rx_pps c > fl (real (unat (wake_pps (cfg c)))) \<or> rx_bps c > as_mbps fl (wake_mbps (cfg c))"

definition under_wake :: "(real \<Rightarrow> real) \<Rightarrow> vg_ctrl \<Rightarrow> bool" where
  "under_wake fl c \<longleftrightarrow>
     rx_pps c < fl (real (unat (wake_pps (cfg c)))) \<and> rx_bps c < as_mbps fl (wake_mbps (cfg c))"

definition tick_rates :: "(real \<Rightarrow> real) \<Rightarrow> real \<Rightarrow> vg_metrics \<Rightarrow> vg_ctrl \<Rightarrow> vg_ctrl" where
  "tick_rates fl dt m c =
     (let c = (if have_last_m c \<and> dt > 0 then
                 c\<lparr>rx_pps := per_sec fl (delta (rx_pkts m) (rx_pkts (last_m c))) dt,
                   rx_bps := bits_per_sec fl (delta (rx_bytes m) (rx_bytes (last_m c))) dt\<rparr>
               else c)
      in c\<lparr>last_m := m, have_last_m := True\<rparr>)"

definition tick_quiet :: "'w kern \<Rightarrow> (real \<Rightarrow> real) \<Rightarrow> vg_ctrl \<Rightarrow> 'w \<Rightarrow> vg_ctrl \<times> 'w" where
  "tick_quiet K fl c w =
     (if under_wake fl c then
        (let (c, w) = (if quiet_since c = 0
                       then (let (t, w) = k_time K w in (c\<lparr>quiet_since := t\<rparr>, w)) else (c, w))
         in if drop_count (tab c) = 0 then
              (let (t, w) = k_time K w in
               if t - quiet_since c \<ge> clear_seconds (cfg c)
               then (let (_, c, w) = vg_ctrl_disarm K c w in (c, w)) else (c, w))
            else (c, w))
      else (c\<lparr>quiet_since := 0\<rparr>, w))"

definition vg_ctrl_tick :: "'w kern \<Rightarrow> (real \<Rightarrow> real) \<Rightarrow> vg_ctrl \<Rightarrow> 'w \<Rightarrow> int \<times> vg_ctrl \<times> 'w" where
  "vg_ctrl_tick K fl c w =
     (let (dt, c, w) = tick_dt K fl c w;
          c = log_drops c;
          (mo, w) = vg_metrics_read K (maps c) w
      in case mo of
           None \<Rightarrow> (- 1, c, w)
         | Some m \<Rightarrow>
             (let c = tick_rates fl dt m c in
              if dt \<le> 0 then (0, c, w)
              else if state c = VG_IDLE then
                (if over_wake fl c then (let (_, c, w) = vg_ctrl_arm K c w in (0, c, w))
                 else (0, c, w))
              else
                (let (c, w) = walk_remotes K fl dt c w;
                     (c, w) = expire_drops K c w;
                     (c, w) = tick_quiet K fl c w
                 in (0, c, w))))"

end
