(* ===== verification/PolicyInv.thy ===== *)
theory PolicyInv
  imports Policy
begin

section \<open>Invariants of the control plane\<close>

text \<open>
  The invariant that every control operation keeps, between the controller and the kernel's maps.
  The controller's part: the drop table and the snapshot pool are represented, an idle controller
  lists nothing, and with \<open>pr\<close> no listed prefix covers a protected address (a reload changes what is
  protected and restores this by pruning). The joint part: the data plane
  is armed exactly when the controller is active, and then its array of ports is full length, and every listed prefix is in the kernel's drop
  map of its family. With \<open>rel\<close> (a kernel on which deleting a present entry succeeds) the drop
  maps hold nothing else. \<open>good\<close> adds what no operation changes.
\<close>

definition listed :: "vg_ctrl \<Rightarrow> vg_cidr set" where
  "listed c = cidr ` set (drops (tab c))"

definition ctrl_ok :: "bool \<Rightarrow> vg_ctrl \<Rightarrow> bool" where
  "ctrl_ok pr c \<longleftrightarrow> tab_ok (tab c) \<and> snap_ok (snap c) \<and> length (drops_new c) = 5 \<and> config_ok (cfg c) \<and>
     (pr \<longrightarrow> (\<forall>p \<in> listed c. \<not> vg_cidr_is_protected (cfg c) p)) \<and>
     (state c = VG_IDLE \<longrightarrow> drops (tab c) = [])"

definition synced :: "bool \<Rightarrow> vg_ctrl \<Rightarrow> kview \<Rightarrow> bool" where
  "synced rel c v \<longleftrightarrow> keys_ok v \<and> (state c = VG_ACTIVE \<longleftrightarrow> armed (kcfg v) \<noteq> 0) \<and>
     (state c = VG_ACTIVE \<longrightarrow> length (bc_allow_ports (kcfg v)) = VG_MAX_ALLOW_PORTS) \<and>
     (\<forall>p \<in> listed c. cidr_key p \<in> dom (ents v (drop_map (family p)))) \<and>
     (rel \<longrightarrow> (\<forall>f. \<forall>k \<in> dom (ents v (drop_map f)). \<exists>p \<in> listed c. family p = f \<and> k = cidr_key p))"

definition ctrl_inv :: "bool \<Rightarrow> bool \<Rightarrow> vg_ctrl \<Rightarrow> kview \<Rightarrow> bool" where
  "ctrl_inv rel pr c v \<longleftrightarrow> ctrl_ok pr c \<and> synced rel c v"

definition others :: "vg_ctrl \<Rightarrow> kview \<Rightarrow> vg_ctrl \<Rightarrow> kview \<Rightarrow> bool" where
  "others c v c' v' \<longleftrightarrow> cfg c' = cfg c \<and> maps c' = maps c \<and> cfg_path c' = cfg_path c \<and>
     iface_override c' = iface_override c \<and>
     (\<forall>m. m \<noteq> Drop_v4 \<longrightarrow> m \<noteq> Drop_v6 \<longrightarrow> ents v' m = ents v m)"

definition good :: "bool \<Rightarrow> bool \<Rightarrow> vg_ctrl \<Rightarrow> kview \<Rightarrow> vg_ctrl \<Rightarrow> kview \<Rightarrow> bool" where
  "good rel pr c v c' v' \<longleftrightarrow> (ctrl_inv rel pr c v \<longrightarrow> ctrl_inv rel pr c' v') \<and> others c v c' v'"

lemma good_refl [simp]: "good rel pr c v c v"
  by (simp add: good_def others_def)

lemma good_trans: "good rel pr c v c' v' \<Longrightarrow> good rel pr c' v' c'' v'' \<Longrightarrow> good rel pr c v c'' v''"
  by (auto simp: good_def others_def)

lemma drop_map_cases: "drop_map f = Drop_v4 \<or> drop_map f = Drop_v6"
  by (simp add: drop_map_def)

lemma drop_map_inj [simp]: "drop_map f = drop_map g \<longleftrightarrow> f = g"
  by (cases f; cases g) (simp_all add: drop_map_def)

lemma listed_wf: "ctrl_ok pr c \<Longrightarrow> p \<in> listed c \<Longrightarrow> cidr_wf p"
  using tab_facts(5) by (auto simp: ctrl_ok_def listed_def)

lemma cidr_image_map:
  assumes "\<And>d. cidr (f d) = cidr d"
  shows "cidr ` set (map (\<lambda>d. if cidr d = q then f d else d) ds) = cidr ` set ds"
  unfolding set_map image_image by (rule image_cong) (simp_all add: assms)

lemma find_listed:
  "ctrl_ok pr c \<Longrightarrow> cidr_wf p \<Longrightarrow> drops_find (tab c) p = None \<longleftrightarrow> p \<notin> listed c"
  using tab_find_none by (auto simp: ctrl_ok_def listed_def)

lemma ids_listed: "r \<in> set (drop_ids (tab c)) \<Longrightarrow> cidr (drop_pool (tab c) r) \<in> listed c"
  by (auto simp: listed_def drops_def)

text \<open>
  What re-dropping makes of a record: manual wins, timed only extends (a drop that was not timed would
  have been lifted \<open>ban_time\<close> after it was made), policy leaves it alone.
\<close>

definition redrop_rec :: "vg_config \<Rightarrow> u32 \<Rightarrow> int \<Rightarrow> int \<Rightarrow> vg_drop_rec \<Rightarrow> vg_drop_rec" where
  "redrop_rec cf rsn now ex r =
     (if rsn = VG_REASON_TIMED \<and> reason r = VG_REASON_MANUAL then r
      else if rsn = VG_REASON_MANUAL then r\<lparr>reason := rsn, inserted := now, expires := ex\<rparr>
      else if rsn = VG_REASON_TIMED
      then r\<lparr>reason := rsn, inserted := now, expires :=
             max ex (if reason r = VG_REASON_TIMED then expires r else inserted r + ban_time cf)\<rparr>
      else r)"

lemma redrop_expires_max:
  "redrop_expires cf r ex = max ex (if reason r = VG_REASON_TIMED then expires r else inserted r + ban_time cf)"
  by (simp add: redrop_expires_def Let_def max_def)

text \<open>The list of drops after a prefix is dropped.\<close>

definition drop_spec ::
  "vg_config \<Rightarrow> vg_cidr \<Rightarrow> u32 \<Rightarrow> int \<Rightarrow> int \<Rightarrow> vg_drop_rec list \<Rightarrow> vg_drop_rec list" where
  "drop_spec cf p rsn now ex ds =
     (if p \<in> cidr ` set ds
      then map (\<lambda>d. if cidr d = p then redrop_rec cf rsn now ex d else d) ds
      else ds @ [\<lparr>cidr = p, reason = rsn, inserted = now, expires = ex\<rparr>])"

text \<open>A failed re-drop may only have recorded the lift time of a policy drop.\<close>

definition note_expiry :: "vg_config \<Rightarrow> u32 \<Rightarrow> vg_drop_rec \<Rightarrow> vg_drop_rec" where
  "note_expiry cf rsn r =
     (if rsn = VG_REASON_TIMED \<and> reason r \<noteq> VG_REASON_TIMED
      then r\<lparr>expires := inserted r + ban_time cf\<rparr> else r)"

lemma count_new_fields [simp]:
  "tab (count_new n c) = tab c" "cfg (count_new n c) = cfg c" "maps (count_new n c) = maps c"
  "state (count_new n c) = state c" "snap (count_new n c) = snap c"
  "cfg_path (count_new n c) = cfg_path c" "iface_override (count_new n c) = iface_override c"
  "length (drops_new (count_new n c)) = length (drops_new c)" "listed (count_new n c) = listed c"
  by (simp_all add: count_new_def Let_def listed_def)

lemma redrop_alt:
  assumes "\<not> (rsn = VG_REASON_TIMED \<and> reason (drop_pool (tab c) r) = VG_REASON_MANUAL)"
  shows "redrop K c r p rsn ex now w =
    (case vg_drop_add K p rsn (word_of_int now) w of
       (e, w) \<Rightarrow>
         if e \<noteq> None then (- 1, c\<lparr>tab := set_rec r (note_expiry (cfg c) rsn (drop_pool (tab c) r)) (tab c)\<rparr>, w)
         else (0, c\<lparr>tab := set_rec r (redrop_rec (cfg c) rsn now ex (drop_pool (tab c) r)) (tab c),
                    drops_again := drops_again c + 1\<rparr>, w))"
proof -
  obtain e w1 where e: "vg_drop_add K p rsn (word_of_int now) w = (e, w1)" by fastforce
  consider "rsn = VG_REASON_TIMED" "reason (drop_pool (tab c) r) = VG_REASON_TIMED"
    | "rsn = VG_REASON_TIMED" "reason (drop_pool (tab c) r) \<noteq> VG_REASON_TIMED"
    | "rsn = VG_REASON_MANUAL" | "rsn \<noteq> VG_REASON_MANUAL" "rsn \<noteq> VG_REASON_TIMED"
    by blast
  then show ?thesis
    using assms e by cases (simp_all add: redrop_def Let_def set_rec_def note_expiry_def redrop_rec_def redrop_expires_max)
qed

lemma arm_if: "(if state c \<noteq> VG_ACTIVE then vg_ctrl_arm K c w else (0, c, w)) = vg_ctrl_arm K c w"
  by (simp add: vg_ctrl_arm_def)

subsection \<open>Adding and removing one prefix on both sides\<close>

definition add_entry :: "vg_cidr \<Rightarrow> lpm_val \<Rightarrow> kview \<Rightarrow> kview \<Rightarrow> bool" where
  "add_entry p x v v' \<longleftrightarrow> ents v' = (ents v)(drop_map (family p) :=
     (ents v (drop_map (family p)))(cidr_key p \<mapsto> x)) \<and> kcfg v' = kcfg v"

definition del_entry :: "vg_cidr \<Rightarrow> kview \<Rightarrow> kview \<Rightarrow> bool" where
  "del_entry p v v' \<longleftrightarrow> ents v' = (ents v)(drop_map (family p) :=
     (ents v (drop_map (family p)))(cidr_key p := None)) \<and> kcfg v' = kcfg v"

lemma entry_others:
  assumes "add_entry p x v v' \<or> del_entry p v v'" "m \<noteq> Drop_v4" "m \<noteq> Drop_v6"
  shows "ents v' m = ents v m"
  using assms drop_map_cases [of "family p"] by (auto simp: add_entry_def del_entry_def)

lemma synced_no_stray:
  assumes "synced rel c v" "rel" "k \<in> dom (ents v (drop_map f))"
  obtains q where "q \<in> listed c" "family q = f" "k = cidr_key q"
  using assms unfolding synced_def by blast

lemma synced_add:
  assumes s: "synced rel c v" and a: "add_entry p x v v'" and wf: "cidr_wf p"
    and st: "state c' = state c" and l: "listed c' = insert p (listed c)"
  shows "synced rel c' v'"
proof -
  have "key_ok (drop_map (family p)) (cidr_key p)" using wf by (intro cidr_key_ok) simp_all
  then have "keys_ok v'" using s a by (auto simp: synced_def keys_ok_def add_entry_def)
  moreover have "\<forall>q \<in> listed c'. cidr_key q \<in> dom (ents v' (drop_map (family q)))"
    using s a l by (auto simp: synced_def add_entry_def)
  moreover have "\<exists>q \<in> listed c'. family q = f \<and> k = cidr_key q"
    if "rel" "k \<in> dom (ents v' (drop_map f))" for f k
  proof (cases "f = family p \<and> k = cidr_key p")
    case False
    then have "k \<in> dom (ents v (drop_map f))" using that(2) a by (auto simp: add_entry_def split: if_splits)
    from synced_no_stray [OF s that(1) this] show ?thesis using l by blast
  qed (use l in auto)
  ultimately show ?thesis using s a st by (simp add: synced_def add_entry_def)
qed

lemma synced_del:
  assumes s: "synced rel c v" and d: "del_entry p v v'" and wf: "cidr_wf p"
    and wfl: "\<And>q. q \<in> listed c \<Longrightarrow> cidr_wf q"
    and st: "state c' = state c" and l: "listed c' = listed c - {p}"
  shows "synced rel c' v'"
proof -
  have "keys_ok v'" using s d by (auto simp: synced_def keys_ok_def del_entry_def split: if_splits)
  moreover have "cidr_key q \<in> dom (ents v' (drop_map (family q)))" if "q \<in> listed c'" for q
  proof -
    have q: "q \<in> listed c" "q \<noteq> p" using that l by auto
    then have "family q = family p \<Longrightarrow> cidr_key q \<noteq> cidr_key p"
      using cidr_key_inj [OF wfl wf] by blast
    then show ?thesis using s d q by (auto simp: synced_def del_entry_def)
  qed
  moreover have "\<exists>q \<in> listed c'. family q = f \<and> k = cidr_key q"
    if "rel" "k \<in> dom (ents v' (drop_map f))" for f k
  proof -
    have "k \<in> dom (ents v (drop_map f))" "f = family p \<Longrightarrow> k \<noteq> cidr_key p"
      using that(2) d by (auto simp: del_entry_def split: if_splits)
    with synced_no_stray [OF s that(1)] obtain q where "q \<in> listed c" "family q = f" "k = cidr_key q" "q \<noteq> p"
      by metis
    then show ?thesis using l by auto
  qed
  ultimately show ?thesis using s d st by (simp add: synced_def del_entry_def)
qed

context bpf_kernel
begin

lemma time_step: "k_time K w = (t, w') \<Longrightarrow> view w' = view w"
  using time_view [of w] by simp

lemma drop_add_entry:
  assumes "vg_drop_add K p r t w = (None, w')" "cidr_wf p"
  shows "add_entry p (DropV \<lparr>e_reason = r, insert_time = t\<rparr>) (view w) (view w')"
  using drop_add_ok [OF assms] by (simp add: add_entry_def)

lemma drop_del_entry:
  assumes "vg_drop_del K p w = (e, w')" "cidr_wf p" "\<not> (e \<noteq> None \<and> e \<noteq> Some ENOENT)"
  shows "del_entry p (view w) (view w')"
proof -
  have "e = None \<or> e = Some ENOENT" using assms(3) by auto
  from drop_del_gone [OF assms(1,2) this] show ?thesis by (simp add: del_entry_def)
qed

subsection \<open>Arming and disarming keep the invariant\<close>

lemma commit_view:
  assumes "vg_cfg_commit K a cf w = (e, w')"
  shows "view w' = (if e = None then (view w)\<lparr>kcfg := mk_cfg a cf\<rparr> else view w)"
  using assms cfg_ok cfg_err by (cases e) (auto simp: vg_cfg_commit_def)

lemma armed_mk_cfg [simp]: "armed (mk_cfg a cf) = a"
  by (simp add: mk_cfg_def Let_def)

lemma ports_mk_cfg [simp]: "length (bc_allow_ports (mk_cfg a cf)) = VG_MAX_ALLOW_PORTS"
proof -
  have "unat (of_nat (length (allow_ports cf)) :: u16) \<le> length (allow_ports cf)" by (simp add: unat_of_nat)
  then show ?thesis by (auto simp: mk_cfg_def Let_def word_less_nat_alt min_def)
qed

lemma arm_good:
  assumes "vg_ctrl_arm K c w = (x, c', w')"
  shows "good rel pr c (view w) c' (view w')" and "x = 0 \<longleftrightarrow> state c' = VG_ACTIVE" and "x = 0 \<or> x = - 1"
    and "tab c' = tab c" and "drops_new c' = drops_new c"
proof -
  obtain e w1 where e: "vg_cfg_commit K 1 (cfg c) w = (e, w1)" by fastforce
  have v: "view w1 = (if e = None then (view w)\<lparr>kcfg := mk_cfg 1 (cfg c)\<rparr> else view w)"
    using commit_view [OF e] .
  have "(good rel pr c (view w) c' (view w')) \<and> (x = 0 \<longleftrightarrow> state c' = VG_ACTIVE) \<and> (x = 0 \<or> x = - 1) \<and>
    tab c' = tab c \<and> drops_new c' = drops_new c"
  proof (cases "state c = VG_ACTIVE")
    case True
    then show ?thesis using assms by (simp add: vg_ctrl_arm_def)
  next
    case False
    then have idle: "state c = VG_IDLE" by (cases "state c") simp_all
    let ?c = "c\<lparr>snap := snap_clear (snap c), quiet_since := 0\<rparr>"
    have r: "(x, c', w') = (if e \<noteq> None then (- 1, ?c, w1) else (0, ?c\<lparr>state := VG_ACTIVE\<rparr>, w1))"
      using assms e idle by (simp add: vg_ctrl_arm_def Let_def)
    show ?thesis
    proof (cases e)
      case None
      then show ?thesis using r v snap_ok_reset(1) [of "snap c"]
        by (auto simp: good_def others_def ctrl_inv_def ctrl_ok_def synced_def listed_def snap_clear_def
            keys_ok_def idle)
    next
      case (Some y)
      then show ?thesis using r v snap_ok_reset(1) [of "snap c"]
        by (auto simp: good_def others_def ctrl_inv_def ctrl_ok_def synced_def listed_def snap_clear_def idle)
    qed
  qed
  then show "good rel pr c (view w) c' (view w')" and "x = 0 \<longleftrightarrow> state c' = VG_ACTIVE" and "x = 0 \<or> x = - 1"
    and "tab c' = tab c" and "drops_new c' = drops_new c" by auto
qed

lemma flush_one:
  assumes "keys_ok (view w)"
  shows "keys_ok (view (flush_lpm K m w))"
proof -
  have all: "\<forall>k \<in> dom (ents (view w) m). key_ok m k" using assms by (simp add: keys_ok_def)
  have "key_ok m' k" if "k \<in> dom (ents (view (flush_lpm K m w)) m')" for m' k
  proof (cases "m' = m")
    case True
    then show ?thesis
      using that flush_lpm_frame(2) [OF all] assms by (auto simp: keys_ok_def map_le_def dom_def)
  next
    case False
    then show ?thesis using that flush_lpm_frame(1) [OF all] assms by (simp add: keys_ok_def)
  qed
  then show ?thesis by (simp add: keys_ok_def)
qed

lemma flush_facts:
  assumes ok: "keys_ok (view w)"
  shows "keys_ok (view (vg_drop_flush K w))" and "kcfg (view (vg_drop_flush K w)) = kcfg (view w)"
    and "m \<noteq> Drop_v4 \<Longrightarrow> m \<noteq> Drop_v6 \<Longrightarrow> ents (view (vg_drop_flush K w)) m = ents (view w) m"
    and "bpf_kernel_reliable K view \<Longrightarrow> ents (view (vg_drop_flush K w)) (drop_map f) = Map.empty"
proof -
  let ?w = "flush_lpm K Drop_v4 w"
  have a4: "\<forall>k \<in> dom (ents (view w) Drop_v4). key_ok Drop_v4 k" using ok by (simp add: keys_ok_def)
  have ok4: "keys_ok (view ?w)" using ok by (rule flush_one)
  then have a6: "\<forall>k \<in> dom (ents (view ?w) Drop_v6). key_ok Drop_v6 k" by (simp add: keys_ok_def)
  show "keys_ok (view (vg_drop_flush K w))" unfolding vg_drop_flush_def using ok4 by (rule flush_one)
  show "kcfg (view (vg_drop_flush K w)) = kcfg (view w)"
    unfolding vg_drop_flush_def using flush_lpm_frame(3) [OF a4] flush_lpm_frame(3) [OF a6] by simp
  show "m \<noteq> Drop_v4 \<Longrightarrow> m \<noteq> Drop_v6 \<Longrightarrow> ents (view (vg_drop_flush K w)) m = ents (view w) m"
    unfolding vg_drop_flush_def using flush_lpm_frame(1) [OF a4] flush_lpm_frame(1) [OF a6] by simp
  assume R: "bpf_kernel_reliable K view"
  have "ents (view (vg_drop_flush K w)) Drop_v4 = Map.empty" "ents (view (vg_drop_flush K w)) Drop_v6 = Map.empty"
    unfolding vg_drop_flush_def
    using bpf_kernel_reliable.flush_lpm_empties [OF R a4] bpf_kernel_reliable.flush_lpm_empties [OF R a6]
      flush_lpm_frame(1) [OF a6, of Drop_v4] by simp_all
  then show "ents (view (vg_drop_flush K w)) (drop_map f) = Map.empty"
    using drop_map_cases [of f] by auto
qed

lemma disarm_good:
  assumes run: "vg_ctrl_disarm K c w = (x, c', w')" and R: "rel \<Longrightarrow> bpf_kernel_reliable K view"
    and inv: "ctrl_inv rel pr c (view w)"
  shows "good rel pr c (view w) c' (view w')" and "drops (tab c') = []" and "x = 0 \<or> x = - 1"
    and "x = 0 \<Longrightarrow> state c' = VG_IDLE"
proof -
  let ?w = "vg_drop_flush K w" and ?c = "c\<lparr>tab := drops_reset (tab c)\<rparr>"
  obtain e w1 where e: "vg_cfg_commit K 0 (cfg c) ?w = (e, w1)" by fastforce
  note v = commit_view [OF e]
  have ok: "keys_ok (view w)" and t: "tab_ok (tab c)" using inv by (auto simp: ctrl_inv_def ctrl_ok_def synced_def)
  note fl = flush_facts [OF ok] and tr = tab_reset [OF t]
  have r: "(x, c', w') = (if e \<noteq> None then (- 1, ?c, w1) else (0, ?c\<lparr>state := VG_IDLE, quiet_since := 0\<rparr>, w1))"
    using run e by (simp add: vg_ctrl_disarm_def Let_def)
  show "drops (tab c') = []" "x = 0 \<or> x = - 1" using r tr by (auto split: if_splits)
  have k: "keys_ok (view w1)" using fl(1) unfolding v by (simp add: keys_ok_def)
  have empty: "rel \<Longrightarrow> ents (view w1) (drop_map f) = Map.empty" for f
    using fl(4) [OF R] unfolding v by simp
  have others: "others c (view w) c' (view w1)"
    using r fl(3) unfolding v by (auto simp: others_def split: if_splits)
  have "ctrl_inv rel pr c' (view w1)"
    using r inv tr k empty v fl(2)
    by (auto simp: ctrl_inv_def ctrl_ok_def synced_def listed_def split: if_splits)
  then show "good rel pr c (view w) c' (view w')" using others r by (auto simp: good_def split: if_splits)
  show "x = 0 \<Longrightarrow> state c' = VG_IDLE" using r by (auto split: if_splits)
qed

subsection \<open>Lifting and adding keep the invariant\<close>

lemma remove_good:
  assumes run: "drop_remove K c r w = (x, c', w')" and inv: "ctrl_inv rel pr c (view w)"
    and r: "r \<in> set (drop_ids (tab c))"
  shows "good rel pr c (view w) c' (view w')" and "x = 0 \<or> x = - 1"
    and "x = - 1 \<Longrightarrow> c' = c \<and> view w' = view w"
    and "x = 0 \<Longrightarrow> c' = c\<lparr>tab := drop_unlink r (tab c)\<rparr>"
    and "bpf_kernel_reliable K view \<Longrightarrow> x = 0"
proof -
  let ?p = "cidr (drop_pool (tab c) r)"
  obtain e w1 where e: "vg_drop_del K ?p w = (e, w1)" by fastforce
  have res: "(x, c', w') = (if e \<noteq> None \<and> e \<noteq> Some ENOENT then (- 1, c, w1)
      else (0, c\<lparr>tab := drop_unlink r (tab c)\<rparr>, w1))"
    using run e by (simp add: drop_remove_def Let_def)
  have ok: "ctrl_ok pr c" and s: "synced rel c (view w)" using inv by (simp_all add: ctrl_inv_def)
  then have t: "tab_ok (tab c)" by (simp add: ctrl_ok_def)
  note u = tab_unlink [OF t r]
  have wf: "cidr_wf ?p" using listed_wf [OF ok ids_listed [OF r]] .
  show "x = 0 \<or> x = - 1" "x = 0 \<Longrightarrow> c' = c\<lparr>tab := drop_unlink r (tab c)\<rparr>"
    using res by (auto split: if_splits)
  show "x = - 1 \<Longrightarrow> c' = c \<and> view w' = view w" using res e drop_del_err by (auto split: if_splits)
  show "x = 0" if "bpf_kernel_reliable K view"
  proof -
    have "cidr_key ?p \<in> dom (ents (view w) (drop_map (family ?p)))"
      using s ids_listed [OF r] by (auto simp: synced_def)
    moreover have "key_ok (drop_map (family ?p)) (cidr_key ?p)" using wf by (intro cidr_key_ok) simp_all
    ultimately have "e = None"
      using e bpf_kernel_reliable.delete_present [OF that] by (metis fst_conv vg_drop_del_key)
    then show ?thesis using res by simp
  qed
  show "good rel pr c (view w) c' (view w')"
  proof (cases "e \<noteq> None \<and> e \<noteq> Some ENOENT")
    case True
    then show ?thesis using res drop_del_err e by auto
  next
    case False
    then have c': "c' = c\<lparr>tab := drop_unlink r (tab c)\<rparr>" "w' = w1" using res by auto
    have d: "del_entry ?p (view w) (view w1)" using drop_del_entry [OF e wf False] .
    have l: "listed c' = listed c - {?p}" using u(2) by (auto simp: listed_def c')
    have "synced rel c' (view w1)"
      using synced_del [OF s d wf listed_wf [OF ok]] l by (simp add: c')
    moreover have "ctrl_ok pr c'" using ok u(1,2) l by (auto simp: ctrl_ok_def c')
    ultimately show ?thesis
      using entry_others [of ?p _ "view w" "view w1"] d c' by (auto simp: good_def others_def ctrl_inv_def)
  qed
qed

lemma add_new_good:
  assumes run: "add_new_drop K c p rsn ex now w = (x, c', w')" and inv: "ctrl_inv rel pr c (view w)"
    and wf: "cidr_wf p" and np: "\<not> vg_cidr_is_protected (cfg c) p" and act: "state c = VG_ACTIVE"
    and new: "drops_find (tab c) p = None"
  shows "good rel pr c (view w) c' (view w')" and "x = 0 \<or> x = - 1"
    and "x = 0 \<Longrightarrow> drops (tab c') = drops (tab c) @ [\<lparr>cidr = p, reason = rsn, inserted = now, expires = ex\<rparr>]"
    and "x = - 1 \<Longrightarrow> drops (tab c') = drops (tab c) \<and> view w' = view w"
proof -
  let ?d = "\<lparr>cidr = p, reason = rsn, inserted = now, expires = ex\<rparr>"
  have ok: "ctrl_ok pr c" and s: "synced rel c (view w)" using inv by (simp_all add: ctrl_inv_def)
  then have t: "tab_ok (tab c)" by (simp add: ctrl_ok_def)
  obtain ro t1 where al: "drop_alloc (tab c) = (ro, t1)" by fastforce
  have "good rel pr c (view w) c' (view w') \<and> (x = 0 \<or> x = - 1) \<and>
    (x = 0 \<longrightarrow> drops (tab c') = drops (tab c) @ [?d]) \<and>
    (x = - 1 \<longrightarrow> drops (tab c') = drops (tab c) \<and> view w' = view w)"
  proof (cases ro)
    case None
    then have "t1 = tab c" using tab_full [OF t] al by simp
    then have "c' = c" "w' = w" "x = - 1" using run al None by (simp_all add: add_new_drop_def)
    then show ?thesis by simp
  next
    case (Some r)
    obtain e w1 where e: "vg_drop_add K p rsn (word_of_int now) w = (e, w1)" by fastforce
    note rl = tab_release [OF t al [unfolded Some]]
    have new': "drops_find (tab c) (cidr ?d) = None" "cidr_wf (cidr ?d)" using new wf by simp_all
    note ad = tab_add [OF t new'(1) al [unfolded Some] new'(2)]
    show ?thesis
    proof (cases e)
      case None
      then have c': "x = 0" "c' = count_new rsn (c\<lparr>tab := drop_link r ?d t1\<rparr>)" "w' = w1"
        using run al Some e by (simp_all add: add_new_drop_def)
      have a: "add_entry p (DropV \<lparr>e_reason = rsn, insert_time = word_of_int now\<rparr>) (view w) (view w1)"
        using drop_add_entry [OF e [unfolded None] wf] .
      have l: "listed c' = insert p (listed c)" using ad(2) c' by (auto simp: listed_def)
      have "synced rel c' (view w1)" using synced_add [OF s a wf _ l] c' by simp
      moreover have "ctrl_ok pr c'" using ok ad(1) l np act c' by (auto simp: ctrl_ok_def)
      ultimately show ?thesis
        using entry_others [of p _ "view w" "view w1"] a c' ad(2) by (auto simp: good_def others_def ctrl_inv_def)
    next
      case (Some y)
      then have c': "x = - 1" "c' = c\<lparr>tab := drop_release r t1\<rparr>" "w' = w1" "view w1 = view w"
        using run al \<open>ro = Some r\<close> e drop_add_err by (simp_all add: add_new_drop_def)
      then show ?thesis
        using rl inv by (auto simp: good_def others_def ctrl_inv_def ctrl_ok_def synced_def listed_def)
    qed
  qed
  then show "good rel pr c (view w) c' (view w')" and "x = 0 \<or> x = - 1"
    and "x = 0 \<Longrightarrow> drops (tab c') = drops (tab c) @ [?d]"
    and "x = - 1 \<Longrightarrow> drops (tab c') = drops (tab c) \<and> view w' = view w" by auto
qed

lemma redrop_good:
  assumes run: "redrop K c r p rsn ex now w = (x, c', w')" and inv: "ctrl_inv rel pr c (view w)"
    and wf: "cidr_wf p" and old: "drops_find (tab c) p = Some r"
  shows "good rel pr c (view w) c' (view w')" and "x = 0 \<or> x = - 1"
    and "x = 0 \<Longrightarrow> drops (tab c') =
      map (\<lambda>d. if cidr d = p then redrop_rec (cfg c) rsn now ex d else d) (drops (tab c))"
    and "x = - 1 \<Longrightarrow> drops (tab c') =
      map (\<lambda>d. if cidr d = p then note_expiry (cfg c) rsn d else d) (drops (tab c)) \<and> view w' = view w"
proof -
  let ?d = "drop_pool (tab c) r" and ?f = "redrop_rec (cfg c) rsn now ex" and ?g = "note_expiry (cfg c) rsn"
  have ok: "ctrl_ok pr c" and s: "synced rel c (view w)" using inv by (simp_all add: ctrl_inv_def)
  then have t: "tab_ok (tab c)" by (simp add: ctrl_ok_def)
  have r: "r \<in> set (drop_ids (tab c))" "cidr ?d = p" using tab_find [OF t wf old] .
  have pl: "p \<in> listed c" using ids_listed [OF r(1)] r(2) by simp
  note fset = tab_set_fun [OF t r(1), of ?f] and gset = tab_set_fun [OF t r(1), of ?g]
  have cf: "cidr (?f d) = cidr d" and cg: "cidr (?g d) = cidr d" for d
    by (simp_all add: redrop_rec_def note_expiry_def)
  obtain e w1 where e: "vg_drop_add K p rsn (word_of_int now) w = (e, w1)" by fastforce
  have "good rel pr c (view w) c' (view w') \<and> (x = 0 \<or> x = - 1) \<and>
    (x = 0 \<longrightarrow> drops (tab c') = map (\<lambda>d. if cidr d = p then ?f d else d) (drops (tab c))) \<and>
    (x = - 1 \<longrightarrow> drops (tab c') = map (\<lambda>d. if cidr d = p then ?g d else d) (drops (tab c)) \<and> view w' = view w)"
  proof (cases "rsn = VG_REASON_TIMED \<and> reason ?d = VG_REASON_MANUAL")
    case True
    then have "x = 0" "c' = c" "w' = w" using run by (simp_all add: redrop_def)
    moreover have "set_rec r (?f ?d) (tab c) = tab c" using True by (simp add: set_rec_def redrop_rec_def)
    ultimately show ?thesis using fset(2) cf r(2) by simp
  next
    case False
    let ?c1 = "c\<lparr>tab := set_rec r (?g ?d) (tab c)\<rparr>" and ?c2 = "c\<lparr>tab := set_rec r (?f ?d) (tab c)\<rparr>"
    have res: "(x, c', w') = (if e \<noteq> None then (- 1, ?c1, w1)
        else (0, ?c2\<lparr>drops_again := drops_again ?c2 + 1\<rparr>, w1))"
      using run e redrop_alt [OF False, of K p ex now w] by (cases e) simp_all
    show ?thesis
    proof (cases e)
      case None
      then have c': "x = 0" "c' = ?c2\<lparr>drops_again := drops_again ?c2 + 1\<rparr>" "w' = w1" using res by simp_all
      have l: "listed c' = listed c" using fset(2) [OF cf] cidr_image_map [of ?f, OF cf] by (simp add: c' listed_def)
      have a: "add_entry p (DropV \<lparr>e_reason = rsn, insert_time = word_of_int now\<rparr>) (view w) (view w1)"
        using drop_add_entry [OF e [unfolded None] wf] .
      have "synced rel c' (view w1)" using synced_add [OF s a wf, of c'] l pl c' by (auto simp: insert_absorb)
      moreover have "ctrl_ok pr c'" using ok fset [OF cf] l c' by (auto simp: ctrl_ok_def)
      ultimately show ?thesis
        using entry_others [of p _ "view w" "view w1"] a c' fset(2) [OF cf] r(2)
        by (auto simp: good_def others_def ctrl_inv_def)
    next
      case (Some y)
      then have c': "x = - 1" "c' = ?c1" "w' = w1" "view w1 = view w" using res e drop_add_err by simp_all
      have l: "listed c' = listed c" using gset(2) [OF cg] cidr_image_map [of ?g, OF cg] by (simp add: c' listed_def)
      then show ?thesis
        using c' inv gset [OF cg] r(2) by (auto simp: good_def others_def ctrl_inv_def ctrl_ok_def synced_def)
    qed
  qed
  then show "good rel pr c (view w) c' (view w')" and "x = 0 \<or> x = - 1"
    and "x = 0 \<Longrightarrow> drops (tab c') = map (\<lambda>d. if cidr d = p then ?f d else d) (drops (tab c))"
    and "x = - 1 \<Longrightarrow> drops (tab c') =
      map (\<lambda>d. if cidr d = p then ?g d else d) (drops (tab c)) \<and> view w' = view w" by auto
qed

lemma drop_add_good:
  assumes run: "drop_add K c p rsn ex w = (x, c', w')" and inv: "ctrl_inv rel pr c (view w)" and wf: "cidr_wf p"
  shows "good rel pr c (view w) c' (view w')" and "x = 0 \<or> x = - 1"
    and "vg_cidr_is_protected (cfg c) p \<Longrightarrow> x = - 1 \<and> c' = c \<and> view w' = view w"
    and "x = 0 \<Longrightarrow> state c' = VG_ACTIVE \<and>
      drops (tab c') = drop_spec (cfg c) p rsn (fst (k_time K w)) ex (drops (tab c))"
    and "x = - 1 \<Longrightarrow> map cidr (drops (tab c')) = map cidr (drops (tab c))"
    and "x = - 1 \<Longrightarrow> map reason (drops (tab c')) = map reason (drops (tab c))"
proof -
  obtain now w1 where tm: "k_time K w = (now, w1)" by fastforce
  have v1: "view w1 = view w" using time_step [OF tm] .
  let ?spec = "drop_spec (cfg c) p rsn now ex (drops (tab c))"
  have "good rel pr c (view w) c' (view w') \<and> (x = 0 \<or> x = - 1) \<and>
    (vg_cidr_is_protected (cfg c) p \<longrightarrow> x = - 1 \<and> c' = c \<and> view w' = view w) \<and>
    (x = 0 \<longrightarrow> state c' = VG_ACTIVE \<and> drops (tab c') = ?spec) \<and>
    (x = - 1 \<longrightarrow> map cidr (drops (tab c')) = map cidr (drops (tab c)) \<and> map reason (drops (tab c')) = map reason (drops (tab c)))"
  proof (cases "vg_cidr_is_protected (cfg c) p")
    case True
    then have "x = - 1" "c' = c" "w' = w1" using run tm by (simp_all add: drop_add_def)
    then show ?thesis using v1 True by simp
  next
    case False
    obtain a c1 w2 where arm: "(if state c \<noteq> VG_ACTIVE then vg_ctrl_arm K c w1 else (0, c, w1)) = (a, c1, w2)"
      by (metis prod_cases3)
    have ar: "good rel pr c (view w) c1 (view w2)" "a = 0 \<longleftrightarrow> state c1 = VG_ACTIVE" "a = 0 \<or> a = - 1" "tab c1 = tab c"
      using arm_good(1) [OF arm [unfolded arm_if], of rel pr] arm_good(2-4) [OF arm [unfolded arm_if]]
      unfolding v1 by blast+
    have i1: "ctrl_inv rel pr c1 (view w2)" and cf: "cfg c1 = cfg c" using ar(1) inv by (auto simp: good_def others_def)
    have ok1: "ctrl_ok pr c1" using i1 by (simp add: ctrl_inv_def)
    have step: "(x, c', w') = (if a < 0 then (- 1, c1, w2)
        else case drops_find (tab c1) p of None \<Rightarrow> add_new_drop K c1 p rsn ex now w2
             | Some r \<Rightarrow> redrop K c1 r p rsn ex now w2)"
      using run tm arm False by (simp add: drop_add_def)
    show ?thesis
    proof (cases "a < 0")
      case True
      then show ?thesis using step ar False by auto
    next
      case pos: False
      then have act: "state c1 = VG_ACTIVE" using ar by auto
      show ?thesis
      proof (cases "drops_find (tab c1) p")
        case None
        have r: "add_new_drop K c1 p rsn ex now w2 = (x, c', w')" using step pos None by simp
        note ad = add_new_good [OF r i1 wf False [folded cf] act None]
        have "p \<notin> listed c" using find_listed [OF ok1 wf] None ar(4) by (simp add: listed_def)
        then have sp: "?spec = drops (tab c1) @ [\<lparr>cidr = p, reason = rsn, inserted = now, expires = ex\<rparr>]"
          by (simp add: drop_spec_def listed_def ar(4))
        have "state c' = VG_ACTIVE" if "x = 0"
        proof -
          have "drops (tab c') \<noteq> []" using ad(3) [OF that] by simp
          then show ?thesis using ad(1) i1 by (cases "state c'") (auto simp: good_def ctrl_inv_def ctrl_ok_def)
        qed
        then show ?thesis using good_trans [OF ar(1) ad(1)] ad(2-4) sp False ar(4) by auto
      next
        case (Some r)
        have rd: "redrop K c1 r p rsn ex now w2 = (x, c', w')" using step pos Some by simp
        note re = redrop_good [OF rd i1 wf Some]
        have "p \<in> listed c" using find_listed [OF ok1 wf] Some ar(4) by (auto simp: listed_def)
        then have sp: "?spec = map (\<lambda>d. if cidr d = p then redrop_rec (cfg c1) rsn now ex d else d) (drops (tab c1))"
          by (simp add: drop_spec_def listed_def ar(4) cf)
        have ne: "drops (tab c1) \<noteq> []" using \<open>p \<in> listed c\<close> ar(4) by (auto simp: listed_def)
        have "state c' = VG_ACTIVE" if "x = 0"
        proof -
          have "drops (tab c') \<noteq> []" using re(3) [OF that] ne by simp
          then show ?thesis using re(1) i1 by (cases "state c'") (auto simp: good_def ctrl_inv_def ctrl_ok_def)
        qed
        moreover have "map cidr (map (\<lambda>d. if cidr d = p then note_expiry (cfg c1) rsn d else d) (drops (tab c1))) =
            map cidr (drops (tab c1))"
          "map reason (map (\<lambda>d. if cidr d = p then note_expiry (cfg c1) rsn d else d) (drops (tab c1))) = map reason (drops (tab c1))"
          by (simp_all add: note_expiry_def)
        ultimately show ?thesis using good_trans [OF ar(1) re(1)] re(2-4) sp False ar(4) by auto
      qed
    qed
  qed
  then show "good rel pr c (view w) c' (view w')" and "x = 0 \<or> x = - 1"
    and "vg_cidr_is_protected (cfg c) p \<Longrightarrow> x = - 1 \<and> c' = c \<and> view w' = view w"
    and "x = 0 \<Longrightarrow> state c' = VG_ACTIVE \<and>
      drops (tab c') = drop_spec (cfg c) p rsn (fst (k_time K w)) ex (drops (tab c))"
    and "x = - 1 \<Longrightarrow> map cidr (drops (tab c')) = map cidr (drops (tab c))"
    and "x = - 1 \<Longrightarrow> map reason (drops (tab c')) = map reason (drops (tab c))"
    using tm by auto
qed

lemma undrop_good:
  assumes run: "vg_ctrl_undrop K c p w = (x, c', w')" and inv: "ctrl_inv rel pr c (view w)" and wf: "cidr_wf p"
  shows "good rel pr c (view w) c' (view w')" and "x = 0 \<or> x = - 1"
    and "x = 0 \<Longrightarrow> drops (tab c') = filter (\<lambda>d. cidr d \<noteq> p) (drops (tab c)) \<and>
      cidr_key p \<notin> dom (ents (view w') (drop_map (family p)))"
    and "x = - 1 \<Longrightarrow> c' = c \<and> view w' = view w"
proof -
  have ok: "ctrl_ok pr c" and s: "synced rel c (view w)" using inv by (simp_all add: ctrl_inv_def)
  then have t: "tab_ok (tab c)" by (simp add: ctrl_ok_def)
  have "good rel pr c (view w) c' (view w') \<and> (x = 0 \<or> x = - 1) \<and>
    (x = 0 \<longrightarrow> drops (tab c') = filter (\<lambda>d. cidr d \<noteq> p) (drops (tab c)) \<and>
      cidr_key p \<notin> dom (ents (view w') (drop_map (family p)))) \<and>
    (x = - 1 \<longrightarrow> c' = c \<and> view w' = view w)"
  proof (cases "drops_find (tab c) p")
    case None
    then have np: "p \<notin> listed c" using find_listed [OF ok wf] by simp
    obtain e w1 where e: "vg_drop_del K p w = (e, w1)" by fastforce
    have res: "(x, c', w') = (if e \<noteq> None \<and> e \<noteq> Some ENOENT then (- 1, c, w1) else (0, c, w1))"
      using run None e by (simp add: vg_ctrl_undrop_def)
    show ?thesis
    proof (cases "e \<noteq> None \<and> e \<noteq> Some ENOENT")
      case True
      then show ?thesis using res drop_del_err e by auto
    next
      case False
      then have c': "x = 0" "c' = c" "w' = w1" using res by auto
      have d: "del_entry p (view w) (view w1)" using drop_del_entry [OF e wf False] .
      have "synced rel c (view w1)" using synced_del [OF s d wf listed_wf [OF ok], of c] np by auto
      moreover have "filter (\<lambda>d. cidr d \<noteq> p) (drops (tab c)) = drops (tab c)"
        using np by (intro filter_True) (auto simp: listed_def)
      moreover have "cidr_key p \<notin> dom (ents (view w1) (drop_map (family p)))"
        using d by (simp add: del_entry_def)
      ultimately show ?thesis
        using entry_others [of p _ "view w" "view w1"] d ok c' by (auto simp: good_def others_def ctrl_inv_def)
    qed
  next
    case (Some r)
    have r: "r \<in> set (drop_ids (tab c))" "cidr (drop_pool (tab c) r) = p" using tab_find [OF t wf Some] .
    obtain y c1 w1 where rm: "drop_remove K c r w = (y, c1, w1)" by (metis prod_cases3)
    note g = remove_good [OF rm inv r(1)]
    have res: "x = y" "c' = c1" "w' = w1" using run Some rm g(2) by (auto simp: vg_ctrl_undrop_def split: if_splits)
    have "cidr_key p \<notin> dom (ents (view w1) (drop_map (family p)))" if "y = 0"
    proof -
      obtain e w2 where e: "vg_drop_del K p w = (e, w2)" by fastforce
      then have "\<not> (e \<noteq> None \<and> e \<noteq> Some ENOENT)" "w2 = w1"
        using rm that r(2) by (auto simp: drop_remove_def split: if_splits)
      then show ?thesis using drop_del_entry [OF e wf] by (simp add: del_entry_def)
    qed
    then show ?thesis using g tab_unlink(2) [OF t r(1)] r(2) res by auto
  qed
  then show "good rel pr c (view w) c' (view w')" and "x = 0 \<or> x = - 1"
    and "x = 0 \<Longrightarrow> drops (tab c') = filter (\<lambda>d. cidr d \<noteq> p) (drops (tab c)) \<and>
      cidr_key p \<notin> dom (ents (view w') (drop_map (family p)))"
    and "x = - 1 \<Longrightarrow> c' = c \<and> view w' = view w" by auto
qed

end

end
