(* ===== verification/PolicyRun.thy ===== *)
theory PolicyRun
  imports PolicyInv
begin

section \<open>Walks over the drop list, and the tick\<close>

text \<open>
  The loops of the control plane. A safe walk over the drop list visits exactly the records that
  were listed when it started, in order, although the body may lift the current record
  (\<open>walk_all_fold\<close>); pruning, expiry and the tick then keep the invariant of \<open>PolicyInv\<close>, and lift
  what they should.
\<close>

lemma ids_next:
  assumes "tab_ok t" and "drop_ids t = as @ z # zs"
  shows "next (links t) (Rec z) = hd (map Rec zs @ [All])"
proof -
  obtain fs where "tab_rep t (drop_ids t) fs []" using assms(1) by (auto simp: tab_ok_def)
  from tab_repD(1) [OF this] have "dll (links t) All (map Rec as @ Rec z # map Rec zs)"
    using assms(2) by simp
  from dll_split(2) [OF this] show ?thesis .
qed

lemma ids_first:
  assumes "tab_ok t"
  shows "next (links t) All = hd (map Rec (drop_ids t) @ [All])"
    and "length (drop_ids t) \<le> unat (drop_used t)"
proof -
  obtain fs where r: "tab_rep t (drop_ids t) fs []" using assms(1) by (auto simp: tab_ok_def)
  show "next (links t) All = hd (map Rec (drop_ids t) @ [All])"
    using tab_repD(1) [OF r] by (cases "drop_ids t") (simp_all add: dll_def)
  show "length (drop_ids t) \<le> unat (drop_used t)" using tab_repD(6) [OF r] .
qed

definition wtab :: "'w walk \<Rightarrow> drop_tab" where
  "wtab s = tab (fst (snd s))"

lemma for_each_fold:
  assumes ok: "\<And>s. P s \<Longrightarrow> tab_ok (wtab s)"
    and step: "\<And>r s. P s \<Longrightarrow> r \<in> set (drop_ids (wtab s)) \<Longrightarrow> P (body r s) \<and>
      (drop_ids (wtab (body r s)) = drop_ids (wtab s) \<or>
       drop_ids (wtab (body r s)) = remove1 r (drop_ids (wtab s)))"
    and "P s" "drop_ids (wtab s) = as @ xs" "length xs < fuel"
    and "\<And>y ys. xs = y # ys \<Longrightarrow> nx = hd (map Rec ys @ [All])"
  shows "for_each_safe fuel body (hd (map Rec xs @ [All])) nx s = fold body xs s \<and> P (fold body xs s)"
  using assms(3-6)
proof (induction xs arbitrary: as s fuel nx)
  case Nil
  then show ?case by (cases fuel) simp_all
next
  case (Cons x ys)
  then obtain f where f: "fuel = Suc f" by (cases fuel) auto
  let ?s = "body x s"
  have x: "x \<in> set (drop_ids (wtab s))" using Cons.prems(2) by simp
  have st: "P ?s" "drop_ids (wtab ?s) = drop_ids (wtab s) \<or> drop_ids (wtab ?s) = remove1 x (drop_ids (wtab s))"
    using step [OF Cons.prems(1) x] by blast+
  have "distinct (as @ x # ys)" using tab_facts(1) [OF ok [OF Cons.prems(1)]] Cons.prems(2) by simp
  then have "remove1 x (as @ x # ys) = as @ ys" by (simp add: remove1_append)
  then obtain as' where as': "drop_ids (wtab ?s) = as' @ ys"
    using st(2) Cons.prems(2) by (metis append.assoc append_Cons append_Nil)
  have nx: "nx = hd (map Rec ys @ [All])" using Cons.prems(4) by simp
  have nn: "next (links (wtab ?s)) nx = hd (map Rec zs @ [All])" if "ys = z # zs" for z zs
    using ids_next [OF ok [OF st(1)], of as' z zs] as' that nx by simp
  have "for_each_safe f body (hd (map Rec ys @ [All])) (next (links (wtab ?s)) nx) ?s = fold body ys ?s \<and>
      P (fold body ys ?s)"
    using st(1) as' Cons.prems(3) f nn by (intro Cons.IH) auto
  then show ?case using f nx by (simp add: Let_def wtab_def)
qed

lemma walk_all_fold:
  assumes ok: "\<And>s. P s \<Longrightarrow> tab_ok (wtab s)"
    and step: "\<And>r s. P s \<Longrightarrow> r \<in> set (drop_ids (wtab s)) \<Longrightarrow> P (body r s) \<and>
      (drop_ids (wtab (body r s)) = drop_ids (wtab s) \<or>
       drop_ids (wtab (body r s)) = remove1 r (drop_ids (wtab s)))"
    and "P (0, c, w)"
  shows "walk_all body c w = fold body (drop_ids (tab c)) (0, c, w)" and "P (walk_all body c w)"
proof -
  have t: "tab_ok (tab c)" using ok [OF assms(3)] by (simp add: wtab_def)
  let ?l = "next (links (tab c)) All"
  have "for_each_safe (Suc (unat (drop_used (tab c)))) body (hd (map Rec (drop_ids (tab c)) @ [All]))
      (next (links (tab c)) ?l) (0, c, w) = fold body (drop_ids (tab c)) (0, c, w) \<and>
    P (fold body (drop_ids (tab c)) (0, c, w))"
  proof (rule for_each_fold [where as = "[]", OF ok step assms(3)])
    show "length (drop_ids (tab c)) < Suc (unat (drop_used (tab c)))" using ids_first(2) [OF t] by simp
    show "next (links (tab c)) ?l = hd (map Rec ys @ [All])" if "drop_ids (tab c) = y # ys" for y ys
      using ids_next [OF t, of "[]" y ys] ids_first(1) [OF t] that by simp
  qed (simp_all add: wtab_def)
  then show "walk_all body c w = fold body (drop_ids (tab c)) (0, c, w)" "P (walk_all body c w)"
    using ids_first(1) [OF t] by (simp_all add: walk_all_def Let_def del: for_each_safe.simps)
qed

subsection \<open>Lifting every record that meets a test\<close>

definition lift_body :: "'w kern \<Rightarrow> (vg_config \<Rightarrow> vg_drop_rec \<Rightarrow> bool) \<Rightarrow> nat \<Rightarrow> 'w walk \<Rightarrow> 'w walk" where
  "lift_body K Q r s =
     (case s of (n, c, w) \<Rightarrow>
        if \<not> Q (cfg c) (drop_pool (tab c) r) then (n, c, w)
        else (case drop_remove K c r w of (x, c, w) \<Rightarrow> (if x = 0 then n + 1 else n, c, w)))"

lemma prune_body_lift: "prune_body K = lift_body K (\<lambda>cf d. vg_cidr_is_protected cf (cidr d))"
  by (auto simp: prune_body_def lift_body_def fun_eq_iff)

lemma expire_body_lift: "expire_body K now = lift_body K (\<lambda>cf. expired cf now)"
  by (auto simp: expire_body_def lift_body_def drop_remove_def Let_def fun_eq_iff split: prod.splits)

lemma drop_pool_unlink [simp]: "drop_pool (drop_unlink r t) = drop_pool t"
  by (simp add: drop_unlink_def Let_def)

definition lift_inv ::
  "('w \<Rightarrow> kview) \<Rightarrow> bool \<Rightarrow> bool \<Rightarrow> (vg_config \<Rightarrow> vg_drop_rec \<Rightarrow> bool) \<Rightarrow> vg_ctrl \<Rightarrow> kview \<Rightarrow> 'w walk \<Rightarrow> bool" where
  "lift_inv view rel pr Q c v s \<longleftrightarrow>
     (case s of (n, c1, w1) \<Rightarrow>
        ctrl_inv rel pr c1 (view w1) \<and> others c v c1 (view w1) \<and> (\<exists>t. c1 = c\<lparr>tab := t\<rparr>) \<and>
        drop_pool (tab c1) = drop_pool (tab c) \<and> set (drop_ids (tab c1)) \<subseteq> set (drop_ids (tab c)) \<and>
        (\<forall>i \<in> set (drop_ids (tab c)). \<not> Q (cfg c) (drop_pool (tab c) i) \<longrightarrow> i \<in> set (drop_ids (tab c1))))"

context bpf_kernel
begin

lemma lift_step:
  assumes inv: "lift_inv view rel pr Q c v s" and r: "r \<in> set (drop_ids (wtab s))"
  shows "lift_inv view rel pr Q c v (lift_body K Q r s)"
    and "drop_ids (wtab (lift_body K Q r s)) = drop_ids (wtab s) \<or>
      drop_ids (wtab (lift_body K Q r s)) = remove1 r (drop_ids (wtab s))"
    and "bpf_kernel_reliable K view \<Longrightarrow> drop_ids (wtab (lift_body K Q r s)) =
      (if Q (cfg c) (drop_pool (tab c) r) then remove1 r (drop_ids (wtab s)) else drop_ids (wtab s))"
    and "bpf_kernel_reliable K view \<Longrightarrow> fst (lift_body K Q r s) =
      fst s + (if Q (cfg c) (drop_pool (tab c) r) then 1 else 0)"
proof -
  obtain n c1 w1 where s: "s = (n, c1, w1)" by (metis prod_cases3)
  obtain x c2 w2 where rm: "drop_remove K c1 r w1 = (x, c2, w2)" by (metis prod_cases3)
  have i1: "ctrl_inv rel pr c1 (view w1)" and r1: "r \<in> set (drop_ids (tab c1))"
    and cf: "cfg c1 = cfg c" "drop_pool (tab c1) = drop_pool (tab c)"
    using inv r s by (auto simp: lift_inv_def wtab_def others_def)
  have t1: "tab_ok (tab c1)" using i1 by (simp add: ctrl_inv_def ctrl_ok_def)
  note g = remove_good [OF rm i1 r1] and u = tab_unlink [OF t1 r1]
  have out: "lift_body K Q r s = (if \<not> Q (cfg c) (drop_pool (tab c) r) then s
      else (if x = 0 then n + 1 else n, c2, w2))"
    using s rm cf by (simp add: lift_body_def)
  have eq: "x = 0 \<Longrightarrow> c2 = c1\<lparr>tab := drop_unlink r (tab c1)\<rparr>" "x = - 1 \<Longrightarrow> c2 = c1 \<and> view w2 = view w1"
    using g(3,4) by blast+
  have "lift_inv view rel pr Q c v (n', c2, w2)" if "Q (cfg c) (drop_pool (tab c) r)" for n'
    using g(2)
  proof
    assume x: "x = 0"
    have "set (remove1 r (drop_ids (tab c1))) = set (drop_ids (tab c1)) - {r}"
      using tab_facts(1) [OF t1] by (simp add: set_remove1_eq)
    then have ids: "set (drop_ids (tab c2)) = set (drop_ids (tab c1)) - {r}" using eq(1) [OF x] u(3) by simp
    have "ctrl_inv rel pr c2 (view w2)" "others c1 (view w1) c2 (view w2)" using g(1) i1 by (simp_all add: good_def)
    moreover have "others c v c1 (view w1)" "\<exists>t. c1 = c\<lparr>tab := t\<rparr>"
      "set (drop_ids (tab c1)) \<subseteq> set (drop_ids (tab c))"
      "\<forall>i \<in> set (drop_ids (tab c)). \<not> Q (cfg c) (drop_pool (tab c) i) \<longrightarrow> i \<in> set (drop_ids (tab c1))"
      using inv s by (simp_all add: lift_inv_def)
    moreover have "\<exists>t. c2 = c\<lparr>tab := t\<rparr>" using calculation(4) eq(1) [OF x] by auto
    moreover have "drop_pool (tab c2) = drop_pool (tab c)" using eq(1) [OF x] cf(2) by simp
    moreover have "others c v c2 (view w2)" using calculation(2,3) by (simp add: others_def)
    ultimately show ?thesis using ids that unfolding lift_inv_def prod.case by blast
  next
    assume "x = - 1"
    then show ?thesis using inv s eq(2) by (simp add: lift_inv_def)
  qed
  then show "lift_inv view rel pr Q c v (lift_body K Q r s)" using out inv by simp
  show "drop_ids (wtab (lift_body K Q r s)) = drop_ids (wtab s) \<or>
      drop_ids (wtab (lift_body K Q r s)) = remove1 r (drop_ids (wtab s))"
    using out s g(2) eq u(3) by (auto simp: wtab_def)
  show "drop_ids (wtab (lift_body K Q r s)) =
      (if Q (cfg c) (drop_pool (tab c) r) then remove1 r (drop_ids (wtab s)) else drop_ids (wtab s))"
    if "bpf_kernel_reliable K view"
    using out s g(5) [OF that] eq(1) u(3) by (auto simp: wtab_def)
  show "fst (lift_body K Q r s) = fst s + (if Q (cfg c) (drop_pool (tab c) r) then 1 else 0)"
    if "bpf_kernel_reliable K view"
    using out s g(5) [OF that] by auto
qed

lemma lift_fold:
  assumes R: "bpf_kernel_reliable K view" and "lift_inv view rel pr Q c v s" "distinct xs"
    and "set xs \<subseteq> set (drop_ids (wtab s))"
  shows "drop_ids (wtab (fold (lift_body K Q) xs s)) =
      filter (\<lambda>i. \<not> (i \<in> set xs \<and> Q (cfg c) (drop_pool (tab c) i))) (drop_ids (wtab s)) \<and>
    fst (fold (lift_body K Q) xs s) = fst s + int (length (filter (\<lambda>i. Q (cfg c) (drop_pool (tab c) i)) xs))"
  using assms(2-4)
proof (induction xs arbitrary: s)
  case (Cons x xs)
  let ?s = "lift_body K Q x s" and ?Q = "\<lambda>i. Q (cfg c) (drop_pool (tab c) i)"
  have x: "x \<in> set (drop_ids (wtab s))" using Cons.prems(3) by simp
  note st = lift_step [OF Cons.prems(1) x]
  have d: "distinct (drop_ids (wtab s))"
    using Cons.prems(1) tab_facts(1) by (auto simp: lift_inv_def wtab_def ctrl_inv_def ctrl_ok_def split: prod.splits)
  have ids: "drop_ids (wtab ?s) = filter (\<lambda>i. \<not> (i = x \<and> ?Q i)) (drop_ids (wtab s))"
  proof (cases "?Q x")
    case True
    then show ?thesis using st(3) [OF R] d by (auto simp: distinct_remove1_removeAll removeAll_filter_not_eq intro!: filter_cong)
  next
    case False
    then show ?thesis using st(3) [OF R] by (auto intro!: filter_True [symmetric])
  qed
  have sub: "set xs \<subseteq> set (drop_ids (wtab ?s))" using Cons.prems(2,3) ids by auto
  have "distinct xs" using Cons.prems(2) by simp
  note IH = Cons.IH [OF st(1) this sub]
  have "filter (\<lambda>i. \<not> (i \<in> set xs \<and> ?Q i)) (filter (\<lambda>i. \<not> (i = x \<and> ?Q i)) (drop_ids (wtab s))) =
      filter (\<lambda>i. \<not> (i \<in> set (x # xs) \<and> ?Q i)) (drop_ids (wtab s))"
    unfolding filter_filter by (rule filter_cong) auto
  then show ?case using IH ids st(4) [OF R] by simp
qed simp_all

lemma lift_walk:
  assumes run: "walk_all (lift_body K Q) c w = (n, c', w')" and inv: "ctrl_inv rel pr c (view w)"
  shows "good rel pr c (view w) c' (view w')" and "\<exists>t. c' = c\<lparr>tab := t\<rparr>"
    and "set (drops (tab c')) \<subseteq> set (drops (tab c))"
    and "\<And>d. d \<in> set (drops (tab c)) \<Longrightarrow> \<not> Q (cfg c) d \<Longrightarrow> d \<in> set (drops (tab c'))"
    and "bpf_kernel_reliable K view \<Longrightarrow> drops (tab c') = filter (\<lambda>d. \<not> Q (cfg c) d) (drops (tab c)) \<and>
      n = int (length (filter (Q (cfg c)) (drops (tab c))))"
proof -
  let ?P = "lift_inv view rel pr Q c (view w)"
  have "\<exists>t. c = c\<lparr>tab := t\<rparr>" by (rule exI [of _ "tab c"]) simp
  then have p0: "?P (0, c, w)" using inv by (simp add: lift_inv_def others_def)
  have ok: "?P s \<Longrightarrow> tab_ok (wtab s)" for s
    by (auto simp: lift_inv_def wtab_def ctrl_inv_def ctrl_ok_def split: prod.splits)
  note f = walk_all_fold [where P = ?P, OF ok _ p0, of "lift_body K Q"]
  have w: "walk_all (lift_body K Q) c w = fold (lift_body K Q) (drop_ids (tab c)) (0, c, w)"
    and pw: "?P (n, c', w')"
    using f lift_step(1,2) run by metis+
  have pool: "drop_pool (tab c') = drop_pool (tab c)" using pw by (simp add: lift_inv_def)
  show "good rel pr c (view w) c' (view w')" "\<exists>t. c' = c\<lparr>tab := t\<rparr>" using pw by (simp_all add: lift_inv_def good_def)
  show "set (drops (tab c')) \<subseteq> set (drops (tab c))" using pw pool by (auto simp: lift_inv_def drops_def)
  show "d \<in> set (drops (tab c'))" if "d \<in> set (drops (tab c))" "\<not> Q (cfg c) d" for d
    using pw pool that by (auto simp: lift_inv_def drops_def)
  assume R: "bpf_kernel_reliable K view"
  have d: "distinct (drop_ids (tab c))" "set (drop_ids (tab c)) \<subseteq> set (drop_ids (wtab (0, c, w)))"
    using ok [OF p0] tab_facts(1) by (auto simp: wtab_def)
  have "fold (lift_body K Q) (drop_ids (tab c)) (0, c, w) = (n, c', w')" using w run by simp
  note lf = lift_fold [OF R p0 d, unfolded this]
  have "filter (\<lambda>i. \<not> (i \<in> set (drop_ids (tab c)) \<and> Q (cfg c) (drop_pool (tab c) i))) (drop_ids (tab c)) =
      filter (\<lambda>i. \<not> Q (cfg c) (drop_pool (tab c) i)) (drop_ids (tab c))"
    by (rule filter_cong) auto
  then have "drop_ids (tab c') = filter (\<lambda>i. \<not> Q (cfg c) (drop_pool (tab c) i)) (drop_ids (tab c))"
    using lf by (simp add: wtab_def)
  moreover have "n = int (length (filter (\<lambda>i. Q (cfg c) (drop_pool (tab c) i)) (drop_ids (tab c))))"
    using lf by simp
  ultimately show "drops (tab c') = filter (\<lambda>d. \<not> Q (cfg c) d) (drops (tab c)) \<and>
      n = int (length (filter (Q (cfg c)) (drops (tab c))))"
    using pool by (simp add: drops_def filter_map comp_def)
qed

lemma prune_good:
  assumes run: "vg_ctrl_prune_protected K c w = (n, c', w')" and inv: "ctrl_inv rel False c (view w)"
  shows "good rel False c (view w) c' (view w')" and "\<exists>t. c' = c\<lparr>tab := t\<rparr>"
    and "set (drops (tab c')) \<subseteq> set (drops (tab c))"
    and "bpf_kernel_reliable K view \<Longrightarrow>
      drops (tab c') = filter (\<lambda>d. \<not> vg_cidr_is_protected (cfg c) (cidr d)) (drops (tab c)) \<and>
      n = int (length (filter (\<lambda>d. vg_cidr_is_protected (cfg c) (cidr d)) (drops (tab c)))) \<and>
      ctrl_inv rel True c' (view w')"
proof -
  note l = lift_walk [OF run [unfolded vg_ctrl_prune_protected_def prune_body_lift] inv]
  show "good rel False c (view w) c' (view w')" "\<exists>t. c' = c\<lparr>tab := t\<rparr>"
    "set (drops (tab c')) \<subseteq> set (drops (tab c))" by (fact l(1-3))+
  assume R: "bpf_kernel_reliable K view"
  have "cfg c' = cfg c" "ctrl_inv rel False c' (view w')" using l(1) inv by (simp_all add: good_def others_def)
  then show "drops (tab c') = filter (\<lambda>d. \<not> vg_cidr_is_protected (cfg c) (cidr d)) (drops (tab c)) \<and>
      n = int (length (filter (\<lambda>d. vg_cidr_is_protected (cfg c) (cidr d)) (drops (tab c)))) \<and>
      ctrl_inv rel True c' (view w')"
    using l(5) [OF R] by (auto simp: ctrl_inv_def ctrl_ok_def listed_def)
qed

lemma expire_good:
  assumes run: "expire_drops K c w = (c', w')" and inv: "ctrl_inv rel pr c (view w)"
  shows "good rel pr c (view w) c' (view w')" and "\<exists>t. c' = c\<lparr>tab := t\<rparr>"
    and "set (drops (tab c')) \<subseteq> set (drops (tab c))"
    and "\<And>d. d \<in> set (drops (tab c)) \<Longrightarrow> \<not> expired (cfg c) (fst (k_time K w)) d \<Longrightarrow> d \<in> set (drops (tab c'))"
    and "bpf_kernel_reliable K view \<Longrightarrow>
      drops (tab c') = filter (\<lambda>d. \<not> expired (cfg c) (fst (k_time K w)) d) (drops (tab c))"
proof -
  obtain now w1 where tm: "k_time K w = (now, w1)" by fastforce
  have v1: "view w1 = view w" using time_step [OF tm] .
  obtain n where wk: "walk_all (lift_body K (\<lambda>cf. expired cf now)) c w1 = (n, c', w')"
    using run tm by (auto simp: expire_drops_def expire_body_lift split: prod.splits)
  note l = lift_walk [OF wk inv [folded v1], unfolded v1]
  show "good rel pr c (view w) c' (view w')" "\<exists>t. c' = c\<lparr>tab := t\<rparr>"
    "set (drops (tab c')) \<subseteq> set (drops (tab c))" by (fact l(1-3))+
  show "\<And>d. d \<in> set (drops (tab c)) \<Longrightarrow> \<not> expired (cfg c) (fst (k_time K w)) d \<Longrightarrow> d \<in> set (drops (tab c'))"
    using l(4) tm by simp
  show "bpf_kernel_reliable K view \<Longrightarrow>
      drops (tab c') = filter (\<lambda>d. \<not> expired (cfg c) (fst (k_time K w)) d) (drops (tab c))"
    using l(5) tm by simp
qed

end

subsection \<open>Aggregation\<close>

definition agg_count :: "vg_cidr \<Rightarrow> vg_drop_rec list \<Rightarrow> nat" where
  "agg_count net ds = length (filter (\<lambda>d. reason d \<noteq> VG_REASON_TIMED \<and> vg_cidr_contains net (cidr d)) ds)"

lemma agg_loop_ids:
  assumes "tab_ok t" "drop_ids t = as @ ys" "length ys < fuel"
  shows "agg_loop fuel t net (hd (map Rec ys @ [All])) n = n + int (agg_count net (map (drop_pool t) ys))"
  using assms(2,3)
proof (induction ys arbitrary: as fuel n)
  case Nil
  then show ?case by (cases fuel) (simp_all add: agg_count_def)
next
  case (Cons y ys)
  then obtain f where f: "fuel = Suc f" by (cases fuel) auto
  have nx: "next (links t) (Rec y) = hd (map Rec ys @ [All])" using ids_next [OF assms(1) Cons.prems(1)] .
  have "agg_loop f t net (hd (map Rec ys @ [All])) m = m + int (agg_count net (map (drop_pool t) ys))" for m
    using Cons.prems f by (intro Cons.IH [of "as @ [y]"]) simp_all
  then show ?case using f nx by (simp add: agg_count_def Let_def)
qed

lemma agg_loop_count:
  assumes "tab_ok t"
  shows "agg_loop (Suc (unat (drop_used t))) t net (next (links t) All) 0 = int (agg_count net (drops t))"
  using agg_loop_ids [OF assms, of "[]" "drop_ids t" "Suc (unat (drop_used t))" net 0] ids_first [OF assms]
  by (simp add: drops_def del: agg_loop.simps)

definition agg_net :: "vg_cidr \<Rightarrow> vg_cidr" where
  "agg_net host = vg_cidr_mask (host\<lparr>prefixlen := if family host = AF_INET then 24 else 64\<rparr>)"

lemma agg_net_wf: "cidr_wf host \<Longrightarrow> cidr_wf (agg_net host)"
  unfolding agg_net_def by (rule mask_wf) (auto simp: cidr_wf_def cidr_ok_def plen_def width_def)

lemma maybe_aggregate_alt:
  assumes "tab_ok (tab c)"
  shows "maybe_aggregate K c host w =
    (if int (agg_count (agg_net host) (drops (tab c))) \<ge> aggregate_k (cfg c)
     then vg_ctrl_drop K c (agg_net host) VG_REASON_AGGREGATE w else (0, c, w))"
  using agg_loop_count [OF assms, of "agg_net host"]
  by (cases "family host")
    (simp_all add: maybe_aggregate_def vg_cidr_v4_slash24_def vg_cidr_v6_slash64_def agg_net_def del: agg_loop.simps)

lemma host_cidr_wf:
  assumes "length a = nbytes fam"
  shows "cidr_wf (host_cidr fam a)"
  using assms mask_loop_full [of a]
  by (cases fam) (simp_all add: cidr_wf_def cidr_ok_def plen_def host_cidr_def width_def nbytes_def vg_cidr_mask_def)

subsection \<open>Remote hosts and the tick\<close>

lemma good_snap: "snap_ok t \<Longrightarrow> good rel pr c v (c\<lparr>snap := t\<rparr>) v"
  by (auto simp: good_def others_def ctrl_inv_def ctrl_ok_def synced_def listed_def)

text \<open>Updates of the bookkeeping fields matter to no part of the invariant.\<close>

lemma good_same:
  assumes "state c' = state c" "cfg c' = cfg c" "maps c' = maps c" "cfg_path c' = cfg_path c"
    "iface_override c' = iface_override c" "tab c' = tab c" "snap c' = snap c"
    "length (drops_new c') = length (drops_new c)"
  shows "good rel pr c v c' v"
  using assms by (auto simp: good_def others_def ctrl_inv_def ctrl_ok_def synced_def listed_def)

context bpf_kernel
begin

lemma aggregate_good:
  assumes run: "maybe_aggregate K c host w = (x, c', w')" and inv: "ctrl_inv rel pr c (view w)"
    and wf: "cidr_wf host"
  shows "good rel pr c (view w) c' (view w')"
proof -
  have "tab_ok (tab c)" using inv by (simp add: ctrl_inv_def ctrl_ok_def)
  from maybe_aggregate_alt [OF this, of K host w] run
  consider "c' = c" "w' = w" | "drop_add K c (agg_net host) VG_REASON_AGGREGATE 0 w = (x, c', w')"
    by (auto simp: vg_ctrl_drop_def split: if_splits)
  then show ?thesis using drop_add_good(1) [OF _ inv agg_net_wf [OF wf]] by cases (simp, blast)
qed

lemma one_remote_good:
  assumes run: "policy_one_remote K fl dt fam a cur c w = (c', w')" and inv: "ctrl_inv rel pr c (view w)"
    and len: "length a = nbytes fam"
  shows "good rel pr c (view w) c' (view w')"
proof -
  obtain r cr t where g: "snap_get (snap c) fam a = (r, cr, t)" by (metis prod_cases3)
  have ok: "snap_ok (snap c)" using inv by (simp add: ctrl_inv_def ctrl_ok_def)
  show ?thesis
  proof (cases r)
    case None
    then have "t = snap c" using snap_get_full(1) [OF ok] g by simp
    then show ?thesis using run g None by (auto simp: policy_one_remote_def)
  next
    case (Some e)
    let ?c = "c\<lparr>snap := store e (in_pkts cur) (in_bytes cur) t\<rparr>"
    have st: "good rel pr c (view w) ?c (view w)"
      using snap_get_store(1) [OF ok g [unfolded Some] len] by (rule good_snap)
    then have i: "ctrl_inv rel pr ?c (view w)" using inv by (simp add: good_def)
    obtain x c1 w1 where d: "vg_ctrl_drop K ?c (host_cidr fam a) VG_REASON_POLICY w = (x, c1, w1)"
      by (metis prod_cases3)
    have gd: "good rel pr ?c (view w) c1 (view w1)"
      using drop_add_good(1) [OF d [unfolded vg_ctrl_drop_def] i host_cidr_wf [OF len]] .
    then have i1: "ctrl_inv rel pr c1 (view w1)" using i by (simp add: good_def)
    obtain y c2 w2 where ag: "maybe_aggregate K c1 (host_cidr fam a) w1 = (y, c2, w2)" by (metis prod_cases3)
    have ga: "good rel pr c1 (view w1) c2 (view w2)" using aggregate_good [OF ag i1 host_cidr_wf [OF len]] .
    have "(c' = ?c \<and> w' = w) \<or> (c' = c1 \<and> w' = w1) \<or> (c' = c2 \<and> w' = w2)"
      using run g Some d ag by (cases cr) (auto simp: policy_one_remote_def Let_def split: if_splits)
    then show ?thesis using st good_trans [OF st gd] good_trans [OF good_trans [OF st gd] ga] by auto
  qed
qed

lemma walk_remotes_good:
  assumes run: "walk_remotes K fl dt c w = (c', w')" and inv: "ctrl_inv rel pr c (view w)"
  shows "good rel pr c (view w) c' (view w')"
proof -
  let ?c0 = "c\<lparr>snap := (snap c)\<lparr>snap_gen := snap_gen (snap c) + 1\<rparr>\<rparr>"
  define c1 where "c1 = (if snap_gen (snap ?c0) = 0
      then ?c0\<lparr>snap := (snap_reset_pool (snap ?c0))\<lparr>snap_gen := 1\<rparr>\<rparr> else ?c0)"
  let ?b = "if remote_map_size (cfg c) = 0 then VG_REMOTE_MAP_MAX else remote_map_size (cfg c)"
  have ok: "snap_ok (snap c)" using inv by (simp add: ctrl_inv_def ctrl_ok_def)
  have "snap_ok (snap c1)" using ok snap_ok_reset(1) by (simp add: snap_ok_gen c1_def)
  moreover have "c1 = c\<lparr>snap := snap c1\<rparr>" by (simp add: c1_def)
  ultimately have g1: "good rel pr c (view w) c1 (view w)" using good_snap by metis
  then have i1: "ctrl_inv rel pr c1 (view w)" using inv by (simp add: good_def)
  obtain cm c2 w2 where fe: "vg_remote_foreach K (maps c1) ?b (policy_one_remote K fl dt) c1 w = (cm, c2, w2)"
    by (metis prod_cases3)
  define I where "I = (\<lambda>s v. ctrl_inv rel pr s v \<and> good rel pr c1 (view w) s v)"
  have "I c2 (view w2)"
  proof (rule remote_foreach_inv [OF _ _ fe])
    show "I c1 (view w)" unfolding I_def using i1 by simp
    fix fam and a :: bytes and h s wk
    assume len: "length a = nbytes fam" and Is: "I s (view wk)"
    obtain s' wk' where p: "policy_one_remote K fl dt fam a h s wk = (s', wk')" by fastforce
    have g: "good rel pr s (view wk) s' (view wk')"
      using one_remote_good [OF p _ len] Is by (simp add: I_def)
    then have "ctrl_inv rel pr s' (view wk')" using Is by (simp add: I_def good_def)
    then have "I s' (view wk')" using Is good_trans [OF _ g] unfolding I_def by blast
    then show "I (fst (policy_one_remote K fl dt fam a h s wk)) (view (snd (policy_one_remote K fl dt fam a h s wk)))"
      using p by simp
  qed
  then have g2: "good rel pr c (view w) c2 (view w2)" and i2: "ctrl_inv rel pr c2 (view w2)"
    using good_trans [OF g1] by (auto simp: I_def)
  have res: "c' = (if cm = 1 then c2\<lparr>snap := snap_prune (snap c2)\<rparr> else c2)" "w' = w2"
    using run fe unfolding walk_remotes_def Let_def c1_def [symmetric] by (auto split: if_splits)
  have "snap_ok (snap_prune (snap c2))"
    using i2 snap_ok_prune by (simp add: ctrl_inv_def ctrl_ok_def)
  then show ?thesis using res good_trans [OF g2 good_snap] g2 by (auto split: if_splits)
qed

lemma quiet_good:
  assumes run: "tick_quiet K fl c w = (c', w')" and inv: "ctrl_inv rel pr c (view w)"
    and R: "rel \<Longrightarrow> bpf_kernel_reliable K view"
  shows "good rel pr c (view w) c' (view w')"
proof (cases "under_wake fl c")
  case False
  then show ?thesis using run by (auto simp: tick_quiet_def intro: good_same)
next
  case True
  obtain t0 w0 where t0: "k_time K w = (t0, w0)" by fastforce
  define c1 where "c1 = (if quiet_since c = 0 then c\<lparr>quiet_since := t0\<rparr> else c)"
  define w1 where "w1 = (if quiet_since c = 0 then w0 else w)"
  have v1: "view w1 = view w" using time_step [OF t0] by (simp add: w1_def)
  obtain t w2 where t: "k_time K w1 = (t, w2)" by fastforce
  have v2: "view w2 = view w" using time_step [OF t] v1 by simp
  have g1: "good rel pr c (view w) c1 (view w)" by (auto simp: c1_def intro: good_same)
  then have i1: "ctrl_inv rel pr c1 (view w2)" using inv v2 by (simp add: good_def)
  obtain x c2 w3 where d: "vg_ctrl_disarm K c1 w2 = (x, c2, w3)" by (metis prod_cases3)
  have g2: "good rel pr c (view w) c2 (view w3)"
    using good_trans [OF g1] disarm_good(1) [OF d R i1] v2 by simp
  have "(c' = c1 \<and> (w' = w1 \<or> w' = w2)) \<or> (c' = c2 \<and> w' = w3)"
    using run True t0 t d by (auto simp: tick_quiet_def Let_def c1_def w1_def split: if_splits)
  then show ?thesis using g1 g2 v1 v2 by auto
qed

lemma tick_good:
  assumes run: "vg_ctrl_tick K fl c w = (x, c', w')" and inv: "ctrl_inv rel pr c (view w)"
    and R: "rel \<Longrightarrow> bpf_kernel_reliable K view"
  shows "good rel pr c (view w) c' (view w')"
proof -
  obtain dt c1 w1 where td: "tick_dt K fl c w = (dt, c1, w1)" by (metis prod_cases3)
  have g1: "good rel pr c (view w) (log_drops c1) (view w1)" and n1: "length (drops_new c) = 5"
  proof -
    have "length (drops_new c) = 5" using inv by (simp add: ctrl_inv_def ctrl_ok_def)
    moreover have "view w1 = view w" "c1 = c \<or> (\<exists>n. c1 = c\<lparr>last_tick := n, have_last_tick := True\<rparr>) \<or>
        (\<exists>n. c1 = c\<lparr>last_tick := n\<rparr>)"
      using td monotonic_view [of w] by (auto simp: tick_dt_def Let_def split: prod.splits if_splits)
    ultimately show "good rel pr c (view w) (log_drops c1) (view w1)" "length (drops_new c) = 5"
      by (auto simp: log_drops_def intro!: good_same)
  qed
  obtain mo w2 where m: "vg_metrics_read K (maps (log_drops c1)) w1 = (mo, w2)" by fastforce
  have v2: "view w2 = view w1" using metrics_read_view [of "maps (log_drops c1)" w1] m by simp
  show ?thesis
  proof (cases mo)
    case None
    then show ?thesis using run td m g1 v2 by (simp add: vg_ctrl_tick_def)
  next
    case (Some mm)
    let ?c = "tick_rates fl dt mm (log_drops c1)"
    have gr: "good rel pr c (view w) ?c (view w2)"
      using good_trans [OF g1 good_same] unfolding v2 by (simp add: tick_rates_def Let_def)
    then have i: "ctrl_inv rel pr ?c (view w2)" using inv by (simp add: good_def)
    obtain a ca wa where ar: "vg_ctrl_arm K ?c w2 = (a, ca, wa)" by (metis prod_cases3)
    obtain cw ww where wr: "walk_remotes K fl dt ?c w2 = (cw, ww)" by fastforce
    have gw: "good rel pr ?c (view w2) cw (view ww)" using walk_remotes_good [OF wr i] .
    then have iw: "ctrl_inv rel pr cw (view ww)" using i by (simp add: good_def)
    obtain ce we where ex: "expire_drops K cw ww = (ce, we)" by fastforce
    have ge: "good rel pr cw (view ww) ce (view we)" using expire_good(1) [OF ex iw] .
    then have ie: "ctrl_inv rel pr ce (view we)" using iw by (simp add: good_def)
    obtain cq wq where qu: "tick_quiet K fl ce we = (cq, wq)" by fastforce
    have gq: "good rel pr ce (view we) cq (view wq)" using quiet_good [OF qu ie R] .
    have "(c' = ?c \<and> w' = w2) \<or> (c' = ca \<and> w' = wa) \<or> (c' = cq \<and> w' = wq)"
      using run td m Some ar wr ex qu by (auto simp: vg_ctrl_tick_def Let_def split: if_splits)
    then show ?thesis
      using gr good_trans [OF gr arm_good(1) [OF ar]] good_trans [OF gr good_trans [OF gw good_trans [OF ge gq]]]
      by blast
  qed
qed

end

end
