(* ===== verification/IpText.thy ===== *)
theory IpText
  imports IpAddr
begin

section \<open>Printing and parsing prefixes\<close>

text \<open>
  The text form of a prefix: what \<open>vg_cidr_to_str\<close> writes into the 80-byte buffers of the
  callers is what \<open>vg_parse_cidr\<close> reads back, so a line of the \<open>drops\<close> listing names the prefix
  an \<open>undrop\<close> will find.
\<close>

subsection \<open>Decimal numbers\<close>

lemma is_digit_char_of [simp]: "n < 10 \<Longrightarrow> is_digit (char_of (48 + n :: nat))"
  by (simp add: is_digit_def)

lemma digit_val_char_of [simp]: "n < 10 \<Longrightarrow> digit_val (char_of (48 + n :: nat)) = n"
  by (simp add: digit_val_def)

lemma dec_string_small: "n < 10 \<Longrightarrow> dec_string n = [char_of (48 + n)]"
  by (subst dec_string.simps) simp

lemma dec_string_step: "10 \<le> n \<Longrightarrow> dec_string n = dec_string (n div 10) @ [char_of (48 + n mod 10)]"
  by (subst dec_string.simps) simp

lemma dec_string_digits: "c \<in> set (dec_string n) \<Longrightarrow> is_digit c"
proof (induction n rule: dec_string.induct)
  case (1 n)
  then show ?case
    by (cases "n < 10") (auto simp: dec_string_small dec_string_step)
qed

lemma dec_string_nonempty [simp]: "dec_string n \<noteq> []"
  by (subst dec_string.simps) simp

lemma length_dec_string_le: "n < 1000 \<Longrightarrow> length (dec_string n) \<le> 3"
  by (cases "n < 10"; cases "n < 100")
    (simp_all add: dec_string_small dec_string_step)

lemma not_digit [simp]: "\<not> is_digit CHR ''/''" "\<not> is_digit CHR '':''" "\<not> is_digit CHR ''.''"
  "\<not> is_digit CHR 0x00"
  by (simp_all add: is_digit_def)

text \<open>Reading digits accumulates; the parsers of octets and of prefix lengths are instances.\<close>

lemma plen_loop_snoc:
  "plen_loop l (s @ [c]) = (case plen_loop l s of None \<Rightarrow> None
     | Some v \<Rightarrow> if \<not> is_digit c \<or> v > 128 then None else Some (v * 10 + int (digit_val c)))"
  by (induction l s rule: plen_loop.induct) auto

lemma dec_decomp: "int (n div 10) * 10 + int (n mod 10) = int n"
  by presburger

lemma plen_loop_dec: "n div 10 \<le> 128 \<Longrightarrow> plen_loop 0 (dec_string n) = Some (int n)"
proof (induction n rule: dec_string.induct)
  case (1 n)
  show ?case
  proof (cases "n < 10")
    case True
    then show ?thesis by (simp add: dec_string_small)
  next
    case False
    then have "plen_loop 0 (dec_string (n div 10)) = Some (int (n div 10))"
      using "1.IH" "1.prems" by linarith
    with False "1.prems" show ?thesis
      by (simp add: dec_string_step plen_loop_snoc dec_decomp del: of_nat_div)
  qed
qed

lemma pton4_dec:
  assumes n: "n < 256"
  shows "pton4_loop octs None (dec_string n @ rest) = pton4_loop octs (Some n) rest"
proof -
  consider "n < 10" | "10 \<le> n" "n < 100" | "100 \<le> n" by linarith
  then show ?thesis
  proof cases
    case 1
    then show ?thesis by (simp add: dec_string_small)
  next
    case 2
    then have "n div 10 < 10" "n div 10 \<noteq> 0" "n div 10 * 10 + n mod 10 = n" by simp_all
    with 2 n show ?thesis by (simp add: dec_string_step dec_string_small)
  next
    case 3
    define h t u where "h = n div 10 div 10" and "t = n div 10 mod 10" and "u = n mod 10"
    have eq: "n = h * 100 + t * 10 + u" "h < 10" "t < 10" "u < 10" "h \<noteq> 0"
    proof -
      have "n = 10 * (n div 10) + u" and "n div 10 = 10 * h + t"
        unfolding h_def t_def u_def by simp_all
      then show "n = h * 100 + t * 10 + u" by linarith
      show "h < 10" "t < 10" "u < 10" using n unfolding h_def t_def u_def by linarith+
      show "h \<noteq> 0" using 3 unfolding h_def by linarith
    qed
    have "dec_string n = [char_of (48 + h), char_of (48 + t), char_of (48 + u)]"
      using 3 n unfolding h_def t_def u_def by (simp add: dec_string_step dec_string_small)
    with eq n show ?thesis by (simp add: mult.commute [of 100])
  qed
qed

lemma inet_ntop4_inet_pton4: "inet_pton4 (inet_ntop4 a) = Some [a ! 0, a ! 1, a ! 2, a ! 3]"
proof -
  show ?thesis
    using pton4_dec [OF unat_u8, where rest = "[]"]
    by (simp add: inet_pton4_def inet_ntop4_def pton4_dec [OF unat_u8])
qed

subsection \<open>The round trip\<close>

lemma split_at_none: "c \<notin> set s \<Longrightarrow> split_at c s = (s, None)"
  by (induction s) auto

lemma split_at_some: "c \<notin> set s \<Longrightarrow> split_at c (s @ c # t) = (s, Some t)"
  by (induction s) auto

lemma inet_ntop4_chars: "c \<in> set (inet_ntop4 a) \<Longrightarrow> is_digit c \<or> c = CHR ''.''"
  by (auto simp: inet_ntop4_def dest: dec_string_digits)

lemma length_inet_ntop4: "length (inet_ntop4 a) \<le> 15"
proof -
  have "length (dec_string (unat (x :: u8))) \<le> 3" for x
    using unat_u8 [of x] by (intro length_dec_string_le) simp
  note b = this [of "a ! 0"] this [of "a ! 1"] this [of "a ! 2"] this [of "a ! 3"]
  then show ?thesis unfolding inet_ntop4_def by simp
qed

lemma take4: "4 \<le> length a \<Longrightarrow> take 4 a = [a ! 0, a ! 1, a ! 2, a ! 3]"
  by (simp add: list_eq_iff_nth_eq nth_Cons' less_Suc_eq numeral_nat)

lemma to_str_parse_fam:
  assumes wf: "cidr_wf p"
    and text_rt: "inet_pton (family p) (inet_ntop (family p) (addr p)) = Some (take (nbytes (family p)) (addr p))"
    and slash: "CHR ''/'' \<notin> set (inet_ntop (family p) (addr p))"
    and nul: "CHR 0x00 \<notin> set (inet_ntop (family p) (addr p))"
    and colon: "CHR '':'' \<in> set (inet_ntop (family p) (addr p)) \<longleftrightarrow> family p = AF_INET6"
    and len: "length (inet_ntop (family p) (addr p)) \<le> 45"
  shows "vg_parse_cidr (vg_cidr_to_str p 80) = Some p"
proof -
  let ?h = "inet_ntop (family p) (addr p)"
  let ?d = "dec_string (plen p)"
  have pl: "plen p \<le> 128" "plen p \<le> width (family p)"
    using wf by (auto simp: cidr_defs split: if_splits)
  have ld: "length ?d \<le> 3" using pl by (intro length_dec_string_le) simp
  have str: "vg_cidr_to_str p 80 = ?h @ ''/'' @ ?d"
    using len ld by (simp add: vg_cidr_to_str_def plen_def)
  have nul': "CHR 0x00 \<notin> set (?h @ ''/'' @ ?d)"
    using nul by (auto dest: dec_string_digits)
  have fam: "(snd (split_at CHR '':'' ?h) \<noteq> None) = (family p = AF_INET6)"
  proof (cases "CHR '':'' \<in> set ?h")
    case True
    then obtain x y where "?h = x @ CHR '':'' # y" "CHR '':'' \<notin> set x" by (meson split_list_first)
    then show ?thesis using True colon by (simp add: split_at_some)
  qed (use colon in \<open>simp add: split_at_none\<close>)
  have dl: "plen_loop 0 ?d = Some (int (plen p))" using pl by (intro plen_loop_dec) linarith
  have a: "take (nbytes (family p)) (addr p) @ replicate (16 - nbytes (family p)) 0 = addr p"
    using wf by (metis append_take_drop_id cidr_wf_def)
  have m: "int (plen p) \<le> (if family p = AF_INET6 then 128 else 32)"
    using pl by (cases "family p") (simp_all add: width_def)
  have w: "word_of_int (int (plen p)) = prefixlen p" by (simp add: plen_def)
  have l: "length (take (nbytes (family p)) (addr p)) = nbytes (family p)"
    using wf by (simp add: cidr_defs)
  have n: "length (?h @ ''/'' @ ?d) < 128" using len ld by simp
  show ?thesis
  proof (cases "family p")
    case AF_INET
    with fam have "snd (split_at CHR '':'' ?h) = None" by simp
    moreover have "vg_cidr_mask \<lparr>family = AF_INET, addr = addr p, prefixlen = prefixlen p\<rparr> = p"
      using AF_INET wf by (cases p) (simp add: cidr_wf_def)
    ultimately show ?thesis
      using AF_INET nul' n wf m text_rt a l w slash
      by (simp add: str vg_parse_cidr_def vg_parse_cidr_len_def Let_def split_at_some dl
          cidr_wf_def del: set_append)
  next
    case AF_INET6
    with fam have "snd (split_at CHR '':'' ?h) \<noteq> None" by simp
    moreover have "vg_cidr_mask \<lparr>family = AF_INET6, addr = addr p, prefixlen = prefixlen p\<rparr> = p"
      using AF_INET6 wf by (cases p) (simp add: cidr_wf_def)
    ultimately show ?thesis
      using AF_INET6 nul' n wf m text_rt a l w slash
      by (simp add: str vg_parse_cidr_def vg_parse_cidr_len_def Let_def split_at_some dl
          cidr_wf_def del: set_append)
  qed
qed

text \<open>
  Printing and parsing agree: the text \<open>vg_cidr_to_str\<close> makes of a masked IPv4 prefix is read back by
  \<open>vg_parse_cidr\<close> as the same prefix, so the drops a client lists can be given back to it.
\<close>

theorem to_str_parse_v4:
  assumes wf: "cidr_wf p" and f: "family p = AF_INET"
  shows "vg_parse_cidr (vg_cidr_to_str p 80) = Some p"
proof (rule to_str_parse_fam [OF wf])
  show "inet_pton (family p) (inet_ntop (family p) (addr p)) = Some (take (nbytes (family p)) (addr p))"
    using f wf by (simp add: inet_pton_def inet_ntop_def inet_ntop4_inet_pton4 nbytes_def take4
        cidr_wf_def cidr_ok_def)
qed (use f inet_ntop4_chars length_inet_ntop4 [of "addr p"] in \<open>auto simp: inet_ntop_def dest: inet_ntop4_chars\<close>)

theorem to_str_parse_v4_witness:
  "vg_cidr_to_str ex_net 80 = ''203.0.113.0/24'' \<and> vg_parse_cidr ''203.0.113.0/24'' = Some ex_net"
proof -
  have t: "vg_cidr_to_str ex_net 80 = ''203.0.113.0/24''" by code_simp
  have "cidr_wf ex_net" by code_simp
  then show ?thesis using to_str_parse_v4 [of ex_net] t by (simp add: ex_net_def)
qed

end
