(* ===== verification/ConfigFile.thy ===== *)
theory ConfigFile
  imports Config IpText
begin

section \<open>Reading the configuration: config.c\<close>

text \<open>
  Defaults, the parsers of values, the key table and \<open>vg_config_load\<close>, and the addresses taken from
  the interface. A parse that returns -1 is \<open>None\<close>. The file is the list of its lines as \<open>getline\<close>
  returns them and whether the stream ended with an error; \<open>None\<close> is a NULL path or a file that
  cannot be opened. The list of interface addresses that \<open>getifaddrs\<close> returns is an argument.
\<close>

subsection \<open>Values\<close>

definition trim :: "string \<Rightarrow> string" where
  "trim s = rev (dropWhile isspace (rev (dropWhile isspace s)))"

definition parse_u64 :: "string \<Rightarrow> u64 option" where
  "parse_u64 s =
     (if s = [] then None
      else case strtoull s of
             None \<Rightarrow> None
           | Some (v, rest) \<Rightarrow> if rest \<noteq> [] then None else Some v)"

definition INT_MAX :: u64 where [simp]: "INT_MAX = 0x7fffffff"

definition parse_int :: "string \<Rightarrow> int option" where
  "parse_int s =
     (case parse_u64 s of None \<Rightarrow> None | Some v \<Rightarrow> if v > INT_MAX then None else Some (uint v))"

function parse_csv_cidrs :: "string \<Rightarrow> vg_cidr list \<Rightarrow> nat \<Rightarrow> vg_cidr list option" where
  "parse_csv_cidrs s acc mx =
     (case strtok CHR '','' s of
        None \<Rightarrow> Some acc
      | Some (tok, rest) \<Rightarrow>
          (let tok = trim tok in
           if tok = [] then parse_csv_cidrs rest acc mx
           else if length acc \<ge> mx then None
           else case vg_parse_cidr tok of
                  None \<Rightarrow> None
                | Some p \<Rightarrow> parse_csv_cidrs rest (acc @ [p]) mx))"
  by pat_completeness auto
termination
  by (relation "measure (\<lambda>(s, _, _). length s)") (auto dest: strtok_length)

function parse_allow_ports :: "string \<Rightarrow> u16 list \<Rightarrow> u16 list option" where
  "parse_allow_ports s acc =
     (case strtok CHR '','' s of
        None \<Rightarrow> Some acc
      | Some (tok, rest) \<Rightarrow>
          (let tok = trim tok in
           if tok = [] then parse_allow_ports rest acc
           else if length acc \<ge> VG_MAX_ALLOW_PORTS then None
           else case parse_u64 tok of
                  None \<Rightarrow> None
                | Some v \<Rightarrow>
                    if v < 1 \<or> v > 65535 then None
                    else parse_allow_ports rest (acc @ [ucast v])))"
  by pat_completeness auto
termination
  by (relation "measure (\<lambda>(s, _). length s)") (auto dest: strtok_length)

declare parse_csv_cidrs.simps [simp del] parse_allow_ports.simps [simp del]

subsection \<open>Defaults and keys\<close>

definition parsed :: "string \<Rightarrow> vg_cidr list" where
  "parsed s = (case vg_parse_cidr s of None \<Rightarrow> [] | Some p \<Rightarrow> [p])"

definition vg_config_defaults :: vg_config where
  "vg_config_defaults =
     \<lparr>interface = ''eth0'', xdp_mode = ''auto'', log_file = ''/var/log/voidgate.log'',
      pid_file = ''/run/voidgate.pid'', ctl_socket_group = '''',
      wake_pps = 2000, wake_mbps = 25, idle_poll_ms = 1000, clear_seconds = 30,
      threshold_pps = 500, threshold_mbps = 5, ban_time = 1900, aggregate_k = 8,
      metrics_port = 9105, remote_map_size = 262144, drop_map_size = 65536,
      allow_ports = [22], local_cidr = [],
      allow_cidr = parsed ''169.254.169.254/32'' @ parsed ''127.0.0.0/8'' @ parsed ''::1/128'' @
        parsed ''fe80::/10'' @ parsed ''ff02::/16'',
      auto_local = True\<rparr>"

text \<open>The table \<open>scalars\<close>: a key, its kind with the buffer size of a string, and the field.\<close>

datatype cfg_scalar =
    CFG_STR nat "string \<Rightarrow> vg_config \<Rightarrow> vg_config"
  | CFG_U64 "u64 \<Rightarrow> vg_config \<Rightarrow> vg_config"
  | CFG_I32 "int \<Rightarrow> vg_config \<Rightarrow> vg_config"
  | CFG_U32 "u32 \<Rightarrow> vg_config \<Rightarrow> vg_config"

definition scalars :: "(string \<times> cfg_scalar) list" where
  "scalars =
     [(''interface'', CFG_STR VG_MAX_IFACE (\<lambda>v c. c\<lparr>interface := v\<rparr>)),
      (''xdp_mode'', CFG_STR 16 (\<lambda>v c. c\<lparr>xdp_mode := v\<rparr>)),
      (''log_file'', CFG_STR VG_CFG_PATH_MAX (\<lambda>v c. c\<lparr>log_file := v\<rparr>)),
      (''pid_file'', CFG_STR VG_CFG_PATH_MAX (\<lambda>v c. c\<lparr>pid_file := v\<rparr>)),
      (''ctl_socket_group'', CFG_STR 64 (\<lambda>v c. c\<lparr>ctl_socket_group := v\<rparr>)),
      (''wake_pps'', CFG_U64 (\<lambda>v c. c\<lparr>wake_pps := v\<rparr>)),
      (''wake_mbps'', CFG_U64 (\<lambda>v c. c\<lparr>wake_mbps := v\<rparr>)),
      (''idle_poll_ms'', CFG_I32 (\<lambda>v c. c\<lparr>idle_poll_ms := v\<rparr>)),
      (''clear_seconds'', CFG_I32 (\<lambda>v c. c\<lparr>clear_seconds := v\<rparr>)),
      (''threshold_pps'', CFG_U64 (\<lambda>v c. c\<lparr>threshold_pps := v\<rparr>)),
      (''threshold_mbps'', CFG_U64 (\<lambda>v c. c\<lparr>threshold_mbps := v\<rparr>)),
      (''ban_time'', CFG_I32 (\<lambda>v c. c\<lparr>ban_time := v\<rparr>)),
      (''aggregate_k'', CFG_I32 (\<lambda>v c. c\<lparr>aggregate_k := v\<rparr>)),
      (''metrics_port'', CFG_I32 (\<lambda>v c. c\<lparr>metrics_port := v\<rparr>)),
      (''remote_map_size'', CFG_U32 (\<lambda>v c. c\<lparr>remote_map_size := v\<rparr>)),
      (''drop_map_size'', CFG_U32 (\<lambda>v c. c\<lparr>drop_map_size := v\<rparr>))]"

fun apply_scalar :: "vg_config \<Rightarrow> cfg_scalar \<Rightarrow> string \<Rightarrow> vg_config option" where
  "apply_scalar c (CFG_STR sz put) v =
     (if sz = 0 \<or> v = [] \<or> length v \<ge> sz then None else Some (put (take (sz - 1) v) c))"
| "apply_scalar c (CFG_U64 put) v =
     (case parse_u64 v of None \<Rightarrow> None | Some n \<Rightarrow> Some (put n c))"
| "apply_scalar c (CFG_I32 put) v =
     (case parse_int v of None \<Rightarrow> None | Some n \<Rightarrow> Some (put n c))"
| "apply_scalar c (CFG_U32 put) v =
     (case parse_u64 v of
        None \<Rightarrow> None
      | Some n \<Rightarrow> if n > 0xffffffff then None else Some (put (ucast n) c))"

subsection \<open>The file\<close>

text \<open>The part of a line after its key and value are known.\<close>

definition load_pair :: "string \<Rightarrow> string \<Rightarrow> vg_config \<Rightarrow> vg_config option" where
  "load_pair key val c =
     (case map_of scalars key of
        Some s \<Rightarrow> apply_scalar c s val
      | None \<Rightarrow>
          if key = ''allow_ports'' then
            map_option (\<lambda>ps. c\<lparr>allow_ports := ps\<rparr>) (parse_allow_ports val [])
          else if key = ''local_networks'' then
            (if val \<noteq> [] then
               map_option (\<lambda>ps. c\<lparr>auto_local := False, local_cidr := ps\<rparr>)
                 (parse_csv_cidrs val [] VG_MAX_CIDR_LIST)
             else Some c)
          else if key = ''allow_networks'' then
            (if val \<noteq> [] then
               map_option (\<lambda>ps. c\<lparr>allow_cidr := ps\<rparr>) (parse_csv_cidrs val [] VG_MAX_CIDR_LIST)
             else Some c)
          else Some c)"

text \<open>
  One line, cut at a NUL as the C string functions see it: \<open>None\<close> is the jump to \<open>fail\<close>, and a line
  that is skipped leaves the configuration as it is.
\<close>

definition load_line :: "string \<Rightarrow> vg_config \<Rightarrow> vg_config option" where
  "load_line raw c =
     (let line = takeWhile (\<lambda>ch. ch \<noteq> CHR 0x00) raw in
      if line = [] \<or> hd line = CHR ''#'' \<or> hd line = CHR 0x0A then Some c
      else case split_at CHR ''='' line of
             (_, None) \<Rightarrow> Some c
           | (k, Some v) \<Rightarrow>
               (let key = trim k; val = trim v in
                if key = [] then Some c
                else load_pair key val c))"

fun load_lines :: "string list \<Rightarrow> vg_config \<Rightarrow> vg_config option" where
  "load_lines [] c = Some c"
| "load_lines (l # ls) c = (case load_line l c of None \<Rightarrow> None | Some c \<Rightarrow> load_lines ls c)"

definition vg_config_load :: "(string list \<times> bool) option \<Rightarrow> vg_config option" where
  "vg_config_load cf =
     (case cf of
        None \<Rightarrow> Some vg_config_defaults
      | Some (ls, read_error) \<Rightarrow>
          (case load_lines ls vg_config_defaults of
             None \<Rightarrow> None
           | Some c \<Rightarrow>
               if read_error then None
               else Some (if idle_poll_ms c \<le> 0 then c\<lparr>idle_poll_ms := 1000\<rparr> else c)))"

subsection \<open>Addresses of the interface\<close>

datatype sockaddr = Sin bytes | Sin6 bytes | OtherFamily

record ifaddrs =
  ifa_name :: "string option"
  ifa_addr :: "sockaddr option"

definition in6_linklocal :: "bytes \<Rightarrow> bool" where
  "in6_linklocal a \<longleftrightarrow> a ! 0 = 0xfe \<and> (a ! 1) AND 0xc0 = 0x80"

definition in6_loopback :: "bytes \<Rightarrow> bool" where
  "in6_loopback a \<longleftrightarrow> take 16 a = replicate 15 0 @ [1]"

fun nic_loop :: "string \<Rightarrow> nat \<Rightarrow> ifaddrs list \<Rightarrow> vg_cidr list \<Rightarrow> vg_cidr list" where
  "nic_loop nic mx [] out = out"
| "nic_loop nic mx (p # ps) out =
     (if \<not> length out < mx then out
      else if ifa_addr p = None \<or> ifa_name p = None \<or> ifa_name p \<noteq> Some nic
      then nic_loop nic mx ps out
      else case the (ifa_addr p) of
             Sin a \<Rightarrow>
               if a ! 0 = 127 then nic_loop nic mx ps out
               else nic_loop nic mx ps
                      (out @ [\<lparr>family = AF_INET, addr = take 4 a @ replicate 12 0, prefixlen = 32\<rparr>])
           | Sin6 a \<Rightarrow>
               if in6_linklocal a \<or> in6_loopback a then nic_loop nic mx ps out
               else nic_loop nic mx ps
                      (out @ [\<lparr>family = AF_INET6, addr = take 16 a, prefixlen = 128\<rparr>])
           | OtherFamily \<Rightarrow> nic_loop nic mx ps out)"

definition local_cidr_from_nic :: "ifaddrs list option \<Rightarrow> string \<Rightarrow> nat \<Rightarrow> vg_cidr list option" where
  "local_cidr_from_nic ifs nic mx =
     (case ifs of None \<Rightarrow> None | Some ps \<Rightarrow> Some (nic_loop nic mx ps []))"

definition vg_config_auto_local :: "ifaddrs list option \<Rightarrow> vg_config \<Rightarrow> vg_config option" where
  "vg_config_auto_local ifs c =
     (if \<not> auto_local c then Some c
      else case local_cidr_from_nic ifs (interface c) VG_MAX_CIDR_LIST of
             None \<Rightarrow> None
           | Some ps \<Rightarrow> Some (c\<lparr>local_cidr := ps\<rparr>))"

subsection \<open>A loaded configuration fits its buffers\<close>

definition int_field :: "int \<Rightarrow> bool" where
  "int_field n \<longleftrightarrow> 0 \<le> n \<and> n \<le> 2147483647"

definition config_fits :: "vg_config \<Rightarrow> bool" where
  "config_fits c \<longleftrightarrow> config_ok c \<and>
     length (allow_ports c) \<le> VG_MAX_ALLOW_PORTS \<and> 0 \<notin> set (allow_ports c) \<and>
     length (local_cidr c) \<le> VG_MAX_CIDR_LIST \<and> length (allow_cidr c) \<le> VG_MAX_CIDR_LIST \<and>
     length (interface c) < VG_MAX_IFACE \<and> length (xdp_mode c) < 16 \<and>
     length (log_file c) < VG_CFG_PATH_MAX \<and> length (pid_file c) < VG_CFG_PATH_MAX \<and>
     length (ctl_socket_group c) < 64 \<and>
     int_field (idle_poll_ms c) \<and> int_field (clear_seconds c) \<and> int_field (ban_time c) \<and>
     int_field (aggregate_k c) \<and> int_field (metrics_port c)"

lemma parse_cidr_wf: "vg_parse_cidr s = Some p \<Longrightarrow> cidr_wf p"
  unfolding vg_parse_cidr_def by (rule parse_len_wf)

lemma csv_cidrs_fit:
  "parse_csv_cidrs s acc mx = Some ps \<Longrightarrow> \<forall>p \<in> set acc. cidr_wf p \<Longrightarrow> length acc \<le> mx \<Longrightarrow>
   (\<forall>p \<in> set ps. cidr_wf p) \<and> length ps \<le> mx"
proof (induction s acc mx rule: parse_csv_cidrs.induct)
  case (1 s acc mx)
  show ?case
  proof (cases "strtok CHR '','' s")
    case None
    then show ?thesis using 1(3-5) by (simp add: parse_csv_cidrs.simps)
  next
    case (Some tr)
    obtain tok rest where tr: "tr = (tok, rest)" by fastforce
    note st = Some [unfolded tr]
    show ?thesis
    proof (cases "trim tok = []")
      case True
      then have "parse_csv_cidrs rest acc mx = Some ps" using 1(3) st by (subst (asm) parse_csv_cidrs.simps) simp
      then show ?thesis using 1(1) [OF st refl refl True] 1(4,5) by blast
    next
      case False
      then obtain p where p: "length acc < mx" "vg_parse_cidr (trim tok) = Some p"
        "parse_csv_cidrs rest (acc @ [p]) mx = Some ps"
        using 1(3) st by (subst (asm) parse_csv_cidrs.simps) (auto simp: Let_def split: option.splits if_splits)
      have "\<forall>q \<in> set (acc @ [p]). cidr_wf q" using 1(4) parse_cidr_wf [OF p(2)] by simp
      moreover have "length (acc @ [p]) \<le> mx" using p(1) by simp
      moreover have "\<not> mx \<le> length acc" using p(1) by simp
      ultimately show ?thesis using 1(2) [OF st refl refl False _ p(2) p(3)] by blast
    qed
  qed
qed

lemma ucast_port: "1 \<le> v \<Longrightarrow> v \<le> 65535 \<Longrightarrow> (ucast (v :: u64) :: u16) \<noteq> 0"
proof -
  assume v: "1 \<le> v" "v \<le> 65535"
  then have n: "1 \<le> unat v" "unat v \<le> 65535" by (simp_all add: word_le_nat_alt)
  then have "unat (ucast v :: u16) = unat v" by (simp add: unsigned_ucast_eq take_bit_nat_eq_self)
  then show ?thesis using n by auto
qed

lemma allow_ports_fit:
  "parse_allow_ports s acc = Some ps \<Longrightarrow> 0 \<notin> set acc \<Longrightarrow> length acc \<le> VG_MAX_ALLOW_PORTS \<Longrightarrow>
   0 \<notin> set ps \<and> length ps \<le> VG_MAX_ALLOW_PORTS"
proof (induction s acc rule: parse_allow_ports.induct)
  case (1 s acc)
  show ?case
  proof (cases "strtok CHR '','' s")
    case None
    then show ?thesis using 1(3-5) by (simp add: parse_allow_ports.simps)
  next
    case (Some tr)
    obtain tok rest where tr: "tr = (tok, rest)" by fastforce
    note st = Some [unfolded tr]
    show ?thesis
    proof (cases "trim tok = []")
      case True
      then have "parse_allow_ports rest acc = Some ps" using 1(3) st by (subst (asm) parse_allow_ports.simps) simp
      then show ?thesis using 1(1) [OF st refl refl True] 1(4,5) by blast
    next
      case False
      then obtain v where p: "\<not> VG_MAX_ALLOW_PORTS \<le> length acc" "parse_u64 (trim tok) = Some v"
        "\<not> (v < 1 \<or> 65535 < v)" "parse_allow_ports rest (acc @ [ucast v]) = Some ps"
        using 1(3) st by (subst (asm) parse_allow_ports.simps) (auto simp: Let_def split: option.splits if_splits)
      have "1 \<le> v" "v \<le> 65535" using p(3) unfolding de_Morgan_disj not_less by blast+
      then have "0 \<notin> set (acc @ [ucast v])" using 1(4) ucast_port [of v] by auto
      moreover have "length (acc @ [ucast v :: u16]) \<le> VG_MAX_ALLOW_PORTS" using p(1) by simp
      ultimately show ?thesis using 1(2) [OF st refl refl False p(1) p(2) p(3) p(4)] by blast
    qed
  qed
qed

lemma parse_int_field: "parse_int s = Some n \<Longrightarrow> int_field n"
  by (auto simp: parse_int_def int_field_def word_le_def word_less_def not_less split: option.splits if_splits)

definition keeps_fit :: "cfg_scalar \<Rightarrow> bool" where
  "keeps_fit s \<longleftrightarrow> (\<forall>c v c'. config_fits c \<longrightarrow> apply_scalar c s v = Some c' \<longrightarrow> config_fits c')"

lemma keeps_fit_intros:
  "(\<And>c x. config_fits c \<Longrightarrow> length x < sz \<Longrightarrow> config_fits (putS x c)) \<Longrightarrow> keeps_fit (CFG_STR sz putS)"
  "(\<And>c x. config_fits c \<Longrightarrow> config_fits (putL x c)) \<Longrightarrow> keeps_fit (CFG_U64 putL)"
  "(\<And>c x. config_fits c \<Longrightarrow> int_field x \<Longrightarrow> config_fits (putI x c)) \<Longrightarrow> keeps_fit (CFG_I32 putI)"
  "(\<And>c x. config_fits c \<Longrightarrow> config_fits (putW x c)) \<Longrightarrow> keeps_fit (CFG_U32 putW)"
  by (auto simp: keeps_fit_def split: option.splits if_splits dest: parse_int_field)

lemma scalars_keep_fit: "\<forall>(key, s) \<in> set scalars. keeps_fit s"
  unfolding scalars_def list.set ball_simps(5,7) prod.case
  by (intro conjI keeps_fit_intros TrueI; simp add: config_fits_def config_ok_def)

lemma apply_scalar_fits:
  assumes "(key, s) \<in> set scalars" "apply_scalar c s v = Some c'" "config_fits c"
  shows "config_fits c'"
  using assms scalars_keep_fit unfolding keeps_fit_def by blast

lemma load_pair_fits:
  assumes l: "load_pair key val c = Some c'" and c: "config_fits c"
  shows "config_fits c'"
proof (cases "map_of scalars key")
  case (Some s)
  then show ?thesis using l c apply_scalar_fits [OF map_of_SomeD [OF Some]] by (simp add: load_pair_def)
next
  case None
  have fit: "config_fits (c\<lparr>auto_local := False, local_cidr := ps\<rparr>) \<and> config_fits (c\<lparr>allow_cidr := ps\<rparr>)"
    if "parse_csv_cidrs val [] VG_MAX_CIDR_LIST = Some ps" for ps
    using csv_cidrs_fit [OF that] c by (simp add: config_fits_def config_ok_def ball_Un)
  have port: "config_fits (c\<lparr>allow_ports := ps\<rparr>)" if "parse_allow_ports val [] = Some ps" for ps
    using allow_ports_fit [OF that] c by (simp add: config_fits_def config_ok_def)
  show ?thesis
    using l None c fit port unfolding load_pair_def
    by (auto simp del: VG_MAX_CIDR_LIST_def split: if_splits)
qed

lemma load_line_pair:
  "load_line raw c = Some c \<or> (\<exists>key val. load_line raw c = load_pair key val c)"
  unfolding load_line_def Let_def by (auto split: prod.splits option.splits)

lemma load_line_fits: "load_line l c = Some c' \<Longrightarrow> config_fits c \<Longrightarrow> config_fits c'"
  using load_line_pair [of l c] load_pair_fits by auto

lemma load_lines_fits: "load_lines ls c = Some c' \<Longrightarrow> config_fits c \<Longrightarrow> config_fits c'"
  by (induction ls c rule: load_lines.induct) (auto split: option.splits dest: load_line_fits)

lemma parsed_wf: "p \<in> set (parsed s) \<Longrightarrow> cidr_wf p"
  using parse_cidr_wf [of s p] by (cases "vg_parse_cidr s") (auto simp: parsed_def)

lemma length_parsed: "length (parsed s) \<le> 1"
  by (simp add: parsed_def split: option.splits)

lemma defaults_fit: "config_fits vg_config_defaults"
  using length_parsed [of "''169.254.169.254/32''"] length_parsed [of "''127.0.0.0/8''"]
    length_parsed [of "''::1/128''"] length_parsed [of "''fe80::/10''"] length_parsed [of "''ff02::/16''"]
  by (auto simp: config_fits_def config_ok_def int_field_def vg_config_defaults_def dest: parsed_wf)

lemma load_config_fits:
  assumes "vg_config_load cf = Some c"
  shows "config_fits c \<and> 0 < idle_poll_ms c"
proof (cases cf)
  case None
  then show ?thesis using assms defaults_fit by (simp add: vg_config_load_def) (auto simp: vg_config_defaults_def)
next
  case (Some f)
  obtain ls e where f: "f = (ls, e)" by fastforce
  then obtain c0 where c0: "load_lines ls vg_config_defaults = Some c0"
    "c = (if idle_poll_ms c0 \<le> 0 then c0\<lparr>idle_poll_ms := 1000\<rparr> else c0)"
    using assms Some by (auto simp: vg_config_load_def split: option.splits if_splits)
  from load_lines_fits [OF c0(1) defaults_fit] show ?thesis
    unfolding c0(2) by (auto simp: config_fits_def config_ok_def int_field_def)
qed

text \<open>
  C36: Every configuration that \<open>vg_config_load\<close> accepts fits the fixed arrays and buffers of
  \<open>struct vg_config\<close>: at most 8 ports, none of them 0, at most 256 prefixes in each list, all masked
  to their length, every string shorter than its buffer, every \<open>int\<close> non-negative; and the poll
  interval is positive.
\<close>

theorem load_fits:
  assumes "vg_config_load cf = Some c"
  shows "config_fits c \<and> 0 < idle_poll_ms c"
  using assms by (rule load_config_fits)

lemma ex_ban_line: "load_line ''ban_time = 60'' c = Some (c\<lparr>ban_time := 60\<rparr>)"
proof -
  have sp: "split_at CHR ''='' ''ban_time = 60'' = (''ban_time '', Some '' 60'')" by code_simp
  have tr: "trim ''ban_time '' = ''ban_time''" "trim '' 60'' = ''60''" by code_simp+
  have tw: "takeWhile (\<lambda>ch. ch \<noteq> CHR 0x00) ''ban_time = 60'' = ''ban_time = 60''" by code_simp
  have pi: "parse_int ''60'' = Some 60" by code_simp
  have mo: "map_of scalars ''ban_time'' = Some (CFG_I32 (\<lambda>v c. c\<lparr>ban_time := v\<rparr>))"
    by (simp add: scalars_def)
  show ?thesis
    unfolding load_line_def Let_def tw sp prod.case option.case tr load_pair_def mo apply_scalar.simps pi
    by simp
qed

theorem load_fits_witness:
  "case vg_config_load (Some ([''ban_time = 60''], False)) of
     None \<Rightarrow> False
   | Some c \<Rightarrow> config_fits c \<and> 0 < idle_poll_ms c \<and> ban_time c = 60 \<and> wake_pps c = 2000"
proof -
  have "vg_config_load (Some ([''ban_time = 60''], False)) = Some (vg_config_defaults\<lparr>ban_time := 60\<rparr>)"
    using ex_ban_line [of vg_config_defaults] by (simp add: vg_config_load_def) (simp add: vg_config_defaults_def)
  then show ?thesis using load_fits [of "Some ([''ban_time = 60''], False)"]
    by (simp add: vg_config_defaults_def)
qed

subsection \<open>Numbers\<close>

lemma dec_value_snoc: "dec_value (s @ [c]) = 10 * dec_value s + int (digit_val c)"
  by (simp add: dec_value_def)

lemma dec_value_dec_string: "dec_value (dec_string n) = int n"
proof (induction n rule: dec_string.induct)
  case (1 n)
  show ?case
  proof (cases "n < 10")
    case True
    then show ?thesis by (simp add: dec_string_small dec_value_def)
  next
    case False
    then have "dec_value (dec_string (n div 10)) = int (n div 10)" using 1 by simp
    moreover have "digit_val (char_of (48 + n mod 10 :: nat)) = n mod 10" by (rule digit_val_char_of) simp
    ultimately show ?thesis using False by (simp add: dec_string_step dec_value_snoc) presburger
  qed
qed

lemma digit_not_space: "is_digit c \<Longrightarrow> \<not> isspace c \<and> c \<noteq> CHR ''-'' \<and> c \<noteq> CHR ''+''"
  by (auto simp: is_digit_def isspace_def)

lemma strtoull_dec_string:
  "strtoull (dec_string n) = Some (if n > 2 ^ 64 - 1 then - 1 else of_nat n, [])"
proof -
  obtain c s where cs: "dec_string n = c # s" using dec_string_nonempty [of n] by (cases "dec_string n") auto
  have all: "\<forall>x \<in> set (dec_string n). is_digit x" using dec_string_digits by blast
  then have "takeWhile is_digit (dec_string n) = dec_string n" "dropWhile is_digit (dec_string n) = []"
    by (simp_all add: takeWhile_eq_all_conv dropWhile_eq_Nil_conv)
  moreover have "dropWhile isspace (dec_string n) = dec_string n" "c \<noteq> CHR ''-''" "c \<noteq> CHR ''+''"
    using all cs digit_not_space by auto
  ultimately show ?thesis
    using cs dec_value_dec_string [of n] by (simp add: strtoull_def Let_def del: cs)
qed

text \<open>
  \<open>parse_u64\<close> reads every decimal numeral below \<open>2 ^ 64\<close> back to its number, and saturates on
  larger ones instead of rejecting them.
\<close>

theorem parse_u64_dec_string:
  "parse_u64 (dec_string n) = Some (if n < 2 ^ 64 then of_nat n else - 1)"
  using strtoull_dec_string [of n] by (auto simp: parse_u64_def not_less)

text \<open>
  \<open>parse_u64\<close> accepts a sign, and a negative number becomes a huge one: a threshold of -1 is
  read as \<open>2 ^ 64 - 1\<close>.
\<close>

theorem parse_u64_negative: "parse_u64 ''-1'' = Some (2 ^ 64 - 1)"
  by code_simp

subsection \<open>Local addresses\<close>

definition nic_host :: "ifaddrs \<Rightarrow> vg_cidr option" where
  "nic_host p =
     (case ifa_addr p of
        Some (Sin a) \<Rightarrow>
          if a ! 0 = 127 then None
          else Some \<lparr>family = AF_INET, addr = take 4 a @ replicate 12 0, prefixlen = 32\<rparr>
      | Some (Sin6 a) \<Rightarrow>
          if in6_linklocal a \<or> in6_loopback a then None
          else Some \<lparr>family = AF_INET6, addr = take 16 a, prefixlen = 128\<rparr>
      | _ \<Rightarrow> None)"

lemma nic_loop_hosts:
  "nic_loop nic mx ps out =
     out @ take (mx - length out) (List.map_filter nic_host (filter (\<lambda>p. ifa_name p = Some nic) ps))"
proof (induction nic mx ps out rule: nic_loop.induct)
  case (1 nic mx out)
  then show ?case by simp
next
  case (2 nic mx p ps out)
  show ?case
  proof (cases "length out < mx \<and> ifa_name p = Some nic \<and> ifa_addr p \<noteq> None")
    case False
    then show ?thesis using 2 by (auto simp: nic_host_def List.map_filter_def)
  next
    case True
    then obtain sa where sa: "ifa_addr p = Some sa" by auto
    have mx: "mx - length out = Suc (mx - Suc (length out))" using True by (simp add: Suc_diff_Suc)
    show ?thesis
      using 2 True sa by (cases sa) (auto simp: nic_host_def List.map_filter_simps mx)
  qed
qed

definition ifaddrs_ok :: "ifaddrs list \<Rightarrow> bool" where
  "ifaddrs_ok ps \<longleftrightarrow> (\<forall>p \<in> set ps. case ifa_addr p of
     Some (Sin a) \<Rightarrow> length a = 4 | Some (Sin6 a) \<Rightarrow> length a = 16 | _ \<Rightarrow> True)"

lemma mask_full: "length bs = 4 \<Longrightarrow> mask_loop 32 bs = bs" "length bs = 16 \<Longrightarrow> mask_loop 128 bs = bs"
  using mask_loop_full [of bs] by simp_all

lemma nic_host_wf:
  assumes "ifaddrs_ok ps" "p \<in> set ps" "nic_host p = Some h"
  shows "cidr_wf h"
  using assms
  by (auto simp: mask_full ifaddrs_ok_def nic_host_def cidr_wf_def cidr_ok_def plen_def width_def nbytes_def vg_cidr_mask_def
      split: option.splits sockaddr.splits if_splits)

lemma auto_local_hosts:
  assumes "vg_config_auto_local ifs c = Some c'" "auto_local c"
  shows "\<exists>ps. ifs = Some ps \<and> c' = c\<lparr>local_cidr :=
    take VG_MAX_CIDR_LIST (List.map_filter nic_host (filter (\<lambda>p. ifa_name p = Some (interface c)) ps))\<rparr>"
  using assms by (auto simp: vg_config_auto_local_def local_cidr_from_nic_def nic_loop_hosts split: option.splits)

text \<open>
  C37: With automatic local networks, every address of the configured interface that is neither
  loopback nor link-local becomes protected: no prefix that covers it passes the protection test
  (for up to 256 addresses, which is what the list holds).
\<close>

theorem auto_local_protects:
  assumes run: "vg_config_auto_local (Some ps) c = Some c'" and auto: "auto_local c"
    and ok: "ifaddrs_ok ps" "config_ok c"
    and few: "length (List.map_filter nic_host (filter (\<lambda>p. ifa_name p = Some (interface c)) ps)) \<le> VG_MAX_CIDR_LIST"
    and p: "p \<in> set ps" "ifa_name p = Some (interface c)" "nic_host p = Some h"
    and q: "cidr_ok q" "cidr_set h \<inter> cidr_set q \<noteq> {}"
  shows "vg_cidr_is_protected c' q"
proof -
  let ?hs = "List.map_filter nic_host (filter (\<lambda>p. ifa_name p = Some (interface c)) ps)"
  have c': "c' = c\<lparr>local_cidr := ?hs\<rparr>" using auto_local_hosts [OF run auto] few by auto
  have h: "h \<in> set ?hs" using p by (force simp: List.map_filter_def)
  have "\<forall>x \<in> set ?hs. cidr_wf x" using nic_host_wf [OF ok(1)] by (auto simp: List.map_filter_def)
  then have "config_ok c'" using ok(2) c' by (auto simp: config_ok_def)
  moreover have "cidr_set h \<subseteq> protected_set c'" using h c' by (auto simp: protected_set_def)
  ultimately show ?thesis using is_protected_set [OF _ q(1)] q(2) by auto
qed

lemma auto_local_ok:
  assumes "vg_config_auto_local ifs c = Some c'" "config_ok c" "\<And>ps. ifs = Some ps \<Longrightarrow> ifaddrs_ok ps"
  shows "config_ok c'"
proof (cases "auto_local c")
  case True
  then obtain ps where ps: "ifs = Some ps" "c' = c\<lparr>local_cidr :=
      take VG_MAX_CIDR_LIST (List.map_filter nic_host (filter (\<lambda>p. ifa_name p = Some (interface c)) ps))\<rparr>"
    using auto_local_hosts [OF assms(1)] by blast
  have "cidr_wf h" if "h \<in> set (List.map_filter nic_host (filter (\<lambda>p. ifa_name p = Some (interface c)) ps))" for h
    using that nic_host_wf [OF assms(3) [OF ps(1)]] by (auto simp: List.map_filter_def)
  then show ?thesis using assms(2) ps(2) by (auto simp: config_ok_def dest: in_set_takeD)
next
  case False
  then show ?thesis using assms by (simp add: vg_config_auto_local_def)
qed

definition ex_ifs :: "ifaddrs list" where
  "ex_ifs = [\<lparr>ifa_name = Some ''lo'', ifa_addr = Some (Sin [127, 0, 0, 1])\<rparr>,
             \<lparr>ifa_name = Some ''eth0'', ifa_addr = Some (Sin [203, 0, 113, 7])\<rparr>]"

lemma ex_auto_local:
  "List.map_filter nic_host (filter (\<lambda>p. ifa_name p = Some (interface vg_config_defaults)) ex_ifs) = [ex_host]"
  "vg_config_auto_local (Some ex_ifs) vg_config_defaults = Some (vg_config_defaults\<lparr>local_cidr := [ex_host]\<rparr>)"
  "ifaddrs_ok ex_ifs"
proof -
  show hosts: "List.map_filter nic_host (filter (\<lambda>p. ifa_name p = Some (interface vg_config_defaults)) ex_ifs) = [ex_host]"
    by (simp add: ex_ifs_def vg_config_defaults_def nic_host_def List.map_filter_simps ex_host_def)
  show "vg_config_auto_local (Some ex_ifs) vg_config_defaults = Some (vg_config_defaults\<lparr>local_cidr := [ex_host]\<rparr>)"
    using hosts by (simp add: vg_config_auto_local_def local_cidr_from_nic_def nic_loop_hosts)
      (simp add: vg_config_defaults_def)
  show "ifaddrs_ok ex_ifs" by (simp add: ifaddrs_ok_def ex_ifs_def)
qed

lemma ex_overlap: "cidr_set ex_host \<inter> cidr_set ex_net \<noteq> {}"
proof -
  have "vg_cidr_covers_or_overlaps ex_host ex_net" by code_simp
  then show ?thesis using overlaps_iff [OF ex_ok(2) ex_ok(1)] by simp
qed

theorem auto_local_protects_witness:
  "\<exists>c'. vg_config_auto_local (Some ex_ifs) vg_config_defaults = Some c' \<and> vg_cidr_is_protected c' ex_net"
proof -
  let ?p = "\<lparr>ifa_name = Some ''eth0'', ifa_addr = Some (Sin [203, 0, 113, 7])\<rparr>"
  have "auto_local vg_config_defaults" by (simp add: vg_config_defaults_def)
  moreover have "config_ok vg_config_defaults" using defaults_fit by (simp add: config_fits_def)
  moreover have "?p \<in> set ex_ifs" "ifa_name ?p = Some (interface vg_config_defaults)" "nic_host ?p = Some ex_host"
    by (simp_all add: ex_ifs_def vg_config_defaults_def nic_host_def ex_host_def)
  ultimately have "vg_cidr_is_protected (vg_config_defaults\<lparr>local_cidr := [ex_host]\<rparr>) ex_net"
    using auto_local_protects [OF ex_auto_local(2)] ex_auto_local(1,3) ex_ok(1) ex_overlap by auto
  then show ?thesis using ex_auto_local(2) by blast
qed

end
