(* ===== verification/CtlServer.thy ===== *)
theory CtlServer
  imports PolicyRun ConfigFile
begin

section \<open>The control socket: ctl_server.c\<close>

text \<open>
  One connection of the control socket: the request is read until a newline, looked up in the
  command table, run on the controller, and the reply is sent. The results of the successive
  \<open>read\<close> and \<open>send\<close> calls on the connection are lists, an \<open>errno\<close> or the data (empty at the end of
  the stream); when the list of reads is used up the server still waits, which is the result
  \<open>None\<close>. The configuration file and the addresses of the machine come from a record of host
  operations. \<open>fmt0\<close> is the \<open>printf\<close> conversion \<open>%.0f\<close>.
\<close>

definition VG_MAX_DROP_TTL :: u32 where [simp]: "VG_MAX_DROP_TTL = 31536000"
definition REPLY_SIZE :: nat where [simp]: "REPLY_SIZE = 8192"
definition REQ_SIZE :: nat where [simp]: "REQ_SIZE = 256"

abbreviation NL :: char where "NL \<equiv> CHR 0x0A"
abbreviation NUL :: char where "NUL \<equiv> CHR 0x00"

definition snprintf :: "nat \<Rightarrow> string \<Rightarrow> string" where
  "snprintf n s = take (n - 1) s"

definition int_string :: "int \<Rightarrow> string" where
  "int_string i = (if i < 0 then ''-'' @ dec_string (nat (- i)) else dec_string (nat i))"

definition word_string :: "'a::len word \<Rightarrow> string" where
  "word_string x = dec_string (unat x)"

record 'w host =
  h_config :: "string \<Rightarrow> 'w \<Rightarrow> (string list \<times> bool) option \<times> 'w"
  h_ifaddrs :: "'w \<Rightarrow> ifaddrs list option \<times> 'w"

type_synonym 'w handler = "vg_ctrl \<Rightarrow> string \<Rightarrow> 'w \<Rightarrow> string \<times> vg_ctrl \<times> 'w"

subsection \<open>Commands that only report\<close>

definition state_name :: "vg_state \<Rightarrow> string" where
  "state_name s = (if s = VG_ACTIVE then ''active'' else ''idle'')"

definition ctl_status :: "(real \<Rightarrow> string) \<Rightarrow> 'w handler" where
  "ctl_status fmt0 c args w =
     (snprintf REPLY_SIZE
        (''state='' @ state_name (state c) @ '' armed='' @ (if state c = VG_ACTIVE then ''1'' else ''0'') @
         '' rx_pps='' @ fmt0 (rx_pps c) @ '' rx_bps='' @ fmt0 (rx_bps c) @
         '' prefixes='' @ int_string (drop_count (tab c)) @ '' iface='' @ interface (cfg c) @ [NL]), c, w)"

definition ctl_stats :: "'w kern \<Rightarrow> (real \<Rightarrow> string) \<Rightarrow> 'w handler" where
  "ctl_stats K fmt0 c args w =
     (case vg_metrics_read K (maps c) w of
        (None, w) \<Rightarrow> (snprintf REPLY_SIZE (''error reading metrics'' @ [NL]), c, w)
      | (Some m, w) \<Rightarrow>
          (snprintf REPLY_SIZE
             (''rx_pkts='' @ word_string (rx_pkts m) @ '' rx_bytes='' @ word_string (rx_bytes m) @
              '' passed='' @ word_string (passed m) @ '' dropped='' @ word_string (dropped m) @
              '' non_ip='' @ word_string (non_ip m) @ '' map_full='' @ word_string (map_full m) @
              '' parse_err='' @ word_string (parse_err m) @ [NL] @
              ''rx_pps='' @ fmt0 (rx_pps c) @ '' rx_bps='' @ fmt0 (rx_bps c) @
              '' state='' @ state_name (state c) @ '' prefixes='' @ int_string (drop_count (tab c)) @ [NL]), c, w))"

text \<open>
  The loop of \<open>ctl_drops\<close> over the drop list; \<open>acc\<close> is what \<open>reply\<close> holds, and \<open>used\<close> counts what
  \<open>snprintf\<close> would have written. The list has at most \<open>drop_used\<close> records.
\<close>

definition drop_line :: "int \<Rightarrow> vg_drop_rec \<Rightarrow> string" where
  "drop_line now r =
     vg_cidr_to_str (cidr r) 80 @ '' reason='' @ word_string (reason r) @
     '' age='' @ int_string (now - inserted r) @ [NL]"

fun drops_loop :: "'w kern \<Rightarrow> nat \<Rightarrow> drop_tab \<Rightarrow> lnode \<Rightarrow> nat \<Rightarrow> string \<Rightarrow> 'w \<Rightarrow> string \<times> 'w" where
  "drops_loop K 0 t l used acc w = (acc, w)"
| "drops_loop K (Suc fuel) t l used acc w =
     (if \<not> (l \<noteq> All \<and> used + 80 < REPLY_SIZE) then (acc, w)
      else case vg_list_entry l of
             None \<Rightarrow> (acc, w)
           | Some r \<Rightarrow>
               (let (now, w) = k_time K w;
                    line = drop_line now (drop_pool t r)
                in drops_loop K fuel t (next (links t) l) (used + length line)
                     (take used acc @ snprintf (REPLY_SIZE - used) line) w))"

definition ctl_drops :: "'w kern \<Rightarrow> 'w handler" where
  "ctl_drops K c args w =
     (if drop_count (tab c) = 0 then (snprintf REPLY_SIZE (''(none)'' @ [NL]), c, w)
      else
        (let (reply, w) = drops_loop K (Suc (unat (drop_used (tab c)))) (tab c) (next (links (tab c)) All) 0 [] w
         in (reply, c, w)))"

subsection \<open>Commands that change the controller\<close>

definition ctl_arm :: "'w kern \<Rightarrow> 'w handler" where
  "ctl_arm K c args w =
     (let (x, c, w) = vg_ctrl_arm K c w
      in (snprintf REPLY_SIZE (if x < 0 then ''error: arm failed'' @ [NL] else ''ok'' @ [NL]), c, w))"

definition ctl_disarm :: "'w kern \<Rightarrow> 'w handler" where
  "ctl_disarm K c args w =
     (let (x, c, w) = vg_ctrl_disarm K c w
      in (snprintf REPLY_SIZE (if x < 0 then ''error: disarm failed'' @ [NL] else ''ok'' @ [NL]), c, w))"

fun ttl_loop :: "u32 \<Rightarrow> string \<Rightarrow> u32 option" where
  "ttl_loop v [] = Some v"
| "ttl_loop v (ch # s) =
     (if \<not> is_digit ch \<or> v > VG_MAX_DROP_TTL then None
      else ttl_loop (v * 10 + of_nat (digit_val ch)) s)"

definition parse_ttl :: "string \<Rightarrow> u32 option" where
  "parse_ttl s =
     (if take 4 s \<noteq> ''ttl='' then None
      else case ttl_loop 0 (drop 4 s) of
             None \<Rightarrow> None
           | Some v \<Rightarrow> if v < 1 \<or> v > VG_MAX_DROP_TTL then None else Some v)"

definition ctl_drop :: "'w kern \<Rightarrow> 'w handler" where
  "ctl_drop K c args w =
     (let (hd, sp) = split_at CHR '' '' args; len = length hd
      in case vg_parse_cidr_len args len of
           None \<Rightarrow> (snprintf REPLY_SIZE (''error: bad cidr'' @ [NL]), c, w)
         | Some p \<Rightarrow>
             (case (case sp of None \<Rightarrow> Some 0 | Some opts \<Rightarrow> parse_ttl opts) of
                None \<Rightarrow> (snprintf REPLY_SIZE (''error: bad ttl'' @ [NL]), c, w)
              | Some ttl \<Rightarrow>
                  (let (x, c, w) = (if ttl \<noteq> 0 then vg_ctrl_drop_ttl K c p ttl w
                                    else vg_ctrl_drop K c p VG_REASON_MANUAL w)
                   in (snprintf REPLY_SIZE (if x < 0 then ''error: refused or map update failed'' @ [NL]
                                            else ''ok'' @ [NL]), c, w))))"

definition ctl_undrop :: "'w kern \<Rightarrow> 'w handler" where
  "ctl_undrop K c args w =
     (case vg_parse_cidr args of
        None \<Rightarrow> (snprintf REPLY_SIZE (''error: bad cidr'' @ [NL]), c, w)
      | Some p \<Rightarrow>
          (let (x, c, w) = vg_ctrl_undrop K c p w
           in (snprintf REPLY_SIZE (if x < 0 then ''error: map update failed'' @ [NL] else ''ok'' @ [NL]), c, w)))"

text \<open>
  \<open>vg_ctrl_reload\<close> keeps the settings that cannot change while the daemon runs. \<open>kept_config\<close> is the
  part between loading and reading the interface's addresses.
\<close>

definition kept_config :: "vg_ctrl \<Rightarrow> vg_config \<Rightarrow> vg_config" where
  "kept_config c n =
     (let old = cfg c;
          n = n\<lparr>interface := snprintf VG_MAX_IFACE (snprintf VG_MAX_IFACE (interface old)),
                xdp_mode := snprintf 16 (snprintf 16 (xdp_mode old)),
                log_file := snprintf VG_CFG_PATH_MAX (snprintf VG_CFG_PATH_MAX (log_file old)),
                pid_file := snprintf VG_CFG_PATH_MAX (snprintf VG_CFG_PATH_MAX (pid_file old)),
                ctl_socket_group := snprintf 64 (snprintf 64 (ctl_socket_group old)),
                remote_map_size := remote_map_size old,
                drop_map_size := drop_map_size old\<rparr>
      in if iface_override c \<noteq> [] then n\<lparr>interface := snprintf VG_MAX_IFACE (iface_override c)\<rparr> else n)"

definition vg_ctrl_reload :: "'w kern \<Rightarrow> 'w host \<Rightarrow> vg_ctrl \<Rightarrow> 'w \<Rightarrow> int \<times> vg_ctrl \<times> 'w" where
  "vg_ctrl_reload K H c w =
     (if cfg_path c = [] then (- 1, c, w)
      else
        (let (contents, w) = h_config H (cfg_path c) w in
         case vg_config_load contents of
           None \<Rightarrow> (- 1, c, w)
         | Some n \<Rightarrow>
             (let n = kept_config c n;
                  (ifs, w) = (if auto_local n then h_ifaddrs H w else (None, w))
              in case vg_config_auto_local ifs n of
                   None \<Rightarrow> (- 1, c, w)
                 | Some n \<Rightarrow>
                     (let c = c\<lparr>cfg := n\<rparr>;
                          (_, c, w) = vg_ctrl_prune_protected K c w;
                          (e, w) = vg_cfg_commit K (if state c = VG_ACTIVE then 1 else 0) (cfg c) w
                      in if e \<noteq> None then (- 1, c, w)
                         else
                           (let w = vg_populate_allow K (cfg c) w;
                                w = vg_populate_local K (cfg c) w
                            in (0, c, w))))))"

definition ctl_reload :: "'w kern \<Rightarrow> 'w host \<Rightarrow> 'w handler" where
  "ctl_reload K H c args w =
     (let (x, c, w) = vg_ctrl_reload K H c w
      in (snprintf REPLY_SIZE (if x < 0 then ''error: reload failed'' @ [NL] else ''ok'' @ [NL]), c, w))"

subsection \<open>Requests and replies\<close>

definition vg_ctl_commands :: "'w kern \<Rightarrow> 'w host \<Rightarrow> (real \<Rightarrow> string) \<Rightarrow> (string \<times> bool \<times> 'w handler) list" where
  "vg_ctl_commands K H fmt0 =
     [(''status'', False, ctl_status fmt0),
      (''stats'', False, ctl_stats K fmt0),
      (''drops'', False, ctl_drops K),
      (''arm'', False, ctl_arm K),
      (''disarm'', False, ctl_disarm K),
      (''drop '', True, ctl_drop K),
      (''undrop '', True, ctl_undrop K),
      (''reload'', False, ctl_reload K H)]"

text \<open>A command with a prefix flag takes the rest of the line, the others are the whole line.\<close>

definition command_matches :: "string \<Rightarrow> string \<times> bool \<times> 'w handler \<Rightarrow> bool" where
  "command_matches req cmd =
     (case cmd of (name, prefix, h) \<Rightarrow> if prefix then take (length name) req = name else req = name)"

definition run_request :: "'w kern \<Rightarrow> 'w host \<Rightarrow> (real \<Rightarrow> string) \<Rightarrow> string \<Rightarrow> vg_ctrl \<Rightarrow> 'w \<Rightarrow> string \<times> vg_ctrl \<times> 'w" where
  "run_request K H fmt0 req c w =
     (case find (command_matches req) (vg_ctl_commands K H fmt0) of
        None \<Rightarrow> (snprintf REPLY_SIZE (''error: unknown command'' @ [NL]), c, w)
      | Some (name, prefix, h) \<Rightarrow> h c (if prefix then drop (length name) req else []) w)"

datatype request = Closed | Rejected string | Line string

fun read_request :: "(errno + string) list \<Rightarrow> string \<Rightarrow> request option" where
  "read_request [] req = None"
| "read_request (Inl e # rs) req = (if e = EINTR then read_request rs req else Some Closed)"
| "read_request (Inr d # rs) req =
     (let d = take (REQ_SIZE - 1 - length req) d in
      if d = [] then (if req = [] then Some Closed else Some (Line req))
      else
        (let (line, nl) = split_at NL d in
         if NUL \<in> set line then Some (Rejected (''error: bad command'' @ [NL]))
         else
           (let req = req @ line in
            if nl \<noteq> None then Some (Line req)
            else if length req = REQ_SIZE - 1 then Some (Rejected (''error: command too long'' @ [NL]))
            else read_request rs req)))"

fun send_loop :: "(errno + int) list \<Rightarrow> string \<Rightarrow> nat \<Rightarrow> nat" where
  "send_loop rs reply used =
     (if \<not> used < length reply then used
      else case rs of
             [] \<Rightarrow> used
           | Inl e # rs \<Rightarrow> if e = EINTR then send_loop rs reply used else used
           | Inr n # rs \<Rightarrow> if n \<le> 0 then used else send_loop rs reply (used + nat n))"

declare send_loop.simps [simp del]

text \<open>The handler gives what was sent, or \<open>None\<close> while it waits for the request.\<close>

definition vg_ctl_server_handle ::
  "'w kern \<Rightarrow> 'w host \<Rightarrow> (real \<Rightarrow> string) \<Rightarrow> (errno + string) list \<Rightarrow> (errno + int) list \<Rightarrow> vg_ctrl \<Rightarrow> 'w \<Rightarrow>
   (string \<times> vg_ctrl \<times> 'w) option" where
  "vg_ctl_server_handle K H fmt0 reads sends c w =
     (case read_request reads [] of
        None \<Rightarrow> None
      | Some Closed \<Rightarrow> Some ([], c, w)
      | Some (Rejected reply) \<Rightarrow> Some (take (send_loop sends reply 0) reply, c, w)
      | Some (Line req) \<Rightarrow>
          (let (reply, c, w) = run_request K H fmt0 req c w
           in Some (take (send_loop sends reply 0) reply, c, w)))"

subsection \<open>The listening socket\<close>

text \<open>
  The results of the system calls are arguments; \<open>fds\<close> are the descriptors the process has open, and
  the socket file is its mode and group, or \<open>None\<close> when there is none. Failures of \<open>chmod\<close> and
  \<open>chown\<close> are not fatal; 432 is mode 0660.
\<close>

record sock_file =
  sf_mode :: nat
  sf_group :: nat

record listen_sys =
  l_unlink :: int
  l_socket :: int
  l_bind :: int
  l_mode :: nat
  l_chmod :: int
  l_getgrnam :: "string \<Rightarrow> nat option"
  l_chown :: int
  l_listen :: int

definition vg_ctl_server_alive :: "int \<Rightarrow> int \<Rightarrow> int list \<Rightarrow> bool \<times> int list" where
  "vg_ctl_server_alive sock conn fds =
     (let fd = sock in
      if fd < 0 then (False, fds)
      else
        (let fds = fd # fds; alive = (conn = 0)
         in (alive, remove1 fd fds)))"

definition vg_ctl_server_listen ::
  "listen_sys \<Rightarrow> string \<Rightarrow> sock_file option \<times> int list \<Rightarrow> int \<times> sock_file option \<times> int list" where
  "vg_ctl_server_listen S grp st =
     (let (f, fds) = st; f = (if l_unlink S < 0 then f else None); fd = l_socket S in
      if fd < 0 then (- 1, f, fds)
      else
        (let fds = fd # fds in
         if l_bind S < 0 then (- 1, f, remove1 fd fds)
         else
           (let f = \<lparr>sf_mode = l_mode S, sf_group = 0\<rparr>;
                f = (if l_chmod S < 0 then f else f\<lparr>sf_mode := 432\<rparr>);
                f = (if grp \<noteq> [] then
                       (case l_getgrnam S grp of
                          None \<Rightarrow> f
                        | Some gid \<Rightarrow> if l_chown S < 0 then f else f\<lparr>sf_group := gid\<rparr>)
                     else f)
            in if l_listen S < 0 then (- 1, Some f, remove1 fd fds)
               else (fd, Some f, fds))))"

end
