(* ===== verification/PolicyInit.thy ===== *)
theory PolicyInit
  imports PolicyRun ConfigFile
begin

section \<open>Setting up the controller\<close>

text \<open>
  When \<open>vg_ctrl_init\<close> ends and what it leaves. The doubling loop ends, with a power of two that is
  at least the pool size, when the pool size is at most \<open>2 ^ 31\<close>; above that the 32-bit bucket count
  goes through \<open>2 ^ 31\<close> to 0 and stays below the pool size for ever.
\<close>

lemma push_bit_one_exp: "push_bit 1 (2 ^ k :: u32) = 2 ^ Suc k"
  by (simp add: push_bit_eq_mult)

lemma exp32_0: "32 \<le> k \<Longrightarrow> (2 ^ k :: u32) = 0"
  using exp_eq_0_imp_not_bit [where ?'a = "32 word", of k] by (simp add: exp_eq_zero_iff)

lemma nbuckets_ends:
  assumes "cap \<le> 2 ^ 31" "k < 32"
  shows "\<exists>j < 32. nbuckets_loop cap (2 ^ k) = Some (2 ^ j) \<and> cap \<le> 2 ^ j \<and> k \<le> j"
  using assms(2)
proof (induction "31 - k" arbitrary: k)
  case 0
  then have "k = 31" by simp
  then show ?case using assms(1) by (subst nbuckets_loop.simps) (auto intro!: exI [of _ 31])
next
  case (Suc d)
  show ?case
  proof (cases "(2 ^ k :: u32) < cap")
    case True
    have "\<exists>j < 32. nbuckets_loop cap (2 ^ Suc k) = Some (2 ^ j) \<and> cap \<le> 2 ^ j \<and> Suc k \<le> j"
      using Suc by (intro Suc.hyps(1)) auto
    moreover have "nbuckets_loop cap (2 ^ k) = nbuckets_loop cap (2 ^ Suc k)"
      by (subst nbuckets_loop.simps) (simp only: True if_True push_bit_one_exp)
    ultimately show ?thesis using Suc_leD by (auto simp del: power_Suc)
  next
    case False
    then show ?thesis using Suc.prems by (subst nbuckets_loop.simps) (auto simp: not_less)
  qed
qed

lemma exp32_le: "(2 ^ k :: u32) \<le> 2 ^ 31"
proof (cases "k < 32")
  case True
  have "(2::nat) ^ k \<le> 2 ^ 31" using True by (intro power_increasing) simp_all
  then show ?thesis using unat_exp32 [OF True] unat_exp32 [of 31] by (simp add: word_le_nat_alt)
next
  case False
  then have "(2 ^ k :: u32) = 0" by (intro exp32_0) simp
  then show ?thesis by (simp only: word_zero_le)
qed

lemma nbuckets_diverges:
  assumes "2 ^ 31 < cap"
  shows "nbuckets_loop cap (2 ^ k) = None"
proof -
  have "False" if "nbuckets_loop cap nb = Some y" "nb \<in> range (\<lambda>k. 2 ^ k)" for nb y
  proof -
    have "2 ^ 31 < cap \<longrightarrow> nb \<in> range (\<lambda>k. 2 ^ k) \<longrightarrow> False"
    proof (rule nbuckets_loop.raw_induct [OF _ that(1)])
      fix f :: "u32 \<Rightarrow> u32 \<Rightarrow> u32 option" and cap nb y
      assume IH: "\<And>cap nb y. f cap nb = Some y \<Longrightarrow> 2 ^ 31 < cap \<longrightarrow> nb \<in> range (\<lambda>k. 2 ^ k) \<longrightarrow> False"
        and st: "(if nb < cap then f cap (push_bit 1 nb) else Some nb) = Some y"
      show "2 ^ 31 < cap \<longrightarrow> nb \<in> range (\<lambda>k. 2 ^ k) \<longrightarrow> False"
      proof (intro impI)
        assume cap: "2 ^ 31 < cap" and "nb \<in> range (\<lambda>k. 2 ^ k)"
        then obtain k where k: "nb = 2 ^ k" by blast
        then have "nb < cap" using exp32_le [of k] cap by simp
        then have "f cap (2 ^ Suc k) = Some y" using st unfolding k push_bit_one_exp by (simp only: if_True)
        from IH [OF this] cap show False by blast
      qed
    qed
    then show ?thesis using assms that(2) by blast
  qed
  then show ?thesis by (metis not_None_eq rangeI)
qed

lemma unat_double:
  assumes "n \<le> 2 ^ 30"
  shows "unat (2 * n :: u32) = 2 * unat n" "2 * n \<le> (2 ^ 31 :: u32)"
proof -
  have n: "unat n \<le> 2 ^ 30" using assms by (simp add: word_le_nat_alt)
  then have "2 * unat n < 2 ^ LENGTH(32)" by simp
  then show u: "unat (2 * n :: u32) = 2 * unat n" by (simp add: unat_word_ariths)
  show "2 * n \<le> (2 ^ 31 :: u32)" using u n by (simp add: word_le_nat_alt)
qed

lemma drop_cap_bound:
  assumes "drop_map_size cf \<le> 2 ^ 30"
  shows "drop_cap cf \<le> 2 ^ 31"
  using unat_double(2) [OF assms] by (simp add: drop_cap_def)

lemma config_ctrl_ok:
  assumes init: "vg_ctrl_init mem cf m path ifc = Some (Some c)" and "config_ok cf"
  shows "ctrl_ok pr c" "state c = VG_IDLE" "cfg c = cf" "drops (tab c) = []"
    "drop_pool_cap (tab c) = drop_cap cf" "listed c = {}"
proof -
  have "nbuckets_loop (drop_cap cf) (2 ^ 10) \<noteq> None" using init by (cases "nbuckets_loop (drop_cap cf) 1024") (simp_all add: vg_ctrl_init_def)
  then have "\<not> 2 ^ 31 < drop_cap cf" using nbuckets_diverges [of "drop_cap cf" 10] by (intro notI) simp
  then have "drop_cap cf \<le> 2 ^ 31" by (simp only: not_less)
  then obtain j where j: "j < 32" "nbuckets_loop (drop_cap cf) (2 ^ 10) = Some (2 ^ j)"
    using nbuckets_ends [of "drop_cap cf" 10] by auto
  have t: "tab_ok (drop_tab_init (drop_cap cf) (2 ^ j)) \<and> drops (drop_tab_init (drop_cap cf) (2 ^ j)) = []"
    using tab_init j(1) by blast
  show f: "state c = VG_IDLE" "cfg c = cf" "drops (tab c) = []" "drop_pool_cap (tab c) = drop_cap cf"
    using init j t by (auto simp: vg_ctrl_init_def Let_def drop_tab_init_def split: prod.splits if_splits)
  then show "listed c = {}" by (simp add: listed_def)
  show "ctrl_ok pr c"
    using init j t assms(2) snap_ok_reset(1)
    by (auto simp: vg_ctrl_init_def Let_def ctrl_ok_def listed_def split: prod.splits if_splits)
qed

text \<open>
  C38: \<open>vg_ctrl_init\<close> ends for every drop map size up to \<open>2 ^ 30\<close>; when its allocations succeed the
  controller is idle with an empty drop table of capacity twice the map size, and the table passes
  the consistency check.
\<close>

theorem ctrl_init_ends:
  assumes "config_ok cf" and "drop_map_size cf \<le> 2 ^ 30"
  shows "\<exists>c. vg_ctrl_init (True, True, True) cf m path ifc = Some (Some c) \<and> ctrl_ok True c \<and>
    state c = VG_IDLE \<and> drops (tab c) = [] \<and> vg_ctrl_drops_check (tab c) = 0 \<and>
    unat (drop_pool_cap (tab c)) =
      2 * unat (if drop_map_size cf \<noteq> 0 then drop_map_size cf else VG_DROP_MAP_MAX)"
proof -
  obtain j where j: "j < 32" "nbuckets_loop (drop_cap cf) (2 ^ 10) = Some (2 ^ j)"
    using nbuckets_ends [OF drop_cap_bound [OF assms(2)], of 10] by auto
  then obtain c where c: "vg_ctrl_init (True, True, True) cf m path ifc = Some (Some c)"
    by (auto simp: vg_ctrl_init_def)
  note k = config_ctrl_ok [OF c assms(1)]
  have t: "tab_ok (tab c)" using k(1) by (simp add: ctrl_ok_def)
  then have "vg_ctrl_drops_check (tab c) = 0" using drops_check_rep by (auto simp: tab_ok_def)
  moreover have "unat (drop_cap cf) =
      2 * unat (if drop_map_size cf \<noteq> 0 then drop_map_size cf else VG_DROP_MAP_MAX)"
    unfolding drop_cap_def using assms(2) by (intro unat_double) simp
  ultimately show ?thesis using c k by auto
qed

definition ex_maps :: vg_maps where
  "ex_maps = \<lparr>skel = True, ncpus = 4, ifindex = 2, attach_flags = 4, attached = True, sum_scratch_size = Some 224\<rparr>"

theorem ctrl_init_ends_witness:
  "\<exists>c. vg_ctrl_init (True, True, True) vg_config_defaults ex_maps
      ''/etc/voidgate.conf'' ''''  = Some (Some c) \<and>
    state c = VG_IDLE \<and> vg_ctrl_drops_check (tab c) = 0 \<and> unat (drop_pool_cap (tab c)) = 131072"
proof -
  have "config_ok vg_config_defaults" using defaults_fit by (simp add: config_fits_def)
  moreover have d: "drop_map_size vg_config_defaults = 65536" by (simp add: vg_config_defaults_def)
  ultimately show ?thesis using ctrl_init_ends [of vg_config_defaults] by fastforce
qed

text \<open>
  C39: For a drop map size between \<open>2 ^ 30\<close> and \<open>2 ^ 31\<close>, which the configuration accepts, the bucket
  loop of \<open>vg_ctrl_init\<close> never ends.
\<close>

theorem ctrl_init_diverges:
  assumes "2 ^ 30 < drop_map_size cf" and "drop_map_size cf < 2 ^ 31"
  shows "vg_ctrl_init mem cf m path ifc = None"
proof -
  let ?n = "unat (drop_map_size cf)"
  have n: "2 ^ 30 < ?n" "?n < 2 ^ 31" using assms by (simp_all add: word_less_nat_alt)
  then have "unat (2 * drop_map_size cf) = 2 * ?n" by (simp add: unat_word_ariths)
  moreover have "drop_map_size cf \<noteq> 0" using assms(1) by auto
  ultimately have "2 ^ 31 < drop_cap cf" using n by (simp add: drop_cap_def word_less_nat_alt)
  from nbuckets_diverges [OF this, of 10] show ?thesis by (simp add: vg_ctrl_init_def)
qed

theorem ctrl_init_diverges_witness:
  "vg_ctrl_init (True, True, True) (vg_config_defaults\<lparr>drop_map_size := 2 ^ 30 + 1\<rparr>)
    ex_maps ''/etc/voidgate.conf'' '''' = None"
  using ctrl_init_diverges [of "vg_config_defaults\<lparr>drop_map_size := 2 ^ 30 + 1\<rparr>"] by simp


subsection \<open>An initial controller\<close>

text \<open>The controller of the default configuration, on a kernel with empty maps.\<close>

definition ex_ctrl :: vg_ctrl where
  "ex_ctrl = the (the (vg_ctrl_init (True, True, True) vg_config_defaults ex_maps ''/etc/voidgate.conf'' ''''))"

definition ex_world :: rkernel where
  "ex_world = \<lparr>r_lpm = (\<lambda>_. []), r_cap = (\<lambda>_. 16),
     r_cfg = \<lparr>armed = 0, bc_allow_ports = replicate 8 0, bc_allow_port_count = 0\<rparr>,
     r_percpu = (\<lambda>pm. case pm of Metrics \<Rightarrow> [([0, 0, 0, 0], [[1, 60, 1, 0, 0, 0, 0], [2, 90, 2, 0, 0, 0, 0]])] | _ \<Rightarrow> []),
     r_now = 1000, r_mono = \<lparr>tv_sec = 50, tv_nsec = 0\<rparr>\<rparr>"

lemma defaults_ok: "config_ok vg_config_defaults" "drop_map_size vg_config_defaults \<le> 2 ^ 30"
proof -
  show "config_ok vg_config_defaults" using defaults_fit by (simp add: config_fits_def)
  have "drop_map_size vg_config_defaults = 65536" by (simp add: vg_config_defaults_def)
  then show "drop_map_size vg_config_defaults \<le> 2 ^ 30" by simp
qed

lemma init_defaults:
  "\<exists>c. vg_ctrl_init (True, True, True) vg_config_defaults m path ifc = Some (Some c)"
proof -
  obtain j where "nbuckets_loop (drop_cap vg_config_defaults) (2 ^ 10) = Some (2 ^ j)"
    using nbuckets_ends [OF drop_cap_bound [OF defaults_ok(2)], of 10] by auto
  then show ?thesis by (auto simp: vg_ctrl_init_def)
qed

lemma ex_ctrl_init:
  "vg_ctrl_init (True, True, True) vg_config_defaults ex_maps ''/etc/voidgate.conf'' '''' = Some (Some ex_ctrl)"
  using init_defaults [of ex_maps "''/etc/voidgate.conf''" "''''"] by (auto simp: ex_ctrl_def)

lemmas ex_ctrl_facts = config_ctrl_ok [OF ex_ctrl_init defaults_ok(1)]

lemma ex_inv: "ctrl_inv rel pr ex_ctrl (r_view ex_world)"
  using ex_ctrl_facts
  by (auto simp: ctrl_inv_def synced_def keys_ok_def r_view_def ex_world_def)

end
