(* ===== verification/Attach.thy ===== *)
theory Attach
  imports PolicyInit
begin

section \<open>Loading and attaching: the start-up half of maps.c\<close>

text \<open>
  \<open>vg_maps_open\<close>, \<open>vg_xdp_attach\<close>, \<open>vg_xdp_detach\<close> and \<open>vg_maps_close\<close>. What libbpf and the system
  answer is a record \<open>bpf_sys\<close> of results; \<open>nic\<close> is the mode in which a program is attached to the
  interface, if one is. \<open>None\<close> as a result is \<open>vg_die\<close>: the process exits. \<open>vg_xdp_detach\<close> does not look
  at what \<open>bpf_xdp_detach\<close> answers: when that call fails the program stays.
\<close>

record bpf_sys =
  b_ifindex :: "string \<Rightarrow> int"
  b_possible_cpus :: int
  b_calloc :: bool
  b_open :: bool
  b_load :: int
  b_prog_fd :: int
  b_attach :: "u32 \<Rightarrow> int"
  b_detach :: int

definition XDP_FLAGS_SKB_MODE :: u32 where [simp]: "XDP_FLAGS_SKB_MODE = 2"
definition XDP_FLAGS_DRV_MODE :: u32 where [simp]: "XDP_FLAGS_DRV_MODE = 4"

text \<open>\<open>sizeof(struct host_counters)\<close> is 16 and \<open>sizeof(struct vg_metrics)\<close> 56.\<close>

definition sum_scratch_need :: "int \<Rightarrow> nat" where
  "sum_scratch_need n = (let a = 16; b = 56 in nat n * (if a > b then a else b))"

text \<open>The sizes with which the maps are created: those of the object unless the configuration sets them.\<close>

record map_sizes =
  remote_entries :: u32
  drop_entries :: u32

definition vg_maps_open :: "bpf_sys \<Rightarrow> vg_config \<Rightarrow> (vg_maps \<times> map_sizes) option" where
  "vg_maps_open S cf =
     (let m = \<lparr>skel = False, ncpus = 0, ifindex = 0, attach_flags = 0, attached = False, sum_scratch_size = None\<rparr>;
          m = m\<lparr>ifindex := b_ifindex S (interface cf)\<rparr>;
          m = m\<lparr>ncpus := b_possible_cpus S\<rparr>;
          m = (if ncpus m \<le> 0 then m\<lparr>ncpus := 1\<rparr> else m)
      in if \<not> b_calloc S then None
         else
           (let m = m\<lparr>sum_scratch_size := Some (sum_scratch_need (ncpus m))\<rparr> in
            if \<not> b_open S then None
            else
              (let sz = \<lparr>remote_entries = (if remote_map_size cf \<noteq> 0 then remote_map_size cf else VG_REMOTE_MAP_MAX),
                         drop_entries = (if drop_map_size cf \<noteq> 0 then drop_map_size cf else VG_DROP_MAP_MAX)\<rparr>
               in if b_load S \<noteq> 0 then None else Some (m\<lparr>skel := True\<rparr>, sz))))"

definition vg_xdp_attach :: "bpf_sys \<Rightarrow> vg_config \<Rightarrow> vg_maps \<Rightarrow> u32 option \<Rightarrow> int \<times> vg_maps \<times> u32 option" where
  "vg_xdp_attach S cf m nic =
     (if \<not> skel m then (- 1, m, nic)
      else if b_prog_fd S < 0 then (- 1, m, nic)
      else
        (let (flags, err) =
           (if xdp_mode cf = ''skb'' then (XDP_FLAGS_SKB_MODE, b_attach S XDP_FLAGS_SKB_MODE)
            else if xdp_mode cf = ''native'' then (XDP_FLAGS_DRV_MODE, b_attach S XDP_FLAGS_DRV_MODE)
            else
              (let err = b_attach S XDP_FLAGS_DRV_MODE in
               if err \<noteq> 0 then (XDP_FLAGS_SKB_MODE, b_attach S XDP_FLAGS_SKB_MODE)
               else (XDP_FLAGS_DRV_MODE, err)))
         in if err \<noteq> 0 then (- 1, m, nic)
            else (0, m\<lparr>attach_flags := flags, attached := True\<rparr>, Some flags)))"

definition vg_xdp_detach :: "bpf_sys \<Rightarrow> vg_maps \<Rightarrow> u32 option \<Rightarrow> vg_maps \<times> u32 option" where
  "vg_xdp_detach S m nic =
     (if \<not> attached m then (m, nic)
      else (m\<lparr>attached := False\<rparr>, if b_detach S = 0 \<and> nic = Some (attach_flags m) then None else nic))"

definition vg_maps_close :: "bpf_sys \<Rightarrow> vg_maps \<Rightarrow> u32 option \<Rightarrow> vg_maps \<times> u32 option" where
  "vg_maps_close S m nic =
     (let (m, nic) = vg_xdp_detach S m nic;
          m = (if skel m then m\<lparr>skel := False\<rparr> else m)
      in (m\<lparr>sum_scratch_size := None\<rparr>, nic))"

text \<open>
  A handle that \<open>vg_maps_open\<close> returns has at least one CPU and a scratch buffer large enough for
  every per-CPU value that is summed, so reading the metrics fails only when the kernel's lookup
  fails.
\<close>

theorem open_scratch_enough:
  assumes "vg_maps_open S cf = Some (m, sz)"
  shows "0 < ncpus m \<and> (fst (vg_metrics_read K m w) \<noteq> None \<longleftrightarrow>
    (\<exists>rows. fst (k_percpu_lookup K Metrics [0, 0, 0, 0] w) = Inr rows))"
proof -
  have m: "0 < ncpus m" "sum_scratch_size m = Some (nat (ncpus m) * 56)"
    using assms by (auto simp: vg_maps_open_def sum_scratch_need_def Let_def split: if_splits)
  then show ?thesis
    by (auto simp: vg_metrics_read_def vg_sum_percpu_def split: prod.splits sum.splits)
qed

definition ex_sys :: bpf_sys where
  "ex_sys = \<lparr>b_ifindex = (\<lambda>_. 2), b_possible_cpus = 4, b_calloc = True, b_open = True, b_load = 0, b_prog_fd = 5,
     b_attach = (\<lambda>f. if f = XDP_FLAGS_DRV_MODE then - 95 else 0), b_detach = 0\<rparr>"

theorem open_scratch_enough_witness:
  "\<exists>m sz. vg_maps_open ex_sys vg_config_defaults = Some (m, sz) \<and> fst (vg_metrics_read ref_kernel m ex_world) \<noteq> None"
proof -
  obtain m sz where o: "vg_maps_open ex_sys vg_config_defaults = Some (m, sz)"
    by (auto simp: vg_maps_open_def ex_sys_def Let_def)
  have "fst (k_percpu_lookup ref_kernel Metrics [0, 0, 0, 0] ex_world) =
      Inr [[1, 60, 1, 0, 0, 0, 0], [2, 90, 2, 0, 0, 0, 0]]"
    by (simp add: ref_kernel_def r_percpu_lookup_def ex_world_def)
  then show ?thesis using o open_scratch_enough [OF o, of ref_kernel ex_world] by blast
qed

text \<open>
  The drop table has a record for every entry the two drop maps can hold: its capacity is twice
  the size with which each map is created, for sizes up to \<open>2 ^ 30\<close>.
\<close>

theorem pool_covers_maps:
  assumes "vg_maps_open S cf = Some (m, sz)" and "drop_map_size cf \<le> 2 ^ 30"
  shows "unat (drop_cap cf) = 2 * unat (drop_entries sz)"
proof -
  have "drop_entries sz = (if drop_map_size cf \<noteq> 0 then drop_map_size cf else VG_DROP_MAP_MAX)"
    using assms(1) by (auto simp: vg_maps_open_def Let_def split: if_splits)
  then show ?thesis unfolding drop_cap_def using assms(2) by (auto intro!: unat_double(1))
qed

theorem pool_covers_maps_witness:
  "\<exists>m sz. vg_maps_open ex_sys vg_config_defaults = Some (m, sz) \<and> drop_entries sz = 65536 \<and>
     unat (drop_cap vg_config_defaults) = 131072"
proof -
  have d: "drop_map_size vg_config_defaults = 65536" by (simp add: vg_config_defaults_def)
  obtain m sz where o: "vg_maps_open ex_sys vg_config_defaults = Some (m, sz)" "drop_entries sz = 65536"
    using d by (auto simp: vg_maps_open_def ex_sys_def Let_def)
  show ?thesis using o pool_covers_maps [OF o(1)] d by auto
qed

text \<open>
  A successful attach leaves the program on the interface in the mode the configuration asks
  for (\<open>native\<close> or \<open>skb\<close>, otherwise native with a fall-back to skb when native fails), and closing
  the maps removes it again, unless the detach fails; a failed attach leaves the interface as it was.
\<close>

theorem attach_detach:
  assumes "vg_xdp_attach S cf m nic = (x, m', nic')" and "\<not> attached m"
  shows "(x = 0 \<longrightarrow> attached m' \<and>
      nic' = Some (if xdp_mode cf = ''skb'' \<or> xdp_mode cf \<noteq> ''native'' \<and> b_attach S XDP_FLAGS_DRV_MODE \<noteq> 0
                   then XDP_FLAGS_SKB_MODE else XDP_FLAGS_DRV_MODE) \<and>
      snd (vg_maps_close S m' nic') = (if b_detach S = 0 then None else nic') \<and>
      \<not> attached (fst (vg_maps_close S m' nic'))) \<and>
    (x \<noteq> 0 \<longrightarrow> m' = m \<and> nic' = nic \<and> snd (vg_maps_close S m' nic') = nic)"
  using assms
  by (auto simp: vg_xdp_attach_def vg_maps_close_def vg_xdp_detach_def Let_def split: if_splits)

theorem attach_detach_witness:
  "\<exists>m' nic'. vg_xdp_attach ex_sys vg_config_defaults (ex_maps\<lparr>attached := False\<rparr>) None = (0, m', nic') \<and>
     nic' = Some XDP_FLAGS_SKB_MODE \<and> snd (vg_maps_close ex_sys m' nic') = None"
proof -
  obtain m' nic' where a: "vg_xdp_attach ex_sys vg_config_defaults (ex_maps\<lparr>attached := False\<rparr>) None = (0, m', nic')"
    by (auto simp: vg_xdp_attach_def ex_sys_def ex_maps_def vg_config_defaults_def)
  show ?thesis using a attach_detach [OF a] by (auto simp: ex_sys_def vg_config_defaults_def)
qed

end
