(* ===== verification/Http.thy ===== *)
theory Http
  imports CtlServer PolicyInit
begin

section \<open>The metrics endpoint: http.c\<close>

text \<open>
  \<open>vg_http_handle\<close> reads one request from a connection and answers it; the data that \<open>read\<close> gave is
  an argument (\<open>None\<close> for an error or the end of the stream). \<open>fds\<close> in \<open>vg_http_listen\<close> are the open
  file descriptors, and the results of the system calls are arguments.
\<close>

definition BODY_SIZE :: nat where [simp]: "BODY_SIZE = 4096"
definition RESP_SIZE :: nat where [simp]: "RESP_SIZE = 4608"

abbreviation CRLF :: string where "CRLF \<equiv> [CHR 0x0D, CHR 0x0A]"

fun strstr :: "string \<Rightarrow> string \<Rightarrow> bool" where
  "strstr n [] = (n = [])"
| "strstr n (x # xs) = (take (length n) (x # xs) = n \<or> strstr n xs)"

definition prometheus_text :: "(real \<Rightarrow> string) \<Rightarrow> vg_ctrl \<Rightarrow> vg_metrics \<Rightarrow> string" where
  "prometheus_text fmt0 c m =
     ''# TYPE voidgate_armed gauge'' @ [NL] @
     ''voidgate_armed '' @ (if state c = VG_ACTIVE then ''1'' else ''0'') @ [NL] @
     ''# TYPE voidgate_rx_packets_total counter'' @ [NL] @
     ''voidgate_rx_packets_total '' @ word_string (rx_pkts m) @ [NL] @
     ''# TYPE voidgate_rx_bytes_total counter'' @ [NL] @
     ''voidgate_rx_bytes_total '' @ word_string (rx_bytes m) @ [NL] @
     ''# TYPE voidgate_dropped_packets_total counter'' @ [NL] @
     ''voidgate_dropped_packets_total '' @ word_string (dropped m) @ [NL] @
     ''# TYPE voidgate_map_full_total counter'' @ [NL] @
     ''voidgate_map_full_total '' @ word_string (map_full m) @ [NL] @
     ''# TYPE voidgate_drop_prefixes gauge'' @ [NL] @
     ''voidgate_drop_prefixes '' @ int_string (drop_count (tab c)) @ [NL] @
     ''# TYPE voidgate_rx_pps gauge'' @ [NL] @
     ''voidgate_rx_pps '' @ fmt0 (rx_pps c) @ [NL]"

definition format_prometheus :: "(real \<Rightarrow> string) \<Rightarrow> vg_ctrl \<Rightarrow> vg_metrics \<Rightarrow> nat \<Rightarrow> string" where
  "format_prometheus fmt0 c m buflen = snprintf buflen (prometheus_text fmt0 c m)"

definition vg_http_listen :: "int \<Rightarrow> int \<Rightarrow> int \<Rightarrow> int \<Rightarrow> int list \<Rightarrow> int \<times> int list" where
  "vg_http_listen port sock bind_rc listen_rc fds =
     (if port \<le> 0 then (- 1, fds)
      else
        (let fd = sock in
         if fd < 0 then (- 1, fds)
         else
           (let fds = fd # fds in
            if bind_rc < 0 then (- 1, remove1 fd fds)
            else if listen_rc < 0 then (- 1, remove1 fd fds)
            else (fd, fds))))"

definition not_found :: string where
  "not_found = ''HTTP/1.1 404 Not Found'' @ CRLF @ ''Content-Length: 0'' @ CRLF @ ''Connection: close'' @ CRLF @ CRLF"

definition ok_header :: "nat \<Rightarrow> string" where
  "ok_header n = ''HTTP/1.1 200 OK'' @ CRLF @ ''Content-Type: text/plain; version=0.0.4'' @ CRLF @
     ''Content-Length: '' @ dec_string n @ CRLF @ ''Connection: close'' @ CRLF @ CRLF"

definition zero_metrics :: vg_metrics where
  "zero_metrics = \<lparr>rx_pkts = 0, rx_bytes = 0, passed = 0, dropped = 0, non_ip = 0, map_full = 0, parse_err = 0\<rparr>"

text \<open>The C string functions see the request up to its first NUL. The result is what is written.\<close>

definition vg_http_handle ::
  "'w kern \<Rightarrow> (real \<Rightarrow> string) \<Rightarrow> string option \<Rightarrow> vg_ctrl \<Rightarrow> 'w \<Rightarrow> string \<times> 'w" where
  "vg_http_handle K fmt0 data c w =
     (case data of
        None \<Rightarrow> ([], w)
      | Some d \<Rightarrow>
          if d = [] then ([], w)
          else
            (let req = takeWhile (\<lambda>ch. ch \<noteq> NUL) (take 511 d) in
             if take 4 req \<noteq> ''GET '' \<or> \<not> strstr ''/metrics'' req then (not_found, w)
             else
               (let (mo, w) = vg_metrics_read K (maps c) w;
                    m = (case mo of None \<Rightarrow> zero_metrics | Some m \<Rightarrow> m);
                    body = format_prometheus fmt0 c m BODY_SIZE
                in (snprintf RESP_SIZE (ok_header (length body) @ body), w))))"

subsection \<open>Lengths\<close>

lemma dec_string_length: "n < 10 ^ Suc k \<Longrightarrow> length (dec_string n) \<le> Suc k"
proof (induction k arbitrary: n)
  case 0
  then show ?case by (simp add: dec_string.simps)
next
  case (Suc k)
  show ?case
  proof (cases "n < 10")
    case True
    then show ?thesis by (simp add: dec_string.simps)
  next
    case False
    have "n div 10 < 10 ^ Suc k" using Suc.prems by (simp add: less_mult_imp_div_less)
    then show ?thesis using Suc.IH [of "n div 10"] False by (simp add: dec_string.simps [of n])
  qed
qed

lemma u64_string_length: "length (word_string (x :: u64)) \<le> 20"
proof -
  have "unat x < 2 ^ 64" using unsigned_less [of x, where ?'a = nat] by simp
  then have "unat x < 10 ^ Suc 19" by simp
  then show ?thesis using dec_string_length [of "unat x" 19] by (simp add: word_string_def)
qed

lemma int_string_length:
  assumes "- (2 ^ 31) \<le> i" "i < (2 ^ 31 :: int)"
  shows "length (int_string i) \<le> 11"
proof -
  have "nat (- i) < 10 ^ Suc 9" "nat i < 10 ^ Suc 9" using assms by simp_all
  then show ?thesis using dec_string_length [of "nat (- i)" 9] dec_string_length [of "nat i" 9]
    by (simp add: int_string_def)
qed

lemma c_string: "NUL \<notin> set d \<Longrightarrow> takeWhile (\<lambda>ch. ch \<noteq> NUL) d = d"
  by (simp add: takeWhile_eq_all_conv) metis

text \<open>
  C40: The answer to a metrics request is complete: nothing is cut off by the fixed buffers, and
  \<open>Content-Length\<close> is the length of the body, as long as \<open>%.0f\<close> prints a rate in at most 310
  characters (a finite double has at most 309 digits) and the number of drops is an \<open>int\<close>.
\<close>

theorem metrics_complete:
  assumes "\<forall>x. length (fmt0 x) \<le> 310" and "- (2 ^ 31) \<le> drop_count (tab c)" and "drop_count (tab c) < 2 ^ 31"
    and "take 4 d = ''GET ''" and "strstr ''/metrics'' d" and "NUL \<notin> set d" and "length d \<le> 511"
  shows "\<exists>m body. fst (vg_http_handle K fmt0 (Some d) c w) = ok_header (length body) @ body \<and>
    body = prometheus_text fmt0 c m"
proof -
  obtain mo w1 where r: "vg_metrics_read K (maps c) w = (mo, w1)" by fastforce
  define m where "m = (case mo of None \<Rightarrow> zero_metrics | Some m \<Rightarrow> m)"
  define body where "body = prometheus_text fmt0 c m"
  have w: "length (word_string (x :: u64)) \<le> 20" for x by (rule u64_string_length)
  have "length (fmt0 (rx_pps c)) \<le> 310" using assms(1) by simp
  then have len: "length body \<le> 910"
    using w [of "rx_pkts m"] w [of "rx_bytes m"] w [of "dropped m"] w [of "map_full m"]
      int_string_length [OF assms(2,3)]
    by (simp add: body_def prometheus_text_def)
  then have "length (dec_string (length body)) \<le> 3" using dec_string_length [of "length body" 2] by simp
  then have hd: "length (ok_header (length body)) \<le> 120" by (simp add: ok_header_def)
  have "d \<noteq> []" using assms(4) by auto
  then have "fst (vg_http_handle K fmt0 (Some d) c w) = ok_header (length body) @ body"
    using assms(4,5,7) len hd r
    by (simp add: c_string [OF assms(6)] vg_http_handle_def format_prometheus_def snprintf_def m_def [symmetric] body_def [symmetric])
  then show ?thesis using body_def by blast
qed

theorem metrics_complete_witness:
  "\<exists>m body. fst (vg_http_handle ref_kernel (\<lambda>_. ''0'') (Some ''GET /metrics HTTP/1.1'') ex_ctrl ex_world) =
     ok_header (length body) @ body \<and> body = prometheus_text (\<lambda>_. ''0'') ex_ctrl m"
proof -
  have "drop_count (tab ex_ctrl) = 0"
    using ex_ctrl_facts(1) [of True] ex_ctrl_facts(4) tab_facts(3) by (simp add: ctrl_ok_def)
  then show ?thesis using metrics_complete [of "\<lambda>_. ''0''" ex_ctrl "''GET /metrics HTTP/1.1''" ref_kernel ex_world] by simp
qed

text \<open>A request that is not a GET for the metrics is answered 404, and the world stays as it is.\<close>

theorem not_found_otherwise:
  assumes "d \<noteq> []" and "NUL \<notin> set d" and "length d \<le> 511" and "take 4 d \<noteq> ''GET '' \<or> \<not> strstr ''/metrics'' d"
  shows "vg_http_handle K fmt0 (Some d) c w = (not_found, w)"
  using assms by (auto simp: vg_http_handle_def c_string [OF assms(2)])

text \<open>\<open>vg_http_listen\<close> leaks no descriptor: it returns -1 and leaves the open descriptors as they were,
  or returns the one descriptor it opened.\<close>

theorem http_listen_no_leak:
  "vg_http_listen port sock b l fds = (r, fds') \<Longrightarrow> r = - 1 \<and> fds' = fds \<or> 0 \<le> r \<and> fds' = r # fds"
  by (auto simp: vg_http_listen_def Let_def split: if_splits)


theorem http_listen_no_leak_witness:
  "vg_http_listen 9105 7 0 (- 1) [0, 1, 2] = (- 1, [0, 1, 2])"
  using http_listen_no_leak [of 9105 7 0 "- 1" "[0, 1, 2]"] by (simp add: vg_http_listen_def)

theorem not_found_otherwise_witness:
  "fst (vg_http_handle ref_kernel (\<lambda>_. ''0'') (Some ''POST /metrics'') ex_ctrl ex_world) = not_found"
  using not_found_otherwise [of "''POST /metrics''" ref_kernel] by simp

end
