(* ===== verification/Daemon.thy ===== *)
theory Daemon
  imports CtlServer Attach Http "HOL-Library.Signed_Division"
begin

section \<open>The daemon: voidgate.c\<close>

text \<open>
  The process around the control plane: options, the pid file and its lock, going to the
  background, start-up, the event loop and shutdown. What the system calls answer is in records and
  arguments. \<open>Inl n\<close> is a process that ends with status \<open>n\<close> (\<open>vg_die\<close> ends it with 1), \<open>Inr\<close> one that goes
  on. What outlives the process is explicit: the program on the interface, the socket file and the
  pid file. The code does not look at the results of \<open>unlink\<close>; a file whose \<open>unlink\<close> fails stays. Log
  output is not modelled.
\<close>

subsection \<open>Time and options\<close>

text \<open>Division truncates towards zero.\<close>

definition elapsed_ms :: "timespec \<Rightarrow> timespec \<Rightarrow> int" where
  "elapsed_ms a b = (tv_sec a - tv_sec b) * 1000 + signed_divide (tv_nsec a - tv_nsec b) 1000000"

record options =
  o_cfg_path :: string
  o_iface :: "string option"
  o_verbose :: nat
  o_daemon :: bool
  o_stop :: bool

definition default_options :: options where
  "default_options = \<lparr>o_cfg_path = ''/etc/voidgate/voidgate.conf'', o_iface = None, o_verbose = 0,
     o_daemon = False, o_stop = False\<rparr>"

text \<open>The options as \<open>getopt\<close> delivers them, with their arguments; \<open>None\<close> is a usage error.\<close>

fun options_loop :: "(char \<times> string) list \<Rightarrow> options \<Rightarrow> options option" where
  "options_loop [] op = Some op"
| "options_loop ((opt, optarg) # rest) op =
     (if opt = CHR ''c'' then options_loop rest (op\<lparr>o_cfg_path := optarg\<rparr>)
      else if opt = CHR ''i'' then options_loop rest (op\<lparr>o_iface := Some optarg\<rparr>)
      else if opt = CHR ''v'' then
        options_loop rest (if o_verbose op < 2 then op\<lparr>o_verbose := o_verbose op + 1\<rparr> else op)
      else if opt = CHR ''d'' then options_loop rest (op\<lparr>o_daemon := True\<rparr>)
      else if opt = CHR ''s'' then
        (if optarg \<noteq> ''stop'' then None else options_loop rest (op\<lparr>o_stop := True\<rparr>))
      else None)"

subsection \<open>The pid file\<close>

definition pid_lock :: "int \<Rightarrow> errno option \<Rightarrow> int + int" where
  "pid_lock fd flock = (if fd < 0 then Inl 1 else case flock of None \<Rightarrow> Inr fd | Some e \<Rightarrow> Inl 1)"

text \<open>
  The end of the process or not, and the contents of the file; \<open>pwrite_rc\<close> is the number of bytes that
  were written. The \<open>unlink\<close> after a failure is that of \<open>main_serve\<close>.
\<close>

definition write_pidfile :: "nat \<Rightarrow> int \<Rightarrow> int \<Rightarrow> string option \<Rightarrow> (int + unit) \<times> string option" where
  "write_pidfile pid trunc_rc pwrite_rc f =
     (let buf = dec_string pid @ [NL]; n = length buf
      in if trunc_rc < 0 then (Inl 1, f)
         else if pwrite_rc \<noteq> int n then (Inl 1, Some (take (nat pwrite_rc) buf))
         else (Inr (), Some buf))"

text \<open>
  \<open>strtol\<close> in base 10 on a 64-bit \<open>long\<close>: white space, one sign, digits, saturating; no digits is 0.
  The conversion to \<open>pid_t\<close> keeps 32 bits.
\<close>

definition strtol :: "string \<Rightarrow> int" where
  "strtol s =
     (let s = dropWhile isspace s;
          (neg, s) = (case s of ch # r \<Rightarrow> if ch = CHR ''-'' then (True, r) else if ch = CHR ''+'' then (False, r) else (False, s)
                      | [] \<Rightarrow> (False, s));
          v = dec_value (takeWhile is_digit s)
      in if neg then max (- v) (- (2 ^ 63)) else min v (2 ^ 63 - 1))"

definition pid_t :: "int \<Rightarrow> int" where
  "pid_t p = sint (word_of_int p :: 32 word)"

datatype stop_act = Close_fd | Unlink_pid | Kill int int

fun stop_loop :: "nat \<Rightarrow> nat \<Rightarrow> (nat \<Rightarrow> errno option) \<Rightarrow> int \<Rightarrow> stop_act list \<times> (int + unit)" where
  "stop_loop 0 i kill0 pid = ([], Inl 1)"
| "stop_loop (Suc n) i kill0 pid =
     (case kill0 i of
        Some e \<Rightarrow> if e = ESRCH then ([Kill (pid_t pid) 0, Unlink_pid], Inr ()) else ([Kill (pid_t pid) 0], Inl 1)
      | None \<Rightarrow> (let (acts, r) = stop_loop n (Suc i) kill0 pid in (Kill (pid_t pid) 0 # acts, r)))"

definition daemon_stop ::
  "int \<Rightarrow> string option \<Rightarrow> errno option \<Rightarrow> errno option \<Rightarrow> (nat \<Rightarrow> errno option) \<Rightarrow> stop_act list \<times> (int + unit)" where
  "daemon_stop fd data flock term kill0 =
     (if fd < 0 then ([], Inl 1)
      else if flock = None then ([Close_fd, Unlink_pid], Inl 1)
      else
        (case data of
           None \<Rightarrow> ([Close_fd], Inl 1)
         | Some buf \<Rightarrow>
             if buf = [] then ([Close_fd], Inl 1)
             else
               (let pid = strtol (takeWhile (\<lambda>ch. ch \<noteq> NUL) (take 31 buf)) in
                if pid \<le> 0 then ([Close_fd], Inl 1)
                else case term of
                  Some e \<Rightarrow> ([Close_fd, Kill (pid_t pid) 15] @ (if e = ESRCH then [Unlink_pid] else []), Inl 1)
                | None \<Rightarrow> (let (acts, r) = stop_loop 200 0 kill0 pid in ([Close_fd, Kill (pid_t pid) 15] @ acts, r)))))"

subsection \<open>Going to the background\<close>

record fork_sys =
  f_pipe :: int
  f_write_end :: int
  f_fork :: int
  f_reads :: "(errno + nat) list"
  f_dup2_log :: int
  f_setsid :: int
  f_null :: int
  f_dup2_in :: int
  f_dup2_out :: int

definition redirect_log :: "int \<Rightarrow> int + unit" where
  "redirect_log dup2_rc = (if dup2_rc < 0 then Inl 1 else Inr ())"

text \<open>The parent reads the pid of the daemon (4 bytes); \<open>None\<close> while it waits.\<close>

fun ready_loop :: "(errno + nat) list \<Rightarrow> int option" where
  "ready_loop [] = None"
| "ready_loop (Inl e # rs) = (if e = EINTR then ready_loop rs else Some (- 1))"
| "ready_loop (Inr n # rs) = Some (int n)"

definition daemon_start :: "fork_sys \<Rightarrow> (int + int) option" where
  "daemon_start S =
     (if f_pipe S < 0 then Some (Inl 1)
      else if f_fork S < 0 then Some (Inl 1)
      else if f_fork S > 0 then
        (case ready_loop (f_reads S) of
           None \<Rightarrow> None
         | Some n \<Rightarrow> if n \<noteq> 4 then Some (Inl 1) else Some (Inl 0))
      else
        (case redirect_log (f_dup2_log S) of
           Inl n \<Rightarrow> Some (Inl n)
         | Inr _ \<Rightarrow>
             if f_setsid S < 0 then Some (Inl 1)
             else if f_null S < 0 then Some (Inl 1)
             else if f_dup2_in S < 0 \<or> f_dup2_out S < 0 then Some (Inl 1)
             else Some (Inr (f_write_end S))))"

subsection \<open>Start-up\<close>

text \<open>
  \<open>machine\<close> is what outlives the process, with the world of the kernel's maps; \<open>daemon\<close> is the state of
  the running process, whose configuration and map handle are those of the controller. \<open>vg_die\<close> after
  \<open>vg_maps_close\<close> is \<open>die_closed\<close>.
\<close>

record 'w machine =
  m_nic :: "u32 option"
  m_sock :: "sock_file option"
  m_pid :: "string option"
  m_w :: 'w

record 'w daemon = "'w machine" +
  d_ctrl :: vg_ctrl
  d_ctl_fd :: int
  d_http_fd :: int
  d_stop :: bool
  d_result :: int

text \<open>
  What the system calls of one process answer. A process detaches its program at most once and unlinks
  the pid file at most once, when its start fails, when it stops another one, or when it ends.
\<close>

record boot_sys =
  bt_stop :: "int \<times> string option \<times> errno option \<times> errno option \<times> (nat \<Rightarrow> errno option)"
  bt_pid_fd :: int
  bt_flock :: "errno option"
  bt_alive :: "int \<times> int"
  bt_log_fd :: int
  bt_dup2_log :: int
  bt_fork :: fork_sys
  bt_bpf :: bpf_sys
  bt_mem :: "bool \<times> bool \<times> bool"
  bt_listen :: listen_sys
  bt_http :: "int \<times> int \<times> int"
  bt_pid :: nat
  bt_trunc :: int
  bt_pwrite :: int
  bt_ready :: bool
  bt_unlink_pid :: int
  bt_unlink_sock :: int

definition unlink_pid :: "boot_sys \<Rightarrow> 'w machine \<Rightarrow> 'w machine" where
  "unlink_pid B s = (if bt_unlink_pid B < 0 then s else s\<lparr>m_pid := None\<rparr>)"

definition die_closed :: "boot_sys \<Rightarrow> vg_maps \<Rightarrow> 'w machine \<Rightarrow> int \<times> 'w machine" where
  "die_closed B m s = (1, s\<lparr>m_nic := snd (vg_maps_close (bt_bpf B) m (m_nic s))\<rparr>)"

text \<open>From the controller's set-up to the loop.\<close>

definition main_serve ::
  "boot_sys \<Rightarrow> vg_ctrl \<Rightarrow> int \<Rightarrow> 'w machine \<Rightarrow> int \<times> 'w machine + 'w daemon" where
  "main_serve B c ready_fd s =
     (let (ctl_fd, f, fds) = vg_ctl_server_listen (bt_listen B) (ctl_socket_group (cfg c)) (m_sock s, []);
          s = s\<lparr>m_sock := f\<rparr>;
          (sock, bind_rc, listen_rc) = bt_http B;
          (http_fd, fds) = vg_http_listen (metrics_port (cfg c)) sock bind_rc listen_rc fds
      in case write_pidfile (bt_pid B) (bt_trunc B) (bt_pwrite B) (m_pid s) of
           (Inl n, f) \<Rightarrow> Inl (n, unlink_pid B (s\<lparr>m_pid := f\<rparr>))
         | (Inr _, f) \<Rightarrow>
             (let unreported = (ready_fd \<ge> 0 \<and> \<not> bt_ready B)
              in Inr \<lparr>m_nic = m_nic s, m_sock = m_sock s, m_pid = f, m_w = m_w s, d_ctrl = c,
                      d_ctl_fd = ctl_fd, d_http_fd = http_fd, d_stop = unreported,
                      d_result = (if unreported then 1 else 0)\<rparr>))"

text \<open>From loading the program to the controller's set-up. The outer \<open>option\<close> is termination.\<close>

definition main_load ::
  "'w kern \<Rightarrow> boot_sys \<Rightarrow> options \<Rightarrow> vg_config \<Rightarrow> int \<Rightarrow> 'w machine \<Rightarrow> (int \<times> 'w machine + 'w daemon) option" where
  "main_load K B op cf ready_fd s =
     (case vg_maps_open (bt_bpf B) cf of
        None \<Rightarrow> Some (Inl (1, s))
      | Some (m, sz) \<Rightarrow>
          (let w = vg_populate_allow K cf (m_w s);
               w = vg_populate_local K cf w;
               (e, w) = vg_cfg_commit K 0 cf w;
               s = s\<lparr>m_w := w\<rparr>
           in if e \<noteq> None then Some (Inl (die_closed B m s))
              else
                (let (rc, m, nic) = vg_xdp_attach (bt_bpf B) cf m (m_nic s); s = s\<lparr>m_nic := nic\<rparr> in
                 if rc < 0 then Some (Inl (die_closed B m s))
                 else
                   (case vg_ctrl_init (bt_mem B) cf m (o_cfg_path op) (case o_iface op of None \<Rightarrow> [] | Some i \<Rightarrow> i) of
                      None \<Rightarrow> None
                    | Some None \<Rightarrow> Some (Inl (die_closed B m s))
                    | Some (Some c) \<Rightarrow> Some (main_serve B c ready_fd s)))))"

text \<open>From the lock on the pid file to loading the program.\<close>

definition main_background :: "boot_sys \<Rightarrow> options \<Rightarrow> (int + int) option" where
  "main_background B op =
     (if o_daemon op then daemon_start (bt_fork B)
      else case redirect_log (bt_dup2_log B) of Inl n \<Rightarrow> Some (Inl n) | Inr _ \<Rightarrow> Some (Inr (- 1)))"

definition main_prepare ::
  "'w kern \<Rightarrow> 'w host \<Rightarrow> boot_sys \<Rightarrow> options \<Rightarrow> vg_config \<Rightarrow> int \<Rightarrow> 'w machine \<Rightarrow> (int \<times> 'w machine + 'w daemon) option" where
  "main_prepare K H B op cf pid_fd s =
     (let (sock, conn) = bt_alive B in
      if fst (vg_ctl_server_alive sock conn [pid_fd]) then Some (Inl (1, unlink_pid B s))
      else
        (let cf = (case o_iface op of None \<Rightarrow> cf | Some i \<Rightarrow> cf\<lparr>interface := snprintf VG_MAX_IFACE i\<rparr>) in
         if b_ifindex (bt_bpf B) (interface cf) = 0 then Some (Inl (1, s))
         else
           (let (ifs, w) = (if auto_local cf then h_ifaddrs H (m_w s) else (None, m_w s)); s = s\<lparr>m_w := w\<rparr> in
            case vg_config_auto_local ifs cf of
              None \<Rightarrow> Some (Inl (1, s))
            | Some cf \<Rightarrow>
                if bt_log_fd B < 0 then Some (Inl (1, s))
                else case main_background B op of
                       None \<Rightarrow> None
                     | Some (Inl n) \<Rightarrow> Some (Inl (n, s))
                     | Some (Inr ready_fd) \<Rightarrow> main_load K B op cf ready_fd s)))"

definition main_start ::
  "'w kern \<Rightarrow> 'w host \<Rightarrow> boot_sys \<Rightarrow> (char \<times> string) list \<Rightarrow> 'w machine \<Rightarrow> (int \<times> 'w machine + 'w daemon) option" where
  "main_start K H B opts s =
     (case options_loop opts default_options of
        None \<Rightarrow> Some (Inl (1, s))
      | Some op \<Rightarrow>
          (let (contents, w) = h_config H (o_cfg_path op) (m_w s); s = s\<lparr>m_w := w\<rparr> in
           case vg_config_load contents of
             None \<Rightarrow> Some (Inl (1, s))
           | Some cf \<Rightarrow>
               if o_stop op then
                 (let (fd, data, flock, term, kill0) = bt_stop B;
                      (acts, r) = daemon_stop fd data flock term kill0;
                      s = (if Unlink_pid \<in> set acts then unlink_pid B s else s)
                  in Some (Inl (case r of Inl n \<Rightarrow> n | Inr _ \<Rightarrow> 0, s)))
               else
                 (case pid_lock (bt_pid_fd B) (bt_flock B) of
                    Inl n \<Rightarrow> Some (Inl (n, s))
                  | Inr pid_fd \<Rightarrow>
                      (let s = (if m_pid s = None then s\<lparr>m_pid := Some []\<rparr> else s)
                       in main_prepare K H B op cf pid_fd s))))"

subsection \<open>The event loop\<close>

text \<open>
  One round of the loop: \<open>rd_poll\<close> is what \<open>poll\<close> returns after waiting at most the given time, the
  other fields are the readiness and the accepted descriptor of each listener and the traffic of
  the accepted connections. The signal handler sets \<open>g_stop\<close>: the rounds are those before it is seen.
\<close>

record round =
  rd_poll :: "int \<Rightarrow> errno + int"
  rd_ready :: "int \<Rightarrow> bool"
  rd_accept :: "int \<Rightarrow> int"
  rd_reads :: "(errno + string) list"
  rd_sends :: "(errno + int) list"
  rd_http :: "string option"

definition wait_ms :: "vg_config \<Rightarrow> timespec \<Rightarrow> timespec \<Rightarrow> int" where
  "wait_ms cf now lt =
     (let elapsed = elapsed_ms now lt;
          wt = idle_poll_ms cf - sint (word_of_int elapsed :: 32 word)
      in if wt < 0 then 0 else wt)"

definition poll_fds :: "int \<Rightarrow> int \<Rightarrow> int list" where
  "poll_fds ctl_fd http_fd = (if ctl_fd \<ge> 0 then [ctl_fd] else []) @ (if http_fd \<ge> 0 then [http_fd] else [])"

fun serve_loop ::
  "'w kern \<Rightarrow> 'w host \<Rightarrow> (real \<Rightarrow> string) \<Rightarrow> int \<Rightarrow> round \<Rightarrow> int list \<Rightarrow> vg_ctrl \<Rightarrow> 'w \<Rightarrow> (vg_ctrl \<times> 'w) option" where
  "serve_loop K H fmt0 ctl_fd rd [] c w = Some (c, w)"
| "serve_loop K H fmt0 ctl_fd rd (fd # fds) c w =
     (if \<not> rd_ready rd fd then serve_loop K H fmt0 ctl_fd rd fds c w
      else if rd_accept rd fd < 0 then serve_loop K H fmt0 ctl_fd rd fds c w
      else if fd = ctl_fd then
        (case vg_ctl_server_handle K H fmt0 (rd_reads rd) (rd_sends rd) c w of
           None \<Rightarrow> None
         | Some (sent, c, w) \<Rightarrow> serve_loop K H fmt0 ctl_fd rd fds c w)
      else
        (let (sent, w) = vg_http_handle K fmt0 (rd_http rd) c w
         in serve_loop K H fmt0 ctl_fd rd fds c w))"

text \<open>The first component says whether the loop goes on.\<close>

definition main_round ::
  "'w kern \<Rightarrow> 'w host \<Rightarrow> (real \<Rightarrow> real) \<Rightarrow> (real \<Rightarrow> string) \<Rightarrow> int \<Rightarrow> int \<Rightarrow> round \<Rightarrow> vg_ctrl \<Rightarrow> timespec \<Rightarrow> 'w \<Rightarrow>
   (bool \<times> vg_ctrl \<times> timespec \<times> 'w) option" where
  "main_round K H fl fmt0 ctl_fd http_fd rd c lt w =
     (let (now, w) = k_monotonic K w in
      case rd_poll rd (wait_ms (cfg c) now lt) of
        Inl e \<Rightarrow> if e = EINTR then Some (True, c, lt, w) else Some (False, c, lt, w)
      | Inr pr \<Rightarrow>
          (case (if pr > 0 then serve_loop K H fmt0 ctl_fd rd (poll_fds ctl_fd http_fd) c w else Some (c, w)) of
             None \<Rightarrow> None
           | Some (c, w) \<Rightarrow>
               (let (now, w) = k_monotonic K w in
                if pr \<le> 0 \<or> elapsed_ms now lt \<ge> idle_poll_ms (cfg c)
                then (let (x, c, w) = vg_ctrl_tick K fl c w in Some (True, c, now, w))
                else Some (True, c, lt, w))))"

fun main_loop ::
  "'w kern \<Rightarrow> 'w host \<Rightarrow> (real \<Rightarrow> real) \<Rightarrow> (real \<Rightarrow> string) \<Rightarrow> int \<Rightarrow> int \<Rightarrow> round list \<Rightarrow> vg_ctrl \<Rightarrow> timespec \<Rightarrow> 'w \<Rightarrow>
   (vg_ctrl \<times> timespec \<times> 'w) option" where
  "main_loop K H fl fmt0 ctl_fd http_fd [] c lt w = Some (c, lt, w)"
| "main_loop K H fl fmt0 ctl_fd http_fd (rd # rds) c lt w =
     (case main_round K H fl fmt0 ctl_fd http_fd rd c lt w of
        None \<Rightarrow> None
      | Some (go, c, lt, w) \<Rightarrow>
          if go then main_loop K H fl fmt0 ctl_fd http_fd rds c lt w else Some (c, lt, w))"

text \<open>Shutdown, and the whole run after a successful start.\<close>

definition main_exit :: "'w kern \<Rightarrow> boot_sys \<Rightarrow> 'w daemon \<Rightarrow> int \<times> 'w machine" where
  "main_exit K B d =
     (let (x, c, w) = vg_ctrl_disarm K (d_ctrl d) (m_w d);
          nic = snd (vg_maps_close (bt_bpf B) (maps c) (m_nic d));
          sock = (if d_ctl_fd d \<ge> 0 then (if bt_unlink_sock B < 0 then m_sock d else None) else m_sock d)
      in (d_result d, unlink_pid B \<lparr>m_nic = nic, m_sock = sock, m_pid = m_pid d, m_w = w\<rparr>))"

definition main_run ::
  "'w kern \<Rightarrow> 'w host \<Rightarrow> boot_sys \<Rightarrow> (real \<Rightarrow> real) \<Rightarrow> (real \<Rightarrow> string) \<Rightarrow> round list \<Rightarrow> 'w daemon \<Rightarrow> (int \<times> 'w machine) option" where
  "main_run K H B fl fmt0 rds d =
     (let (lt, w) = k_monotonic K (m_w d) in
      case (if d_stop d then Some (d_ctrl d, lt, w)
            else main_loop K H fl fmt0 (d_ctl_fd d) (d_http_fd d) rds (d_ctrl d) lt w) of
        None \<Rightarrow> None
      | Some (c, lt, w) \<Rightarrow> Some (main_exit K B (d\<lparr>d_ctrl := c, m_w := w\<rparr>)))"

end
