(* ===== verification/CtlInv.thy ===== *)
theory CtlInv
  imports CtlServer PolicyInit
begin

section \<open>What control requests do\<close>

text \<open>
  No request breaks the invariant of the control plane, whatever the client sends: \<open>request_inv\<close> for
  one request, \<open>handle_inv\<close> for a connection. \<open>voidgate_host\<close> adds to the kernel the documented
  behaviour of the host operations a reload calls: they change no BPF map, and an interface address
  has the length of its family.
\<close>

locale voidgate_host = bpf_kernel K view for K :: "'w kern" and view +
  fixes H :: "'w host"
  assumes config_view: "view (snd (h_config H path w)) = view w"
    and ifaddrs_view: "view (snd (h_ifaddrs H w)) = view w"
    and ifaddrs_len: "h_ifaddrs H w = (Some ps, w') \<Longrightarrow> ifaddrs_ok ps"

definition ref_host :: "(string \<Rightarrow> (string list \<times> bool) option) \<Rightarrow> ifaddrs list option \<Rightarrow> rkernel host" where
  "ref_host files ifs =
     \<lparr>h_config = (\<lambda>path w. (files path, w)),
      h_ifaddrs = (\<lambda>w. ((case ifs of None \<Rightarrow> None | Some ps \<Rightarrow> if ifaddrs_ok ps then Some ps else None), w))\<rparr>"

interpretation refh: voidgate_host ref_kernel r_view "ref_host files ifs"
  by unfold_locales (auto simp: ref_host_def split: option.splits if_splits)

subsection \<open>Populating the maps of the configuration\<close>

context bpf_kernel
begin

lemma flush_keys_ok: "keys_ok (view w) \<Longrightarrow> keys_ok (view (flush_lpm K m w))"
proof -
  assume k: "keys_ok (view w)"
  then have "\<forall>k \<in> dom (ents (view w) m). key_ok m k" by (simp add: keys_ok_def)
  note f = flush_lpm_frame [OF this]
  have "dom (ents (view (flush_lpm K m w)) m') \<subseteq> dom (ents (view w) m')" for m'
    using f(1) [of m'] map_le_implies_dom_le [OF f(2)] by (cases "m' = m") simp_all
  then show ?thesis using k unfolding keys_ok_def by blast
qed

lemma populate_maps:
  assumes k: "keys_ok (view w)" and ps: "\<forall>p \<in> set ps. cidr_wf p" and b: "map_bytes fd4 = 4" "map_bytes fd6 = 16"
  defines "w' \<equiv> populate_loop K fd4 fd6 ps (flush_lpm K fd6 (flush_lpm K fd4 w))"
  shows "keys_ok (view w')" and "kcfg (view w') = kcfg (view w)"
    and "\<And>m. m \<noteq> fd4 \<Longrightarrow> m \<noteq> fd6 \<Longrightarrow> ents (view w') m = ents (view w) m"
proof -
  let ?w1 = "flush_lpm K fd4 w" and ?w2 = "flush_lpm K fd6 (flush_lpm K fd4 w)"
  have k1: "keys_ok (view ?w1)" and k2: "keys_ok (view ?w2)" using k by (simp_all add: flush_keys_ok)
  note f1 = flush_lpm_frame [of w fd4] and f2 = flush_lpm_frame [of ?w1 fd6] and p = populate_frame [OF ps b]
  show "keys_ok (view w')" using p(3) [OF k2] by (simp add: w'_def)
  show "kcfg (view w') = kcfg (view w)" using p(2) f1(3) f2(3) k k1 by (simp add: w'_def keys_ok_def)
  show "\<And>m. m \<noteq> fd4 \<Longrightarrow> m \<noteq> fd6 \<Longrightarrow> ents (view w') m = ents (view w) m"
    using p(1) f1(1) f2(1) k k1 by (simp add: w'_def keys_ok_def)
qed

lemma populate_config:
  assumes "keys_ok (view w)" "config_ok cf"
  shows "keys_ok (view (vg_populate_local K cf (vg_populate_allow K cf w)))"
    and "kcfg (view (vg_populate_local K cf (vg_populate_allow K cf w))) = kcfg (view w)"
    and "ents (view (vg_populate_local K cf (vg_populate_allow K cf w))) (drop_map f) = ents (view w) (drop_map f)"
proof -
  let ?w1 = "vg_populate_allow K cf w"
  have a: "keys_ok (view ?w1)" "kcfg (view ?w1) = kcfg (view w)"
    "\<And>m. m \<noteq> Allow_v4 \<Longrightarrow> m \<noteq> Allow_v6 \<Longrightarrow> ents (view ?w1) m = ents (view w) m"
    using populate_maps [OF assms(1), of "allow_cidr cf" Allow_v4 Allow_v6] assms(2)
    by (simp_all add: vg_populate_allow_def config_ok_def)
  have l: "keys_ok (view (vg_populate_local K cf ?w1))" "kcfg (view (vg_populate_local K cf ?w1)) = kcfg (view ?w1)"
    "\<And>m. m \<noteq> Local_v4 \<Longrightarrow> m \<noteq> Local_v6 \<Longrightarrow> ents (view (vg_populate_local K cf ?w1)) m = ents (view ?w1) m"
    using populate_maps [OF a(1), of "local_cidr cf" Local_v4 Local_v6] assms(2)
    by (simp_all add: vg_populate_local_def config_ok_def)
  show "keys_ok (view (vg_populate_local K cf ?w1))" by (rule l(1))
  show "kcfg (view (vg_populate_local K cf ?w1)) = kcfg (view w)" using l(2) a(2) by simp
  show "ents (view (vg_populate_local K cf ?w1)) (drop_map f) = ents (view w) (drop_map f)"
    using l(3) [of "drop_map f"] a(3) [of "drop_map f"] by (simp add: drop_map_def)
qed

lemma synced_populate:
  assumes "ctrl_inv rel pr c (view w)"
  shows "ctrl_inv rel pr c (view (vg_populate_local K (cfg c) (vg_populate_allow K (cfg c) w)))"
  using assms populate_config [of w "cfg c"] by (simp add: ctrl_inv_def synced_def ctrl_ok_def)

lemma inv_new_config:
  assumes "ctrl_inv rel pr c v" "config_ok n"
  shows "ctrl_inv rel False (c\<lparr>cfg := n\<rparr>) v"
  using assms by (auto simp: ctrl_inv_def ctrl_ok_def synced_def listed_def)

lemma inv_weaken: "ctrl_inv rel pr c v \<Longrightarrow> ctrl_inv rel False c v"
  by (auto simp: ctrl_inv_def ctrl_ok_def)

lemma commit_state:
  assumes "vg_cfg_commit K (if state c = VG_ACTIVE then 1 else 0) (cfg c) w = (e, w')" "ctrl_inv rel pr c (view w)"
  shows "ctrl_inv rel pr c (view w')"
proof -
  have "view w' = view w \<or> view w' = (view w)\<lparr>kcfg := mk_cfg (if state c = VG_ACTIVE then 1 else 0) (cfg c)\<rparr>"
    using assms(1) cfg_ok cfg_err by (cases e) (auto simp: vg_cfg_commit_def)
  moreover have "keys_ok ((view w)\<lparr>kcfg := x\<rparr>) = keys_ok (view w)" for x by (simp add: keys_ok_def)
  ultimately show ?thesis using assms(2)
    by (cases "state c"; elim disjE) (simp_all add: ctrl_inv_def synced_def)
qed

end

subsection \<open>Reload\<close>

lemma kept_config_ok: "config_ok n \<Longrightarrow> config_ok (kept_config c n)"
  by (simp add: kept_config_def config_ok_def Let_def)

context voidgate_host
begin

lemma reload_cases:
  assumes run: "vg_ctrl_reload K H c w = (x, c', w')"
  obtains "x = - 1" "c' = c" "view w' = view w"
  | n w2 k w3 e w4 where "config_ok n" "view w2 = view w"
      "vg_ctrl_prune_protected K (c\<lparr>cfg := n\<rparr>) w2 = (k, c', w3)"
      "vg_cfg_commit K (if state c' = VG_ACTIVE then 1 else 0) (cfg c') w3 = (e, w4)"
      "e \<noteq> None \<and> x = - 1 \<and> w' = w4 \<or>
       e = None \<and> x = 0 \<and> w' = vg_populate_local K (cfg c') (vg_populate_allow K (cfg c') w4)"
proof (cases "cfg_path c = []")
  case True
  then show ?thesis using run that(1) by (simp add: vg_ctrl_reload_def)
next
  case False
  obtain f w1 where f: "h_config H (cfg_path c) w = (f, w1)" by fastforce
  have v1: "view w1 = view w" using config_view [of "cfg_path c" w] f by simp
  show ?thesis
  proof (cases "vg_config_load f")
    case None
    then show ?thesis using run that(1) False f v1 by (simp add: vg_ctrl_reload_def)
  next
    case (Some n0)
    let ?n = "kept_config c n0"
    have n0: "config_ok ?n" using load_config_fits [OF Some] by (simp add: config_fits_def kept_config_ok)
    obtain ifs w2 where i: "(if auto_local ?n then h_ifaddrs H w1 else (None, w1)) = (ifs, w2)" by fastforce
    have v2: "view w2 = view w" and ok: "\<And>ps. ifs = Some ps \<Longrightarrow> ifaddrs_ok ps"
      using i v1 ifaddrs_view [of w1] ifaddrs_len [of w1] by (auto split: if_splits)
    show ?thesis
    proof (cases "vg_config_auto_local ifs ?n")
      case None
      then show ?thesis using run that(1) False f Some i v2 by (simp add: vg_ctrl_reload_def)
    next
      case (Some n)
      have n: "config_ok n" using auto_local_ok [OF Some n0 ok] .
      obtain k c2 w3 where p: "vg_ctrl_prune_protected K (c\<lparr>cfg := n\<rparr>) w2 = (k, c2, w3)" by (metis prod_cases3)
      obtain e w4 where e: "vg_cfg_commit K (if state c2 = VG_ACTIVE then 1 else 0) (cfg c2) w3 = (e, w4)" by fastforce
      have "vg_ctrl_reload K H c w =
          (if e \<noteq> None then (- 1, c2, w4)
           else (0, c2, vg_populate_local K (cfg c2) (vg_populate_allow K (cfg c2) w4)))"
        unfolding vg_ctrl_reload_def Let_def f prod.case \<open>vg_config_load f = Some n0\<close> option.case i Some p e
        using False by simp
      then show ?thesis using run that(2) [OF n v2, of k w3 e w4] p e by (cases e) auto
    qed
  qed
qed

lemma reload_inv:
  assumes run: "vg_ctrl_reload K H c w = (x, c', w')" and inv: "ctrl_inv rel pr c (view w)"
  shows "ctrl_inv rel False c' (view w')"
    and "bpf_kernel_reliable K view \<Longrightarrow> pr \<or> x = 0 \<Longrightarrow> ctrl_inv rel True c' (view w')"
    and "maps c' = maps c" and "x = 0 \<or> x = - 1"
proof -
  have "ctrl_inv rel False c' (view w') \<and>
    (bpf_kernel_reliable K view \<longrightarrow> pr \<or> x = 0 \<longrightarrow> ctrl_inv rel True c' (view w')) \<and> maps c' = maps c \<and> (x = 0 \<or> x = - 1)"
    using run
  proof (cases rule: reload_cases)
    case 1
    then show ?thesis using inv inv_weaken by (cases pr) auto
  next
    case (2 n w2 k w3 e w4)
    have i2: "ctrl_inv rel False (c\<lparr>cfg := n\<rparr>) (view w2)" using inv_new_config [OF inv 2(1)] 2(2) by simp
    note p = prune_good [OF 2(3) i2]
    have i3: "ctrl_inv rel False c' (view w3)" using p(1) i2 by (simp add: good_def)
    have fin: "ctrl_inv rel q c' (view w')" if "ctrl_inv rel q c' (view w3)" for q
      using commit_state [OF 2(4) that] synced_populate [of rel q c' w4] 2(5) by auto
    show ?thesis using fin [OF i3] fin [of True] p(4) p(2) 2(5) by auto
  qed
  then show "ctrl_inv rel False c' (view w')"
    "bpf_kernel_reliable K view \<Longrightarrow> pr \<or> x = 0 \<Longrightarrow> ctrl_inv rel True c' (view w')"
    "maps c' = maps c" "x = 0 \<or> x = - 1" by blast+
qed

end


subsection \<open>Requests\<close>

lemma snprintf_length: "0 < n \<Longrightarrow> length (snprintf n s) < n"
  by (simp add: snprintf_def)

context bpf_kernel
begin

lemma drops_loop_view: "view (snd (drops_loop K fuel t l used acc w)) = view w"
proof (induction fuel arbitrary: l used acc w)
  case (Suc fuel)
  obtain now w1 where t: "k_time K w = (now, w1)" by fastforce
  then show ?case using Suc time_step [OF t] by (auto simp: Let_def split: option.splits)
qed simp

lemma drops_loop_length:
  "length acc < REPLY_SIZE \<Longrightarrow> used < REPLY_SIZE \<Longrightarrow> length (fst (drops_loop K fuel t l used acc w)) < REPLY_SIZE"
proof (induction fuel arbitrary: l used acc w)
  case (Suc fuel)
  obtain now w1 where t: "k_time K w = (now, w1)" by fastforce
  show ?case
  proof (cases "l \<noteq> All \<and> used + 80 < REPLY_SIZE \<and> vg_list_entry l \<noteq> None")
    case False
    then show ?thesis using Suc.prems by (auto split: option.splits)
  next
    case True
    then obtain r where r: "vg_list_entry l = Some r" by blast
    let ?line = "drop_line now (drop_pool t r)"
    let ?acc = "take used acc @ snprintf (REPLY_SIZE - used) ?line"
    have acc: "length ?acc < REPLY_SIZE"
      using Suc.prems True snprintf_length [of "REPLY_SIZE - used" ?line] by (auto simp: snprintf_def)
    have step: "drops_loop K (Suc fuel) t l used acc w = drops_loop K fuel t (next (links t) l) (used + length ?line) ?acc w1"
      using True r t by (simp add: Let_def)
    show ?thesis
    proof (cases "used + length ?line < REPLY_SIZE")
      case True
      then show ?thesis unfolding step by (intro Suc.IH acc)
    next
      case False
      then have "fst (drops_loop K fuel t (next (links t) l) (used + length ?line) ?acc w1) = ?acc" by (cases fuel) auto
      then show ?thesis unfolding step using acc by simp
    qed
  qed
qed simp

lemma drop_ttl_good:
  assumes run: "vg_ctrl_drop_ttl K c p ttl w = (x, c', w')" and inv: "ctrl_inv rel pr c (view w)" and wf: "cidr_wf p"
  shows "ctrl_inv rel pr c' (view w')"
proof -
  obtain t w1 where t: "k_time K w = (t, w1)" by fastforce
  have "drop_add K c p VG_REASON_TIMED (t + uint ttl) w1 = (x, c', w')" using run t by (simp add: vg_ctrl_drop_ttl_def)
  from drop_add_good(1) [OF this _ wf] show ?thesis using inv time_step [OF t] by (simp add: good_def)
qed

end

text \<open>One lemma per handler that does more than call one operation of the controller.\<close>

context bpf_kernel
begin

lemma ctl_drops_same:
  assumes "ctl_drops K c args w = (reply, c', w')"
  shows "c' = c \<and> view w' = view w \<and> length reply < REPLY_SIZE"
proof -
  let ?d = "drops_loop K (Suc (unat (drop_used (tab c)))) (tab c) (next (links (tab c)) All) 0 [] w"
  have pos: "0 < REPLY_SIZE" by simp
  show ?thesis
    using assms pos snprintf_length [OF pos]
      drops_loop_view [of "Suc (unat (drop_used (tab c)))" "tab c" "next (links (tab c)) All" 0 "[]" w]
      drops_loop_length [of "[]" 0 "Suc (unat (drop_used (tab c)))" "tab c" "next (links (tab c)) All" w]
    by (cases "?d") (auto simp: ctl_drops_def simp del: REPLY_SIZE_def drops_loop.simps split: if_splits)
qed

text \<open>\<open>ctl_drop\<close> answers a malformed line itself, and otherwise runs one drop and reports it.\<close>

lemma ctl_drop_cases:
  assumes "ctl_drop K c args w = (reply, c', w')"
  obtains s where "reply = snprintf REPLY_SIZE s" "take 5 s = ''error''" "c' = c" "w' = w"
  | p ttl x where "vg_parse_cidr_len args (length (fst (split_at CHR '' '' args))) = Some p"
      "(if ttl \<noteq> 0 then vg_ctrl_drop_ttl K c p ttl w else vg_ctrl_drop K c p VG_REASON_MANUAL w) = (x, c', w')"
      "reply = snprintf REPLY_SIZE (if x < 0 then ''error: refused or map update failed'' @ [NL] else ''ok'' @ [NL])"
proof -
  obtain hd sp where sp: "split_at CHR '' '' args = (hd, sp)" by fastforce
  let ?t = "case sp of None \<Rightarrow> Some 0 | Some opts \<Rightarrow> parse_ttl opts"
  show ?thesis
  proof (cases "vg_parse_cidr_len args (length hd) = None \<or> ?t = None")
    case True
    then show ?thesis using assms that(1) sp
      by (auto simp: ctl_drop_def simp del: REPLY_SIZE_def split: option.splits)
  next
    case False
    then obtain p ttl where p: "vg_parse_cidr_len args (length hd) = Some p" and t: "?t = Some ttl" by (metis not_None_eq)
    obtain x c1 w1 where d: "(if ttl \<noteq> 0 then vg_ctrl_drop_ttl K c p ttl w else vg_ctrl_drop K c p VG_REASON_MANUAL w) = (x, c1, w1)"
      by (metis prod_cases3)
    then have "c' = c1" "w' = w1" "reply = snprintf REPLY_SIZE (if x < 0 then ''error: refused or map update failed'' @ [NL] else ''ok'' @ [NL])"
      using assms sp p t by (auto simp: ctl_drop_def simp del: REPLY_SIZE_def)
    then show ?thesis using that(2) [of p ttl x] d p sp by simp
  qed
qed

lemma ctl_drop_inv:
  assumes "ctl_drop K c args w = (reply, c', w')" and inv: "ctrl_inv rel pr c (view w)"
  shows "ctrl_inv rel pr c' (view w')"
  using assms(1)
proof (cases rule: ctl_drop_cases)
  case (2 p ttl x)
  have "cidr_wf p" using 2(1) by (rule parse_len_wf)
  then show ?thesis
    using 2(2) drop_ttl_good [OF _ inv] drop_add_good(1) [OF _ inv] inv
    by (auto simp: vg_ctrl_drop_def good_def split: if_splits)
qed (use inv in simp)

lemma ctl_undrop_inv:
  assumes "ctl_undrop K c args w = (reply, c', w')" and inv: "ctrl_inv rel pr c (view w)"
  shows "ctrl_inv rel pr c' (view w')"
proof (cases "vg_parse_cidr args")
  case None
  then show ?thesis using assms by (simp add: ctl_undrop_def)
next
  case (Some p)
  obtain x c1 w1 where d: "vg_ctrl_undrop K c p w = (x, c1, w1)" by (metis prod_cases3)
  show ?thesis using assms Some d undrop_good(1) [OF d inv parse_cidr_wf [OF Some]] inv
    by (simp add: ctl_undrop_def good_def)
qed

end

context voidgate_host
begin

lemma command_reply:
  assumes "(name, prefix, h) \<in> set (vg_ctl_commands K H fmt0)" and "h c args w = (reply, c', w')"
  shows "length reply < REPLY_SIZE"
proof -
  have len: "length (snprintf REPLY_SIZE s) < REPLY_SIZE" for s by (simp add: snprintf_length)
  show ?thesis
    using assms len ctl_drops_same [of c args w reply c' w']
    by (auto simp: vg_ctl_commands_def ctl_status_def ctl_stats_def ctl_arm_def ctl_disarm_def ctl_drop_def
        ctl_undrop_def ctl_reload_def simp del: REPLY_SIZE_def split: prod.splits option.splits)
qed

lemma command_inv:
  assumes cmd: "(name, prefix, h) \<in> set (vg_ctl_commands K H fmt0)" and run: "h c args w = (reply, c', w')"
    and inv: "ctrl_inv rel pr c (view w)" and R: "rel \<or> pr \<Longrightarrow> bpf_kernel_reliable K view"
  shows "ctrl_inv rel pr c' (view w')"
proof -
  consider "h = ctl_status fmt0" | "h = ctl_stats K fmt0" | "h = ctl_drops K" | "h = ctl_arm K" | "h = ctl_disarm K"
    | "h = ctl_drop K" | "h = ctl_undrop K" | "h = ctl_reload K H"
    using cmd by (auto simp: vg_ctl_commands_def)
  then show ?thesis
  proof cases
    case 1
    then show ?thesis using run inv by (simp add: ctl_status_def)
  next
    case 2
    then show ?thesis using run inv metrics_read_view [of "maps c" w]
      by (auto simp: ctl_stats_def split: prod.splits option.splits)
  next
    case 3
    then show ?thesis using run inv ctl_drops_same by metis
  next
    case 4
    obtain x c1 w1 where a: "vg_ctrl_arm K c w = (x, c1, w1)" by (metis prod_cases3)
    then show ?thesis using 4 run arm_good(1) [OF a, of rel pr] inv by (simp add: ctl_arm_def good_def)
  next
    case 5
    obtain x c1 w1 where a: "vg_ctrl_disarm K c w = (x, c1, w1)" by (metis prod_cases3)
    then show ?thesis using 5 run disarm_good(1) [OF a _ inv] inv R by (simp add: ctl_disarm_def good_def)
  next
    case 8
    obtain x c1 w1 where d: "vg_ctrl_reload K H c w = (x, c1, w1)" by (metis prod_cases3)
    show ?thesis using 8 run d reload_inv(1,2) [OF d inv] R by (cases pr) (auto simp: ctl_reload_def)
  qed (use run ctl_drop_inv ctl_undrop_inv inv in metis)+
qed

lemma request_inv:
  assumes run: "run_request K H fmt0 req c w = (reply, c', w')"
    and inv: "ctrl_inv rel pr c (view w)" and R: "rel \<or> pr \<Longrightarrow> bpf_kernel_reliable K view"
  shows "ctrl_inv rel pr c' (view w')" and "length reply < REPLY_SIZE"
proof -
  have "ctrl_inv rel pr c' (view w') \<and> length reply < REPLY_SIZE"
  proof (cases "find (command_matches req) (vg_ctl_commands K H fmt0)")
    case None
    then show ?thesis using run inv snprintf_length by (auto simp: run_request_def)
  next
    case (Some cmd)
    obtain name prefix h where cmd: "cmd = (name, prefix, h)" by (metis prod_cases3)
    have "(name, prefix, h) \<in> set (vg_ctl_commands K H fmt0)" using Some cmd by (auto simp: find_Some_iff)
    from command_inv [OF this _ inv R] command_reply [OF this] show ?thesis using run Some cmd by (simp add: run_request_def del: REPLY_SIZE_def)
  qed
  then show "ctrl_inv rel pr c' (view w')" "length reply < REPLY_SIZE" by blast+
qed

lemma handle_inv:
  assumes run: "vg_ctl_server_handle K H fmt0 reads sends c w = Some (sent, c', w')"
    and inv: "ctrl_inv rel pr c (view w)" and R: "rel \<or> pr \<Longrightarrow> bpf_kernel_reliable K view"
  shows "ctrl_inv rel pr c' (view w')"
proof (cases "read_request reads []")
  case None
  then show ?thesis using run by (simp add: vg_ctl_server_handle_def)
next
  case (Some rq)
  show ?thesis
  proof (cases rq)
    case (Line req)
    obtain reply c1 w1 where r: "run_request K H fmt0 req c w = (reply, c1, w1)" by (metis prod_cases3)
    then have "c' = c1" "w' = w1" using run Some Line by (auto simp: vg_ctl_server_handle_def)
    then show ?thesis using request_inv(1) [OF r inv R] by simp
  qed (use run inv Some in \<open>auto simp: vg_ctl_server_handle_def\<close>)
qed

end

end
