(* ===== verification/PolicySpec.thy ===== *)
theory PolicySpec
  imports CtlInv
begin

section \<open>What the control plane promises\<close>

text \<open>
  The contract of the routines of \<open>src/src/policy.c\<close> as theorems over the list of drops, the
  abstraction of the drop table: dropping refines \<open>drop_spec\<close>, lifting and expiry remove exactly what
  they should, protected networks are refused, and a prefix that can be dropped is dropped. The
  kernel is any one with the laws of \<open>bpf_kernel\<close>; the examples run on the reference kernel.
\<close>

subsection \<open>An example prefix\<close>

lemma ex_net_parse: "vg_parse_cidr ''203.0.113.0/24'' = Some ex_net"
  by code_simp

lemma ex_net_wf: "cidr_wf ex_net"
  using parse_cidr_wf [OF ex_net_parse] .

lemma parsed_family:
  assumes "snd (split_at CHR '':'' (fst (split_at CHR ''/'' s))) \<noteq> None" "p \<in> set (parsed s)"
  shows "family p = AF_INET6"
  using assms
  by (auto simp: parsed_def vg_parse_cidr_def vg_parse_cidr_len_def Let_def vg_cidr_mask_def
      split: option.splits if_splits prod.splits)

lemma parsed_v6_apart:
  assumes "snd (split_at CHR '':'' (fst (split_at CHR ''/'' s))) \<noteq> None" "family q = AF_INET"
  shows "\<not> any_overlap q (parsed s)"
  using parsed_family [OF assms(1)] assms(2)
  by (force simp: any_overlap_iff vg_cidr_covers_or_overlaps_def vg_cidr_contains_def)

lemma ex_net_overlap:
  "\<not> any_overlap ex_net (parsed ''169.254.169.254/32'')" "\<not> any_overlap ex_net (parsed ''127.0.0.0/8'')"
  "\<not> any_overlap ex_net (parsed ''::1/128'')" "\<not> any_overlap ex_net (parsed ''fe80::/10'')"
  "\<not> any_overlap ex_net (parsed ''ff02::/16'')"
proof -
  show "\<not> any_overlap ex_net (parsed ''169.254.169.254/32'')" "\<not> any_overlap ex_net (parsed ''127.0.0.0/8'')"
    by code_simp+
qed (rule parsed_v6_apart; simp add: ex_net_def)+

lemma ex_net_free: "\<not> vg_cidr_is_protected (cfg ex_ctrl) ex_net"
  using ex_net_overlap
  by (simp add: ex_ctrl_facts(3) vg_cidr_is_protected_def any_overlap_iff vg_config_defaults_def ball_Un bex_Un)

lemma ex_listed: "listed ex_ctrl = {}" "drops (tab ex_ctrl) = []"
  by (rule ex_ctrl_facts)+

subsection \<open>Dropping succeeds when it can\<close>

text \<open>The kernel's drop map of a family holds no more entries than prefixes of the family are listed.\<close>

definition of_family :: "family \<Rightarrow> vg_ctrl \<Rightarrow> nat" where
  "of_family f c = length (filter (\<lambda>d. family (cidr d) = f) (drops (tab c)))"

definition has_room :: "vg_ctrl \<Rightarrow> kview \<Rightarrow> vg_cidr \<Rightarrow> bool" where
  "has_room c v p \<longleftrightarrow> of_family (family p) c < kmax v (drop_map (family p)) \<and>
     length (drops (tab c)) < unat (drop_pool_cap (tab c))"

context bpf_kernel
begin

lemma entries_listed:
  assumes "ctrl_inv True pr c (view w)"
  shows "length (lpm_order (view w) (drop_map f)) \<le> of_family f c"
proof -
  let ?ds = "filter (\<lambda>d. family (cidr d) = f) (drops (tab c))"
  have "set (lpm_order (view w) (drop_map f)) \<subseteq> (\<lambda>d. cidr_key (cidr d)) ` set ?ds"
    using assms order [of w "drop_map f"] by (fastforce simp: ctrl_inv_def synced_def listed_def)
  then have "card (set (lpm_order (view w) (drop_map f))) \<le> card ((\<lambda>d. cidr_key (cidr d)) ` set ?ds)"
    by (intro card_mono) simp_all
  also have "\<dots> \<le> card (set ?ds)" by (rule card_image_le) simp
  also have "\<dots> \<le> length ?ds" by (rule card_length)
  finally show ?thesis using distinct_card [of "lpm_order (view w) (drop_map f)"] order [of w "drop_map f"]
    by (simp only: of_family_def)
qed

lemma arm_view:
  assumes "vg_ctrl_arm K c w = (x, c', w')"
  shows "\<exists>g. view w' = (view w)\<lparr>kcfg := g\<rparr>"
proof (cases "state c = VG_ACTIVE")
  case True
  then show ?thesis using assms by (intro exI [of _ "kcfg (view w)"]) (simp add: vg_ctrl_arm_def)
next
  case False
  obtain e w1 where e: "vg_cfg_commit K 1 (cfg c) w = (e, w1)" by fastforce
  have "w' = w1" using assms False e by (auto simp: vg_ctrl_arm_def Let_def split: if_splits)
  then show ?thesis using commit_view [OF e]
    by (cases "e = None") (auto intro: exI [of _ "kcfg (view w)"])
qed

end

context bpf_kernel_room
begin

lemma arm_live: "fst (vg_ctrl_arm K c w) = 0"
proof -
  obtain e w1 where e: "vg_cfg_commit K 1 (cfg c) w = (e, w1)" by fastforce
  then have "e = None" using cfg_room [of "mk_cfg 1 (cfg c)" w] by (simp add: vg_cfg_commit_def)
  then show ?thesis using e by (simp add: vg_ctrl_arm_def Let_def)
qed

lemma redrop_live:
  assumes "fst (vg_drop_add K p rsn (word_of_int now) w) = None"
  shows "fst (redrop K c r p rsn ex now w) = 0"
proof (cases "rsn = VG_REASON_TIMED \<and> reason (drop_pool (tab c) r) = VG_REASON_MANUAL")
  case False
  then show ?thesis using redrop_alt [OF False, of K p ex now w] assms
    by (cases "vg_drop_add K p rsn (word_of_int now) w") simp
qed (simp add: redrop_def)

lemma add_new_live:
  assumes "fst (vg_drop_add K p rsn (word_of_int now) w) = None" "tab_ok (tab c)"
    "length (drops (tab c)) < unat (drop_pool_cap (tab c))"
  shows "fst (add_new_drop K c p rsn ex now w) = 0"
proof -
  obtain ro t where a: "drop_alloc (tab c) = (ro, t)" by fastforce
  then have "ro \<noteq> None" using tab_full(2) [OF assms(2), of t] assms(3) by (cases ro) auto
  then show ?thesis using a assms(1)
    by (cases "vg_drop_add K p rsn (word_of_int now) w") (auto simp: add_new_drop_def Let_def)
qed

lemma drop_add_live:
  assumes inv: "ctrl_inv True pr c (view w)" and wf: "cidr_wf p" and np: "\<not> vg_cidr_is_protected (cfg c) p"
    and room: "p \<in> listed c \<or> has_room c (view w) p"
  shows "fst (drop_add K c p rsn ex w) = 0"
proof -
  obtain now w1 where t: "k_time K w = (now, w1)" by fastforce
  obtain a c2 w2 where a: "vg_ctrl_arm K c w1 = (a, c2, w2)" by (metis prod_cases3)
  have "a = 0" using arm_live [of c w1] a by simp
  note g = arm_good(1) [OF a, of True pr] arm_good(4) [OF a]
  have inv2: "ctrl_inv True pr c2 (view w2)" using g(1) inv time_step [OF t] by (simp add: good_def)
  obtain k where v: "view w2 = (view w)\<lparr>kcfg := k\<rparr>" using arm_view [OF a] time_step [OF t] by auto
  have l: "listed c2 = listed c" "of_family f c2 = of_family f c" for f using g(2) by (simp_all add: listed_def of_family_def)
  have "cidr_key p \<in> dom (ents (view w2) (drop_map (family p))) \<or>
      length (lpm_order (view w2) (drop_map (family p))) < kmax (view w2) (drop_map (family p))"
    using room inv2 entries_listed [OF inv2, of "family p"] l v by (auto simp: ctrl_inv_def synced_def has_room_def)
  moreover have "key_ok (drop_map (family p)) (cidr_key p)" using wf by (intro cidr_key_ok) simp_all
  ultimately have up: "fst (vg_drop_add K p rsn (word_of_int now) w2) = None"
    using update_room by (simp add: vg_drop_add_key)
  have ok: "ctrl_ok pr c2" using inv2 by (simp add: ctrl_inv_def)
  have "drops_find (tab c2) p = None \<Longrightarrow> fst (add_new_drop K c2 p rsn ex now w2) = 0"
    using add_new_live [OF up, of c2] find_listed [OF ok wf] l room g(2) ok by (auto simp: has_room_def ctrl_ok_def)
  then show ?thesis using redrop_live [OF up] t np a \<open>a = 0\<close>
    by (cases "drops_find (tab c2) p") (simp_all add: drop_add_def arm_if)
qed

end

subsection \<open>Dropping\<close>

lemma drop_spec_cidrs: "cidr ` set (drop_spec cf p rsn now ex ds) = insert p (cidr ` set ds)"
proof -
  have "cidr ` set (map (\<lambda>d. if cidr d = p then redrop_rec cf rsn now ex d else d) ds) = cidr ` set ds"
    by (rule cidr_image_map) (simp add: redrop_rec_def)
  then show ?thesis by (auto simp: drop_spec_def)
qed

text \<open>
  C10: Dropping refines the list specification. When \<open>drop_add\<close> reports success, the prefix is not
  protected, the gate is active and the list of drops is the one \<open>drop_spec\<close> gives; when it fails, the
  same prefixes are listed as before. Either way the invariant between the drop table and the
  kernel's maps holds afterwards.
\<close>

theorem drop_refines:
  assumes "bpf_kernel K view" and "ctrl_inv rel pr c (view w)" and "cidr_wf p"
    and "drop_add K c p rsn ex w = (x, c', w')"
  shows "ctrl_inv rel pr c' (view w') \<and>
    (x = 0 \<and> \<not> vg_cidr_is_protected (cfg c) p \<and> state c' = VG_ACTIVE \<and>
       drops (tab c') = drop_spec (cfg c) p rsn (fst (k_time K w)) ex (drops (tab c)) \<or>
     x = - 1 \<and> map cidr (drops (tab c')) = map cidr (drops (tab c)))"
  using bpf_kernel.drop_add_good [OF assms(1,4,2,3)] assms(2) unfolding good_def by auto

lemma ex_room: "has_room ex_ctrl (r_view ex_world) ex_net"
  using ex_ctrl_facts(4,5) defaults_ok
  by (simp add: has_room_def of_family_def r_view_def ex_world_def drop_cap_def vg_config_defaults_def)

lemma ex_drop:
  obtains c' w' where "drop_add ref_kernel ex_ctrl ex_net rsn ex ex_world = (0, c', w')"
proof -
  obtain x c' w' where d: "drop_add ref_kernel ex_ctrl ex_net rsn ex ex_world = (x, c', w')" by (metis prod_cases3)
  then show ?thesis using that refr.drop_add_live [OF ex_inv [of True True] ex_net_wf ex_net_free, of rsn ex] ex_room by simp
qed

theorem drop_refines_witness:
  "\<exists>c' w'. drop_add ref_kernel ex_ctrl ex_net VG_REASON_MANUAL 0 ex_world = (0, c', w') \<and>
     ctrl_inv True True c' (r_view w') \<and> state c' = VG_ACTIVE \<and>
     drops (tab c') = [\<lparr>cidr = ex_net, reason = VG_REASON_MANUAL, inserted = 1000, expires = 0\<rparr>]"
proof -
  obtain c' w' where d: "drop_add ref_kernel ex_ctrl ex_net VG_REASON_MANUAL 0 ex_world = (0, c', w')" by (rule ex_drop)
  have "drop_spec (cfg ex_ctrl) ex_net VG_REASON_MANUAL (fst (k_time ref_kernel ex_world)) 0 (drops (tab ex_ctrl)) =
      [\<lparr>cidr = ex_net, reason = VG_REASON_MANUAL, inserted = 1000, expires = 0\<rparr>]"
    by (simp add: drop_spec_def ex_listed ref_kernel_def ex_world_def)
  then show ?thesis
    using drop_refines [OF ref.bpf_kernel_axioms ex_inv [of True True] ex_net_wf d] d by auto
qed

text \<open>
  C11: A prefix that can be dropped is dropped: on a kernel with memory left, when neither the drop map
  of the family nor the drop table is full, dropping an unprotected prefix succeeds, arms the gate
  and leaves the prefix in the list and in the kernel's drop map.
\<close>

theorem drop_succeeds:
  assumes "bpf_kernel_room K view" and "ctrl_inv True pr c (view w)" and "cidr_wf p"
    and "\<not> vg_cidr_is_protected (cfg c) p" and "p \<in> listed c \<or> has_room c (view w) p"
  shows "\<exists>c' w'. drop_add K c p rsn ex w = (0, c', w') \<and> state c' = VG_ACTIVE \<and> p \<in> listed c' \<and>
    armed (kcfg (view w')) \<noteq> 0 \<and> cidr_key p \<in> dom (ents (view w') (drop_map (family p)))"
proof -
  have k: "bpf_kernel K view" using assms(1) by (simp add: bpf_kernel_room_def bpf_kernel_reliable_def)
  obtain x c' w' where d: "drop_add K c p rsn ex w = (x, c', w')" by (metis prod_cases3)
  have x: "x = 0" using bpf_kernel_room.drop_add_live [OF assms, of rsn ex] d by simp
  note g = bpf_kernel.drop_add_good [OF k d assms(2,3)]
  have l: "p \<in> listed c'" using g(4) x by (simp add: listed_def drop_spec_cidrs)
  have "ctrl_inv True pr c' (view w')" using g(1) assms(2) by (simp add: good_def)
  then show ?thesis using d x l g(4) by (auto simp: ctrl_inv_def synced_def)
qed

theorem drop_succeeds_witness:
  "\<exists>c' w'. drop_add ref_kernel ex_ctrl ex_net VG_REASON_TIMED 60 ex_world = (0, c', w') \<and> ex_net \<in> listed c' \<and>
     cidr_key ex_net \<in> dom (ents (r_view w') Drop_v4)"
  using drop_succeeds [OF refr.bpf_kernel_room_axioms ex_inv [of True True] ex_net_wf ex_net_free, of VG_REASON_TIMED 60] ex_room
  by (auto simp: ex_net_def drop_map_def)

text \<open>
  C21: No address of this host or of an allowed network is ever dropped: a request to drop a prefix
  that has an address in common with a protected network is refused, and neither the controller nor
  the kernel's maps change.
\<close>

theorem protected_refused:
  assumes "bpf_kernel K view" and "ctrl_inv rel pr c (view w)" and "cidr_wf p"
    and "cidr_set p \<inter> protected_set (cfg c) \<noteq> {}"
  shows "\<exists>w'. drop_add K c p rsn ex w = (- 1, c, w') \<and> view w' = view w"
proof -
  have "vg_cidr_is_protected (cfg c) p"
    using is_protected_set [of "cfg c" p] assms(2-4) wf_ok by (simp add: ctrl_inv_def ctrl_ok_def)
  moreover obtain x c' w' where d: "drop_add K c p rsn ex w = (x, c', w')" by (metis prod_cases3)
  ultimately show ?thesis using bpf_kernel.drop_add_good(3) [OF assms(1) d assms(2,3)] by auto
qed

definition ex_loopback :: vg_cidr where
  "ex_loopback = \<lparr>family = AF_INET, addr = [127, 0, 0, 1] @ replicate 12 0, prefixlen = 32\<rparr>"

theorem protected_refused_witness:
  "\<exists>w'. drop_add ref_kernel ex_ctrl ex_loopback VG_REASON_MANUAL 0 ex_world = (- 1, ex_ctrl, w') \<and> r_view w' = r_view ex_world"
proof -
  have wf: "cidr_wf ex_loopback" using parse_cidr_wf [of "''127.0.0.1/32''" ex_loopback] by code_simp
  have "any_overlap ex_loopback (parsed ''127.0.0.0/8'')" by code_simp
  then have "vg_cidr_is_protected (cfg ex_ctrl) ex_loopback"
    by (simp add: ex_ctrl_facts(3) vg_cidr_is_protected_def any_overlap_iff vg_config_defaults_def bex_Un)
  then have "cidr_set ex_loopback \<inter> protected_set (cfg ex_ctrl) \<noteq> {}"
    using is_protected_set [of "cfg ex_ctrl" ex_loopback] defaults_ok(1) wf_ok [OF wf] by (simp add: ex_ctrl_facts(3))
  then show ?thesis using protected_refused [OF ref.bpf_kernel_axioms ex_inv [of True True] wf] by blast
qed

subsection \<open>Lifting\<close>

text \<open>
  C20: Lifting a prefix refines removing it from the list. On success exactly that prefix is gone from
  the list and from the kernel's drop map; on failure nothing changed. A listed prefix is always
  lifted when the kernel can delete its entry.
\<close>

theorem undrop_refines:
  assumes "bpf_kernel_reliable K view" and "ctrl_inv rel pr c (view w)" and "cidr_wf p"
    and "vg_ctrl_undrop K c p w = (x, c', w')"
  shows "ctrl_inv rel pr c' (view w') \<and> (p \<in> listed c \<longrightarrow> x = 0) \<and>
    (x = 0 \<and> drops (tab c') = filter (\<lambda>d. cidr d \<noteq> p) (drops (tab c)) \<and>
       cidr_key p \<notin> dom (ents (view w') (drop_map (family p))) \<or>
     x = - 1 \<and> c' = c \<and> view w' = view w)"
proof -
  have k: "bpf_kernel K view" using assms(1) by (simp add: bpf_kernel_reliable_def)
  have "x = 0" if l: "p \<in> listed c"
  proof -
    have ok: "ctrl_ok pr c" using assms(2) by (simp add: ctrl_inv_def)
    obtain r where r: "drops_find (tab c) p = Some r" using find_listed [OF ok assms(3)] l by auto
    then have "r \<in> set (drop_ids (tab c))" using tab_find(1) [of "tab c" p r] ok assms(3) by (simp add: ctrl_ok_def)
    moreover obtain y c1 w1 where d: "drop_remove K c r w = (y, c1, w1)" by (metis prod_cases3)
    ultimately have "y = 0" using bpf_kernel.remove_good(5) [OF k d assms(2)] assms(1) by blast
    then show ?thesis using assms(4) r d by (simp add: vg_ctrl_undrop_def)
  qed
  then show ?thesis using bpf_kernel.undrop_good [OF k assms(4,2,3)] assms(2) unfolding good_def by blast
qed

theorem undrop_refines_witness:
  "\<exists>c w c' w'. drop_add ref_kernel ex_ctrl ex_net VG_REASON_MANUAL 0 ex_world = (0, c, w) \<and>
     length (drops (tab c)) = 1 \<and> vg_ctrl_undrop ref_kernel c ex_net w = (0, c', w') \<and> drops (tab c') = []"
proof -
  obtain c w where d: "drop_add ref_kernel ex_ctrl ex_net VG_REASON_MANUAL 0 ex_world = (0, c, w)" by (rule ex_drop)
  note g = ref.drop_add_good [OF d ex_inv [of True True] ex_net_wf]
  have ds: "map cidr (drops (tab c)) = [ex_net]" using g(4) by (simp add: drop_spec_def ex_listed)
  have inv: "ctrl_inv True True c (r_view w)" using g(1) ex_inv [of True True] by (simp add: good_def)
  obtain x c' w' where u: "vg_ctrl_undrop ref_kernel c ex_net w = (x, c', w')" by (metis prod_cases3)
  have "ex_net \<in> listed c" using arg_cong [OF ds, of set] by (simp add: listed_def)
  moreover have "length (drops (tab c)) = 1" using arg_cong [OF ds, of length] by simp
  moreover have "filter (\<lambda>d. cidr d \<noteq> ex_net) (drops (tab c)) = []" using arg_cong [OF ds, of set] by (auto simp: filter_empty_conv)
  ultimately show ?thesis
    using undrop_refines [OF ref.bpf_kernel_reliable_axioms inv ex_net_wf u] d u by auto
qed

text \<open>When a drop ends; a manual one has no end.\<close>

definition ends_at :: "vg_config \<Rightarrow> vg_drop_rec \<Rightarrow> int option" where
  "ends_at cf d =
     (if reason d = VG_REASON_MANUAL then None
      else if reason d = VG_REASON_TIMED then Some (expires d)
      else Some (inserted d + ban_time cf))"

definition in_force :: "vg_config \<Rightarrow> int \<Rightarrow> vg_drop_rec \<Rightarrow> bool" where
  "in_force cf now d = (case ends_at cf d of None \<Rightarrow> True | Some t \<Rightarrow> now < t)"

lemma expired_in_force: "expired cf now d \<longleftrightarrow> \<not> in_force cf now d"
  by (auto simp: expired_def in_force_def ends_at_def)

text \<open>
  C19: Expiry lifts exactly the drops whose time is over: every manual drop, every timed drop before its
  expiry and every policy drop younger than \<open>ban_time\<close> stays, in order, and every other one goes.
\<close>

theorem expire_exact:
  assumes "bpf_kernel_reliable K view" and "ctrl_inv rel pr c (view w)" and "expire_drops K c w = (c', w')"
  shows "ctrl_inv rel pr c' (view w') \<and>
    drops (tab c') = filter (in_force (cfg c) (fst (k_time K w))) (drops (tab c))"
proof -
  have k: "bpf_kernel K view" using assms(1) by (simp add: bpf_kernel_reliable_def)
  show ?thesis using bpf_kernel.expire_good(1,5) [OF k assms(3,2)] assms(1,2) by (simp add: good_def expired_in_force)
qed

theorem expire_exact_witness:
  "\<exists>c w c' w'. drop_add ref_kernel ex_ctrl ex_net VG_REASON_TIMED 1060 ex_world = (0, c, w) \<and>
     expire_drops ref_kernel c (w\<lparr>r_now := 1060\<rparr>) = (c', w') \<and> length (drops (tab c)) = 1 \<and> drops (tab c') = []"
proof -
  obtain c w where d: "drop_add ref_kernel ex_ctrl ex_net VG_REASON_TIMED 1060 ex_world = (0, c, w)" by (rule ex_drop)
  note g = ref.drop_add_good [OF d ex_inv [of True True] ex_net_wf]
  have ds: "drops (tab c) = [\<lparr>cidr = ex_net, reason = VG_REASON_TIMED, inserted = 1000, expires = 1060\<rparr>]"
    using g(4) by (simp add: drop_spec_def ex_listed ref_kernel_def ex_world_def)
  have "ctrl_inv True True c (r_view w)" using g(1) ex_inv [of True True] by (simp add: good_def)
  then have inv: "ctrl_inv True True c (r_view (w\<lparr>r_now := 1060\<rparr>))" by (simp add: r_view_def r_keys_def)
  obtain c' w' where e: "expire_drops ref_kernel c (w\<lparr>r_now := 1060\<rparr>) = (c', w')" by fastforce
  show ?thesis using expire_exact [OF ref.bpf_kernel_reliable_axioms inv e] d e ds
    by (auto simp: in_force_def ends_at_def ref_kernel_def)
qed

subsection \<open>Policy\<close>

context bpf_kernel
begin

text \<open>Dropping, whether it succeeds or not, keeps what is listed.\<close>

lemma drop_add_listed:
  assumes "drop_add K c p rsn ex w = (x, c', w')" "ctrl_inv rel pr c (view w)" "cidr_wf p"
  shows "listed c \<subseteq> listed c'"
proof -
  note g = drop_add_good [OF assms]
  have "x = - 1 \<Longrightarrow> listed c' = listed c" using g(5) by (metis listed_def list.set_map)
  then show ?thesis using g(2,4) by (auto simp: listed_def drop_spec_cidrs)
qed

lemma aggregate_listed:
  assumes "maybe_aggregate K c host w = (x, c', w')" "ctrl_inv rel pr c (view w)" "cidr_wf host"
  shows "listed c \<subseteq> listed c'"
proof -
  have "tab_ok (tab c)" using assms(2) by (simp add: ctrl_inv_def ctrl_ok_def)
  from maybe_aggregate_alt [OF this, of K host w] assms(1)
  consider "c' = c" | "drop_add K c (agg_net host) VG_REASON_AGGREGATE 0 w = (x, c', w')"
    by (auto simp: vg_ctrl_drop_def split: if_splits)
  then show ?thesis using drop_add_listed [OF _ assms(2) agg_net_wf [OF assms(3)]] by cases (simp, blast)
qed

end

lemma listed_snap [simp]: "listed (c\<lparr>snap := t\<rparr>) = listed c" "has_room (c\<lparr>snap := t\<rparr>) v p = has_room c v p"
  by (simp_all add: listed_def has_room_def of_family_def)

lemma room_kernel: "bpf_kernel_room K view \<Longrightarrow> bpf_kernel K view"
  by (simp add: bpf_kernel_room_def bpf_kernel_reliable_def)

text \<open>Packets and bytes in \<open>dt\<close> seconds below both thresholds, as the rates are rounded.\<close>

definition quiet :: "(real \<Rightarrow> real) \<Rightarrow> vg_config \<Rightarrow> nat \<Rightarrow> nat \<Rightarrow> real \<Rightarrow> bool" where
  "quiet fl cf pkts bs dt \<longleftrightarrow>
     fl (fl (real pkts) / dt) < fl (real (unat (threshold_pps cf))) \<and>
     fl (fl (fl (real bs) * 8) / dt) < fl (fl (real (unat (threshold_mbps cf))) * 1000000)"

text \<open>A counter that went backwards counts as no traffic, as subtraction on \<open>nat\<close> does.\<close>

lemma unat_delta: "unat (delta x y) = unat x - unat y"
  by (auto simp: delta_def unat_sub not_le word_less_nat_alt)

lemma below_quiet:
  "below_threshold fl cf (delta a p) (delta b q) dt \<longleftrightarrow> quiet fl cf (unat a - unat p) (unat b - unat q) dt"
  by (simp add: below_threshold_def quiet_def per_sec_def bits_per_sec_def as_mbps_def unat_delta)

text \<open>
  C12: The flood policy. A source seen for the first time, or one whose packet rate and bit rate since
  the last tick are both below the thresholds, causes no drop; any other unprotected source is listed
  after the tick looked at it, when there is room.
\<close>

theorem flood_dropped:
  assumes "bpf_kernel_room K view" and "ctrl_inv True pr c (view w)" and "length a = nbytes fam" and "0 < dt"
    and "\<not> vg_cidr_is_protected (cfg c) (host_cidr fam a)"
    and "host_cidr fam a \<in> listed c \<or> has_room c (view w) (host_cidr fam a)"
    and "policy_one_remote K fl dt fam a cur c w = (c', w')"
  shows "case snap_of (snap c) fam a of
      None \<Rightarrow> drops (tab c') = drops (tab c)
    | Some (p, b) \<Rightarrow>
        if quiet fl (cfg c) (unat (in_pkts cur) - unat p) (unat (in_bytes cur) - unat b) dt
        then drops (tab c') = drops (tab c) else host_cidr fam a \<in> listed c'"
proof -
  note k = room_kernel [OF assms(1)]
  obtain r cr t where g: "snap_get (snap c) fam a = (r, cr, t)" by (metis prod_cases3)
  have ok: "snap_ok (snap c)" using assms(2) by (simp add: ctrl_inv_def ctrl_ok_def)
  show ?thesis
  proof (cases "r = None \<or> cr")
    case True
    then have "snap_of (snap c) fam a = None"
      using snap_get_full(2) [OF ok] snap_get_created(1) [OF ok _ assms(3)] g by (cases r) auto
    then show ?thesis using assms(7) g True by (cases r; cases cr) (auto simp: policy_one_remote_def)
  next
    case False
    then obtain e where r: "r = Some e" "cr = False" by auto
    let ?h = "host_cidr fam a" and ?c = "c\<lparr>snap := store e (in_pkts cur) (in_bytes cur) t\<rparr>"
    have old: "snap_of (snap c) fam a = Some (s_in_pkts (snap_pool t e), s_in_bytes (snap_pool t e))"
      using snap_get_seen(1) [OF ok g [unfolded r] assms(3)] .
    have i: "ctrl_inv True pr ?c (view w)"
      using good_snap [OF snap_get_store(1) [OF ok g [unfolded r(1)] assms(3)]] assms(2) by (simp add: good_def)
    note wf = host_cidr_wf [OF assms(3)]
    obtain x c1 w1 where d0: "drop_add K ?c ?h VG_REASON_POLICY 0 w = (x, c1, w1)" by (metis prod_cases3)
    have "x = 0" using bpf_kernel_room.drop_add_live [OF assms(1) i wf, of VG_REASON_POLICY 0] assms(5,6) d0 by simp
    note d = d0 [unfolded this]
    note gd = bpf_kernel.drop_add_good [OF k d i wf]
    have i1: "ctrl_inv True pr c1 (view w1)" using gd(1) i by (simp add: good_def)
    have l1: "?h \<in> listed c1" using gd(4) by (simp add: listed_def drop_spec_cidrs)
    obtain y c2 w2 where ag: "maybe_aggregate K c1 ?h w1 = (y, c2, w2)" by (metis prod_cases3)
    have "?h \<in> listed c2" using bpf_kernel.aggregate_listed [OF k ag i1 wf] l1 by blast
    then show ?thesis using assms(4,7) g r old d ag
      by (auto simp: policy_one_remote_def vg_ctrl_drop_def Let_def below_quiet split: if_splits)
  qed
qed

text \<open>The controller of the default configuration that has seen 192.0.2.2 before.\<close>

definition ex_seen :: vg_ctrl where
  "ex_seen = ex_ctrl\<lparr>snap := ex_snap2\<rparr>"

lemma ex_seen_facts:
  "ctrl_inv rel pr ex_seen (r_view ex_world)" "cfg ex_seen = vg_config_defaults"
  "snap_of (snap ex_seen) AF_INET [192, 0, 2, 2] = Some (0, 0)"
proof -
  show "ctrl_inv rel pr ex_seen (r_view ex_world)"
    using good_snap [OF ex_snap2_ok] ex_inv unfolding ex_seen_def good_def by blast
  show "cfg ex_seen = vg_config_defaults" by (simp add: ex_seen_def ex_ctrl_facts(3))
  show "snap_of (snap ex_seen) AF_INET [192, 0, 2, 2] = Some (0, 0)"
    by (simp add: ex_seen_def snap_of_def snap_ent_def ex_hash ex_snap2_fields ex_snap1_fields ex_unfold del: One_nat_def)
qed

text \<open>The default configuration protects two IPv4 networks.\<close>

lemma defaults_free:
  assumes "family h = AF_INET" "\<not> any_overlap h (parsed ''169.254.169.254/32'')" "\<not> any_overlap h (parsed ''127.0.0.0/8'')"
  shows "\<not> vg_cidr_is_protected vg_config_defaults h"
proof -
  have "\<not> any_overlap h (parsed ''::1/128'')" "\<not> any_overlap h (parsed ''fe80::/10'')" "\<not> any_overlap h (parsed ''ff02::/16'')"
    by (rule parsed_v6_apart; simp add: assms(1))+
  then show ?thesis
    using assms(2,3) by (simp add: vg_cidr_is_protected_def any_overlap_iff vg_config_defaults_def ball_Un bex_Un)
qed

lemma ex_flooder_free: "\<not> vg_cidr_is_protected vg_config_defaults (host_cidr AF_INET [192, 0, 2, 2])"
proof -
  have "\<not> any_overlap (host_cidr AF_INET [192, 0, 2, 2]) (parsed ''169.254.169.254/32'')"
    "\<not> any_overlap (host_cidr AF_INET [192, 0, 2, 2]) (parsed ''127.0.0.0/8'')" by code_simp+
  then show ?thesis by (intro defaults_free) (simp_all add: host_cidr_def)
qed

theorem flood_dropped_witness:
  "\<exists>c w. policy_one_remote ref_kernel (\<lambda>x. x) 1 AF_INET [192, 0, 2, 2] \<lparr>in_pkts = 900, in_bytes = 57600\<rparr>
       ex_seen ex_world = (c, w) \<and> host_cidr AF_INET [192, 0, 2, 2] \<in> listed c"
proof -
  let ?cur = "\<lparr>in_pkts = 900, in_bytes = 57600\<rparr> :: host_counters" and ?h = "host_cidr AF_INET [192, 0, 2, 2]"
  obtain c w where r: "policy_one_remote ref_kernel (\<lambda>x. x) 1 AF_INET [192, 0, 2, 2] ?cur ex_seen ex_world = (c, w)" by fastforce
  have room: "has_room ex_seen (r_view ex_world) ?h"
    using ex_room by (simp add: ex_seen_def has_room_def of_family_def host_cidr_def ex_net_def)
  have "\<not> quiet (\<lambda>x. x) (cfg ex_seen) (unat (in_pkts ?cur)) (unat (in_bytes ?cur)) 1"
    by (simp add: quiet_def ex_seen_facts(2) vg_config_defaults_def)
  then show ?thesis
    using flood_dropped [OF refr.bpf_kernel_room_axioms ex_seen_facts(1) _ _ _ _ r] r room ex_flooder_free
    by (simp add: ex_seen_facts(2,3) nbytes_def)
qed

text \<open>
  C18: Aggregation. When the policy has dropped a host, its /24 or /64 becomes listed if at least
  \<open>aggregate_k\<close> of the listed prefixes lie in it, where timed drops are not counted; the network is taken
  to be unprotected, and listed already or with room for it in the maps and the table. With fewer such
  prefixes nothing changes.
\<close>

theorem aggregate_drops:
  assumes "bpf_kernel_room K view" and "ctrl_inv True pr c (view w)" and "cidr_wf host"
    and "\<not> vg_cidr_is_protected (cfg c) (agg_net host)"
    and "agg_net host \<in> listed c \<or> has_room c (view w) (agg_net host)"
    and "maybe_aggregate K c host w = (x, c', w')"
  shows "if aggregate_k (cfg c) \<le> int (agg_count (agg_net host) (drops (tab c)))
    then agg_net host \<in> listed c' else c' = c"
proof -
  note k = room_kernel [OF assms(1)]
  have "tab_ok (tab c)" using assms(2) by (simp add: ctrl_inv_def ctrl_ok_def)
  note alt = maybe_aggregate_alt [OF this, of K host w]
  note wf = agg_net_wf [OF assms(3)]
  obtain y c1 w1 where d: "drop_add K c (agg_net host) VG_REASON_AGGREGATE 0 w = (y, c1, w1)" by (metis prod_cases3)
  have "y = 0" using bpf_kernel_room.drop_add_live [OF assms(1,2) wf assms(4,5), of VG_REASON_AGGREGATE 0] d by simp
  then have "agg_net host \<in> listed c1"
    using bpf_kernel.drop_add_good(4) [OF k d assms(2) wf] by (simp add: listed_def drop_spec_cidrs)
  then show ?thesis using alt assms(6) d by (auto simp: vg_ctrl_drop_def)
qed

text \<open>Dropping changes the capacity neither of the table nor, in the reference kernel, of a map.\<close>

lemma alloc_cap: "drop_pool_cap (snd (drop_alloc t)) = drop_pool_cap t"
  by (simp add: drop_alloc_def Let_def)

lemma drop_caps:
  assumes "drop_add ref_kernel c p rsn ex w = (x, c', w')"
  shows "drop_pool_cap (tab c') = drop_pool_cap (tab c)" "r_cap w' = r_cap w"
proof -
  have r: "r_cap (snd (vg_drop_add ref_kernel p rsn n v)) = r_cap v" for n v
    by (simp add: vg_drop_add_def lpm_update_def ref_defs Let_def)
  have a: "tab (fst (snd (vg_ctrl_arm ref_kernel d v))) = tab d" "r_cap (snd (snd (vg_ctrl_arm ref_kernel d v))) = r_cap v" for d v
    by (auto simp: vg_ctrl_arm_def vg_cfg_commit_def ref_kernel_def Let_def)
  have n: "drop_pool_cap (tab (fst (snd (add_new_drop ref_kernel d p rsn ex t v)))) = drop_pool_cap (tab d)"
    "r_cap (snd (snd (add_new_drop ref_kernel d p rsn ex t v))) = r_cap v" for d t v
    using alloc_cap [of "tab d"] r [of "word_of_int t" v]
    by (auto simp: add_new_drop_def drop_link_def drop_release_def Let_def split: prod.splits option.splits)
  have o: "drop_pool_cap (tab (fst (snd (redrop ref_kernel d i p rsn ex t v)))) = drop_pool_cap (tab d)"
    "r_cap (snd (snd (redrop ref_kernel d i p rsn ex t v))) = r_cap v" for d i t v
    using r [of "word_of_int t" v] by (auto simp: redrop_def set_rec_def Let_def split: prod.splits)
  have k: "k_time ref_kernel w = (r_now w, w)" by (simp add: ref_kernel_def)
  obtain y d v where arm: "vg_ctrl_arm ref_kernel c w = (y, d, v)" by (metis prod_cases3)
  have "drop_add ref_kernel c p rsn ex w \<in> {(- 1, c, w), (- 1, d, v)} \<union> range (\<lambda>t. add_new_drop ref_kernel d p rsn ex t v) \<union>
      range (\<lambda>(i, t). redrop ref_kernel d i p rsn ex t v)"
    using arm by (auto simp: drop_add_def arm_if k image_iff split: option.split)
  then show "drop_pool_cap (tab c') = drop_pool_cap (tab c)" "r_cap w' = r_cap w"
    using assms a [of c w] arm n [of d _ v] o [of d _ _ v] by (auto, (metis fst_conv snd_conv)+)
qed

text \<open>One host of 203.0.113.0/24 dropped by the policy, where one is enough.\<close>

theorem aggregate_drops_witness:
  "\<exists>c w x c' w'. drop_add ref_kernel (ex_ctrl\<lparr>cfg := vg_config_defaults\<lparr>aggregate_k := 1\<rparr>\<rparr>) ex_host VG_REASON_POLICY 0 ex_world = (0, c, w) \<and>
     listed c = {ex_host} \<and> agg_count ex_net (drops (tab c)) = 1 \<and>
     maybe_aggregate ref_kernel c ex_host w = (x, c', w') \<and> ex_net \<in> listed c'"
proof -
  let ?cf = "vg_config_defaults\<lparr>aggregate_k := 1\<rparr>" and ?c = "ex_ctrl\<lparr>cfg := vg_config_defaults\<lparr>aggregate_k := 1\<rparr>\<rparr>"
  have net: "agg_net ex_host = ex_net" "vg_cidr_contains ex_net ex_host" "family ex_host = AF_INET" "family ex_net = AF_INET" by code_simp+
  have "config_ok ?cf" using defaults_ok(1) by (simp add: config_ok_def)
  then have inv: "ctrl_inv True False ?c (r_view ex_world)" using ref.inv_new_config [OF ex_inv [of True True]] by blast
  have wf: "cidr_wf ex_host" using parse_cidr_wf [of "''203.0.113.7''" ex_host] by code_simp
  have "\<not> any_overlap ex_host (parsed ''169.254.169.254/32'')" "\<not> any_overlap ex_host (parsed ''127.0.0.0/8'')" by code_simp+
  then have free: "\<not> vg_cidr_is_protected ?cf ex_net" "\<not> vg_cidr_is_protected ?cf ex_host"
    using ex_net_free defaults_free [OF net(3)] by (simp_all add: ex_ctrl_facts(3) is_protected_iff)
  have room: "has_room ?c (r_view ex_world) ex_host" using ex_room by (simp add: has_room_def of_family_def net)
  obtain y c w where d: "drop_add ref_kernel ?c ex_host VG_REASON_POLICY 0 ex_world = (y, c, w)" by (metis prod_cases3)
  have "y = 0" using refr.drop_add_live [OF inv wf, of VG_REASON_POLICY 0] free(2) room d by simp
  note g = ref.drop_add_good [OF d inv wf]
  have ds: "drops (tab c) = [\<lparr>cidr = ex_host, reason = VG_REASON_POLICY, inserted = 1000, expires = 0\<rparr>]"
    using g(4) \<open>y = 0\<close> by (simp add: drop_spec_def ex_listed ref_kernel_def ex_world_def)
  have i: "ctrl_inv True False c (r_view w)" "cfg c = ?cf" "r_cap w = r_cap ex_world"
    "drop_pool_cap (tab c) = drop_pool_cap (tab ex_ctrl)"
    using g(1) inv drop_caps [OF d] by (auto simp: good_def others_def)
  have "has_room c (r_view w) ex_net"
    using i(3,4) ex_ctrl_facts(4,5) by (simp add: has_room_def of_family_def ds r_view_def ex_world_def drop_cap_def vg_config_defaults_def net)
  moreover have n: "agg_count ex_net (drops (tab c)) = 1" using net(2) by (simp add: agg_count_def ds)
  moreover obtain x c' w' where r: "maybe_aggregate ref_kernel c ex_host w = (x, c', w')" by (metis prod_cases3)
  ultimately have "ex_net \<in> listed c'"
    using aggregate_drops [OF refr.bpf_kernel_room_axioms i(1) wf _ _ r] free(1) i(2) by (simp add: net(1))
  then show ?thesis using d \<open>y = 0\<close> n r by (auto simp: listed_def ds)
qed

subsection \<open>The tick\<close>

text \<open>
  C17: The periodic tick, with all it may do (reading the counters, arming, dropping floods and their
  networks, expiry, disarming), keeps the invariant: the drop table is consistent, no listed prefix
  is protected, an idle gate lists nothing, and the kernel's drop maps hold exactly the listed
  prefixes.
\<close>

theorem tick_invariant:
  assumes "bpf_kernel_reliable K view" and "ctrl_inv rel pr c (view w)"
    and "vg_ctrl_tick K fl c w = (x, c', w')"
  shows "ctrl_inv rel pr c' (view w') \<and> vg_ctrl_drops_check (tab c') = 0 \<and> cfg c' = cfg c"
proof -
  have k: "bpf_kernel K view" using assms(1) by (simp add: bpf_kernel_reliable_def)
  have g: "good rel pr c (view w) c' (view w')" using bpf_kernel.tick_good [OF k assms(3,2)] assms(1) by blast
  then have "tab_ok (tab c')" using assms(2) by (simp add: good_def ctrl_inv_def ctrl_ok_def)
  then have "vg_ctrl_drops_check (tab c') = 0" using drops_check_rep by (auto simp: tab_ok_def)
  then show ?thesis using g assms(2) by (simp add: good_def others_def)
qed

theorem tick_invariant_witness:
  "\<exists>x c w. vg_ctrl_tick ref_kernel (\<lambda>x. x) ex_ctrl ex_world = (x, c, w) \<and> ctrl_inv True True c (r_view w) \<and>
     vg_ctrl_drops_check (tab c) = 0"
proof -
  obtain x c w where t: "vg_ctrl_tick ref_kernel (\<lambda>x. x) ex_ctrl ex_world = (x, c, w)" by (metis prod_cases3)
  show ?thesis using tick_invariant [OF ref.bpf_kernel_reliable_axioms ex_inv [of True True] t] t by blast
qed

end
