(* ===== verification/CtlSpec.thy ===== *)
theory CtlSpec
  imports PolicySpec "HOL-Library.Sublist"
begin

section \<open>What the control socket promises\<close>

text \<open>
  Theorems on whole requests and connections of \<open>src/src/ctl_server.c\<close>: which expiry times are
  accepted, what \<open>ok\<close> means, what \<open>drops\<close> prints, that no client can break the invariant of the
  control plane or hold a connection for ever, and what a reload establishes.
\<close>

subsection \<open>The ttl option\<close>

abbreviation dec_step :: "int \<Rightarrow> char \<Rightarrow> int" where
  "dec_step n ch \<equiv> 10 * n + int (digit_val ch)"

lemma dec_step_mono: "0 \<le> n \<Longrightarrow> n \<le> foldl dec_step n ds"
proof (induction ds arbitrary: n)
  case (Cons ch ds)
  have "0 \<le> dec_step n ch" "n \<le> dec_step n ch" using Cons.prems by simp_all
  then show ?case using Cons.IH [of "dec_step n ch"] by simp
qed simp

lemma ttl_step:
  assumes "is_digit ch" "v \<le> VG_MAX_DROP_TTL"
  shows "uint (v * 10 + of_nat (digit_val ch) :: u32) = dec_step (uint v) ch"
    and "dec_step (uint v) ch \<le> 10 * uint VG_MAX_DROP_TTL + 9"
proof -
  have d: "digit_val ch \<le> 9" using assms(1) unfolding is_digit_def digit_val_def by linarith
  have v: "uint v \<le> 31536000" using assms(2) by (simp add: word_le_def)
  have "uint (v * 10 + of_nat (digit_val ch) :: u32) = (uint v * 10 + int (digit_val ch)) mod 2 ^ 32"
    using d by (simp add: uint_word_ariths unsigned_of_nat take_bit_eq_mod mod_add_left_eq)
  also have "\<dots> = uint v * 10 + int (digit_val ch)" using v d by (intro mod_pos_pos_trivial) simp_all
  finally show "uint (v * 10 + of_nat (digit_val ch) :: u32) = dec_step (uint v) ch" by simp
  show "dec_step (uint v) ch \<le> 10 * uint VG_MAX_DROP_TTL + 9" using v d by simp
qed

lemma ttl_loop_iff:
  assumes "uint v \<le> 10 * uint VG_MAX_DROP_TTL + 9"
  shows "ttl_loop v ds = Some r \<and> r \<le> VG_MAX_DROP_TTL \<longleftrightarrow>
    (\<forall>ch \<in> set ds. is_digit ch) \<and> foldl dec_step (uint v) ds \<le> uint VG_MAX_DROP_TTL \<and> uint r = foldl dec_step (uint v) ds"
  using assms
proof (induction ds arbitrary: v)
  case Nil
  then show ?case by (auto simp: word_le_def word_uint_eq_iff)
next
  case (Cons ch ds)
  show ?case
  proof (cases "is_digit ch \<and> v \<le> VG_MAX_DROP_TTL")
    case True
    then have "\<not> v > VG_MAX_DROP_TTL" by (simp only: not_less)
    then show ?thesis using True Cons.IH [of "v * 10 + of_nat (digit_val ch)"] ttl_step [of ch v]
      by (simp del: VG_MAX_DROP_TTL_def)
  next
    case False
    have "dec_step (uint v) ch \<le> foldl dec_step (uint v) (ch # ds)" using dec_step_mono [of "dec_step (uint v) ch" ds] by simp
    then have "\<not> v \<le> VG_MAX_DROP_TTL \<Longrightarrow> \<not> foldl dec_step (uint v) (ch # ds) \<le> uint VG_MAX_DROP_TTL"
      by (simp add: word_le_def)
    then show ?thesis using False by (auto simp: not_less simp del: VG_MAX_DROP_TTL_def)
  qed
qed

lemma ttl_value:
  "parse_ttl s = Some v \<longleftrightarrow>
     (\<exists>ds. s = ''ttl='' @ ds \<and> list_all is_digit ds \<and> dec_value ds \<in> {1..31536000} \<and> uint v = dec_value ds)"
proof -
  have ttl_len: "length ''ttl='' = 4" by simp
  have "take 4 s = ''ttl='' \<longleftrightarrow> (\<exists>ds. s = ''ttl='' @ ds)"
    using append_take_drop_id [of 4 s] by (metis append_eq_conv_conj ttl_len)
  then show ?thesis
    using ttl_loop_iff [of 0 "drop 4 s" v]
    by (auto simp: parse_ttl_def list_all_iff dec_value_def word_less_def word_le_def split: option.splits if_splits)
qed

text \<open>
  C29: The 32-bit loop of \<open>parse_ttl\<close> reads numbers of any length without wrapping: it accepts exactly
  \<open>ttl=\<close> followed by decimal digits whose value is between 1 and one year in seconds, and returns that
  value.
\<close>

theorem parse_ttl_iff:
  "parse_ttl s = Some v \<longleftrightarrow>
     (\<exists>ds. s = ''ttl='' @ ds \<and> list_all is_digit ds \<and> dec_value ds \<in> {1..31536000} \<and> uint v = dec_value ds)"
  by (rule ttl_value)

subsection \<open>The drop command\<close>

lemma ok_reply: "snprintf REPLY_SIZE (''ok'' @ [NL]) = ''ok'' @ [NL]"
  by (simp add: snprintf_def)

lemma error_reply: "take 5 s = ''error'' \<Longrightarrow> take 5 (snprintf REPLY_SIZE s) = ''error''"
  by (simp add: snprintf_def)

lemma drop_reply:
  assumes "bpf_kernel K view" and "ctrl_inv rel pr c (view w)" and "ctl_drop K c args w = (reply, c', w')"
  shows "if reply = ''ok'' @ [NL]
    then \<exists>p. vg_parse_cidr_len args (length (fst (split_at CHR '' '' args))) = Some p \<and> p \<in> listed c' \<and>
      state c' = VG_ACTIVE \<and> cidr_set p \<inter> protected_set (cfg c) = {}
    else take 5 reply = ''error'' \<and> listed c' = listed c"
  using bpf_kernel.ctl_drop_cases [OF assms(1,3)]
proof cases
  case (1 s)
  then show ?thesis using error_reply [of s] by (auto simp del: REPLY_SIZE_def)
next
  case (2 p ttl x)
  have wf: "cidr_wf p" using 2(1) by (rule parse_len_wf)
  obtain w1 rsn ex where d: "drop_add K c p rsn ex w1 = (x, c', w')" and v: "view w1 = view w"
  proof (cases "ttl = 0")
    case True
    then show ?thesis using 2(2) that [of VG_REASON_MANUAL 0 w] by (simp add: vg_ctrl_drop_def)
  next
    case False
    obtain t w1 where t: "k_time K w = (t, w1)" by fastforce
    then show ?thesis using False 2(2) that [of VG_REASON_TIMED "t + uint ttl" w1] bpf_kernel.time_step [OF assms(1) t]
      by (simp add: vg_ctrl_drop_ttl_def)
  qed
  have inv: "ctrl_inv rel pr c (view w1)" using assms(2) v by simp
  note g = bpf_kernel.drop_add_good [OF assms(1) d inv wf]
  have np: "cidr_set p \<inter> protected_set (cfg c) = {}" if "x = 0"
    using g(3) that is_protected_set [of "cfg c" p] assms(2) wf_ok [OF wf] by (auto simp: ctrl_inv_def ctrl_ok_def)
  have "x = - 1 \<Longrightarrow> listed c' = listed c" using g(5) by (metis listed_def list.set_map)
  then show ?thesis
    using g(2,4) np 2(1,3) ok_reply error_reply [of "''error: refused or map update failed'' @ [NL]"]
    by (elim disjE) (auto simp: listed_def drop_spec_cidrs simp del: REPLY_SIZE_def)
qed

text \<open>
  The answer to a drop command tells the truth. After \<open>ok\<close> the prefix that was named is listed,
  the gate is active, and the prefix has no address in a protected network; any other answer begins
  with \<open>error\<close> and leaves the listed prefixes as they were.
\<close>

theorem drop_command_reply:
  assumes "bpf_kernel K view" and "ctrl_inv rel pr c (view w)" and "ctl_drop K c args w = (reply, c', w')"
  shows "if reply = ''ok'' @ [NL]
    then \<exists>p. vg_parse_cidr_len args (length (fst (split_at CHR '' '' args))) = Some p \<and> p \<in> listed c' \<and>
      state c' = VG_ACTIVE \<and> cidr_set p \<inter> protected_set (cfg c) = {}
    else take 5 reply = ''error'' \<and> listed c' = listed c"
  by (rule drop_reply [OF assms])

theorem drop_command_reply_witness:
  "\<exists>c' w'. ctl_drop ref_kernel ex_ctrl ''203.0.113.0/24 ttl=60'' ex_world = (''ok'' @ [NL], c', w') \<and>
     ex_net \<in> listed c' \<and> state c' = VG_ACTIVE"
proof -
  have sp: "split_at CHR '' '' ''203.0.113.0/24 ttl=60'' = (''203.0.113.0/24'', Some ''ttl=60'')" by code_simp
  have p: "vg_parse_cidr_len ''203.0.113.0/24 ttl=60'' (length ''203.0.113.0/24'') = Some ex_net" by code_simp
  have t: "parse_ttl ''ttl=60'' = Some 60" by code_simp
  have k: "k_time ref_kernel ex_world = (1000, ex_world)" by (simp add: ref_kernel_def ex_world_def)
  obtain c' w' where d: "drop_add ref_kernel ex_ctrl ex_net VG_REASON_TIMED 1060 ex_world = (0, c', w')" by (rule ex_drop)
  have r: "ctl_drop ref_kernel ex_ctrl ''203.0.113.0/24 ttl=60'' ex_world = (''ok'' @ [NL], c', w')"
    unfolding ctl_drop_def sp Let_def prod.case p option.case t
    using d ok_reply by (simp add: vg_ctrl_drop_ttl_def k del: REPLY_SIZE_def)
  show ?thesis using drop_command_reply [OF ref.bpf_kernel_axioms ex_inv [of True True] r] r unfolding sp fst_conv p by auto
qed

subsection \<open>The list of drops\<close>

definition listing :: "int list \<Rightarrow> vg_drop_rec list \<Rightarrow> string" where
  "listing ts ds = concat (map2 drop_line ts ds)"

text \<open>\<open>r\<close> holds as much of \<open>full\<close> as the reply buffer takes, up to one line.\<close>

definition fills :: "string \<Rightarrow> string \<Rightarrow> bool" where
  "fills r full \<longleftrightarrow> prefix r full \<and> length r < REPLY_SIZE \<and> (r = full \<or> REPLY_SIZE \<le> length r + 80)"

lemma drops_loop_stop: "\<not> used + 80 < REPLY_SIZE \<Longrightarrow> drops_loop K fuel t l used acc w = (acc, w)"
  by (cases fuel) simp_all

lemma drops_loop_listing:
  assumes "tab_ok t" "drop_ids t = as @ ys" "length ys < fuel" "length acc < REPLY_SIZE"
  shows "\<exists>ts. length ts = length ys \<and>
    fills (fst (drops_loop K fuel t (hd (map Rec ys @ [All])) (length acc) acc w)) (acc @ listing ts (map (drop_pool t) ys))"
  using assms(2-4)
proof (induction ys arbitrary: as fuel acc w)
  case Nil
  then show ?case by (cases fuel) (simp_all add: listing_def fills_def)
next
  case (Cons y ys)
  then obtain f where f: "fuel = Suc f" by (cases fuel) auto
  obtain now w1 where t: "k_time K w = (now, w1)" by fastforce
  define line where "line = drop_line now (drop_pool t y)"
  have nx: "next (links t) (Rec y) = hd (map Rec ys @ [All])" using ids_next [OF assms(1) Cons.prems(1)] .
  show ?case
  proof (cases "length acc + 80 < REPLY_SIZE")
    case False
    then have "fst (drops_loop K fuel t (hd (map Rec (y # ys) @ [All])) (length acc) acc w) = acc"
      using drops_loop_stop by (metis fst_conv)
    then show ?thesis using False Cons.prems(3)
      by (intro exI [of _ "replicate (Suc (length ys)) 0"]) (simp add: fills_def)
  next
    case True
    let ?acc = "acc @ snprintf (REPLY_SIZE - length acc) line"
    have step: "drops_loop K fuel t (hd (map Rec (y # ys) @ [All])) (length acc) acc w =
        drops_loop K f t (hd (map Rec ys @ [All])) (length acc + length line) ?acc w1"
      using True f t nx by (simp add: line_def Let_def del: REPLY_SIZE_def)
    show ?thesis
    proof (cases "length line < REPLY_SIZE - length acc")
      case True
      then have "?acc = acc @ line" by (simp add: snprintf_def)
      moreover have "length (acc @ line) < REPLY_SIZE" using True by simp
      moreover obtain ts where "length ts = length ys"
        "fills (fst (drops_loop K f t (hd (map Rec ys @ [All])) (length (acc @ line)) (acc @ line) w1))
          ((acc @ line) @ listing ts (map (drop_pool t) ys))"
        using Cons.IH [of "as @ [y]" f "acc @ line" w1] Cons.prems f calculation(2) by auto
      ultimately show ?thesis using step by (intro exI [of _ "now # ts"]) (simp add: listing_def line_def)
    next
      case False
      then have "\<not> length acc + length line + 80 < REPLY_SIZE" by simp
      from drops_loop_stop [OF this, where K = K and w = w1] have "fst (drops_loop K fuel t (hd (map Rec (y # ys) @ [All])) (length acc) acc w) = ?acc"
        by (simp only: step fst_conv)
      moreover have "prefix ?acc (acc @ line @ r)" for r by (simp add: snprintf_def take_is_prefix prefix_order.trans [OF take_is_prefix])
      moreover have "length ?acc = REPLY_SIZE - 1" using False True by (simp add: snprintf_def)
      ultimately show ?thesis
        by (intro exI [of _ "now # replicate (length ys) 0"]) (simp add: fills_def listing_def line_def)
    qed
  qed
qed

text \<open>
  C28: \<open>drops\<close> prints the list of drops, oldest first, one line each with its reason and its age at the
  time the line is made. The answer always ends within the buffer, and it is the whole list unless
  it is within one line of filling the buffer.
\<close>

theorem drops_command_listing:
  assumes "bpf_kernel K view" and "ctrl_inv rel pr c (view w)" and "ctl_drops K c args w = (reply, c', w')"
  shows "c' = c \<and> view w' = view w \<and>
    (if drops (tab c) = [] then reply = ''(none)'' @ [NL]
     else \<exists>ts. length ts = length (drops (tab c)) \<and> fills reply (listing ts (drops (tab c))))"
proof -
  have ok: "tab_ok (tab c)" using assms(2) by (simp add: ctrl_inv_def ctrl_ok_def)
  have len: "length (drop_ids (tab c)) < Suc (unat (drop_used (tab c)))"
    using ok by (auto simp: tab_ok_def dest: tab_repD(6))
  have n: "drop_count (tab c) = 0 \<longleftrightarrow> drops (tab c) = []" using tab_facts(3) [OF ok] by simp
  show ?thesis
    using bpf_kernel.ctl_drops_same [OF assms(1,3)] assms(3) n
      drops_loop_listing [OF ok _ len, of "[]" "[]" K w] ids_first [OF ok]
    by (auto simp: ctl_drops_def drops_def snprintf_def simp del: drops_loop.simps split: prod.splits if_splits)
qed

lemma ex_dropped:
  obtains c w where "drop_add ref_kernel ex_ctrl ex_net VG_REASON_MANUAL 0 ex_world = (0, c, w)"
    "ctrl_inv True True c (r_view w)" "state c = VG_ACTIVE"
    "drops (tab c) = [\<lparr>cidr = ex_net, reason = VG_REASON_MANUAL, inserted = 1000, expires = 0\<rparr>]"
proof -
  obtain c w where d: "drop_add ref_kernel ex_ctrl ex_net VG_REASON_MANUAL 0 ex_world = (0, c, w)" by (rule ex_drop)
  note g = ref.drop_add_good [OF d ex_inv [of True True] ex_net_wf]
  show ?thesis using that d g(1,4) ex_inv [of True True]
    by (simp add: good_def drop_spec_def ex_listed ref_kernel_def ex_world_def)
qed

theorem drops_command_listing_witness:
  "\<exists>c w reply w' t. drop_add ref_kernel ex_ctrl ex_net VG_REASON_MANUAL 0 ex_world = (0, c, w) \<and>
     ctl_drops ref_kernel c [] w = (reply, c, w') \<and>
     fills reply (drop_line t \<lparr>cidr = ex_net, reason = VG_REASON_MANUAL, inserted = 1000, expires = 0\<rparr>)"
proof -
  obtain c w where d: "drop_add ref_kernel ex_ctrl ex_net VG_REASON_MANUAL 0 ex_world = (0, c, w)"
    "ctrl_inv True True c (r_view w)"
    and ds: "drops (tab c) = [\<lparr>cidr = ex_net, reason = VG_REASON_MANUAL, inserted = 1000, expires = 0\<rparr>]"
    by (rule ex_dropped)
  obtain reply c' w' where r: "ctl_drops ref_kernel c [] w = (reply, c', w')" by (metis prod_cases3)
  show ?thesis using drops_command_listing [OF ref.bpf_kernel_axioms d(2) r] d(1) r ds
    by (auto simp: listing_def length_Suc_conv)
qed

subsection \<open>Connections\<close>

lemma split_at_none_eq: "split_at ch s = (a, None) \<Longrightarrow> a = s"
  by (induction s arbitrary: a) (auto split: if_splits prod.splits)

text \<open>A connection that is read often enough comes to an end.\<close>

lemma read_request_ends:
  assumes "length req < REQ_SIZE - 1" "REQ_SIZE - 1 \<le> length req + length (filter (\<lambda>r. r \<noteq> Inl EINTR) rs)"
  shows "read_request rs req \<noteq> None"
  using assms
proof (induction rs arbitrary: req)
  case (Cons r rs)
  show ?case
  proof (cases r)
    case (Inl e)
    then show ?thesis using Cons by (cases "e = EINTR") auto
  next
    case (Inr d)
    let ?d = "take (REQ_SIZE - 1 - length req) d"
    obtain line nl where l: "split_at NL ?d = (line, nl)" by fastforce
    have ?thesis if "?d \<noteq> []" "nl = None" "length (req @ line) \<noteq> REQ_SIZE - 1"
    proof -
      have line: "line = ?d" using l that(2) split_at_none_eq by metis
      moreover have "1 \<le> length line" using that(1) unfolding line by (metis Suc_leI length_greater_0_conv One_nat_def)
      ultimately have "read_request rs (req @ line) \<noteq> None"
        using Cons.prems that Inr by (intro Cons.IH) (auto simp: min_def split: if_splits)
      then show ?thesis using Inr l that by (simp add: Let_def del: REQ_SIZE_def)
    qed
    then show ?thesis using Inr l by (cases "?d = []") (auto simp: Let_def simp del: REQ_SIZE_def)
  qed
qed simp

lemma read_rejected:
  assumes "read_request rs req = Some (Rejected s)"
  shows "s = ''error: bad command'' @ [NL] \<or> s = ''error: command too long'' @ [NL]"
  using assms
proof (induction rs arbitrary: req)
  case (Cons r rs)
  show ?case
  proof (cases r)
    case (Inl e)
    then show ?thesis using Cons by (cases "e = EINTR") simp_all
  next
    case (Inr d)
    obtain line nl where l: "split_at NL (take (REQ_SIZE - 1 - length req) d) = (line, nl)" by fastforce
    show ?thesis using Cons.prems Cons.IH [of "req @ line"] unfolding Inr read_request.simps Let_def l prod.case
      by (simp only: split: if_splits) simp_all
  qed
qed simp

lemma handle_ends:
  assumes "REQ_SIZE - 1 \<le> length (filter (\<lambda>r. r \<noteq> Inl EINTR) reads)"
  shows "vg_ctl_server_handle K H fmt0 reads sends c w \<noteq> None"
proof -
  obtain rq where "read_request reads [] = Some rq" using read_request_ends [of "[]" reads] assms by auto
  then show ?thesis by (cases rq) (auto simp: vg_ctl_server_handle_def split: prod.splits)
qed

text \<open>
  C13: No client can hold up the daemon or damage its state. Whatever is sent, and however it is cut
  into pieces, the connection is over after at most 255 reads that are not interrupted (each ends
  with data, end of file or the timeout of the socket); afterwards the invariant holds, the table
  passes the consistency check and the answer fits the buffer.
\<close>

theorem connection_safe:
  assumes "voidgate_host K view H" and "bpf_kernel_reliable K view" and "ctrl_inv rel pr c (view w)"
    and "REQ_SIZE - 1 \<le> length (filter (\<lambda>r. r \<noteq> Inl EINTR) reads)"
  shows "\<exists>sent c' w'. vg_ctl_server_handle K H fmt0 reads sends c w = Some (sent, c', w') \<and>
    ctrl_inv rel pr c' (view w') \<and> vg_ctrl_drops_check (tab c') = 0 \<and> length sent < REPLY_SIZE"
proof -
  obtain rq where rq: "read_request reads [] = Some rq" using read_request_ends [of "[]" reads] assms(4) by auto
  have len: "length (take n s) < REPLY_SIZE" if "length s < REPLY_SIZE" for n and s :: string
    using that by (metis le_less_trans length_take min.cobounded1)
  have "\<exists>sent c' w'. vg_ctl_server_handle K H fmt0 reads sends c w = Some (sent, c', w') \<and>
      ctrl_inv rel pr c' (view w') \<and> length sent < REPLY_SIZE"
  proof (cases rq)
    case Closed
    then show ?thesis using rq assms(3) by (simp add: vg_ctl_server_handle_def)
  next
    case (Rejected s)
    have "length s < REPLY_SIZE" using read_rejected [of reads "[]" s] rq Rejected by auto
    then show ?thesis using rq Rejected assms(3) len by (simp add: vg_ctl_server_handle_def del: REPLY_SIZE_def)
  next
    case (Line req)
    obtain reply c1 w1 where r: "run_request K H fmt0 req c w = (reply, c1, w1)" by (metis prod_cases3)
    have "ctrl_inv rel pr c1 (view w1)" "length reply < REPLY_SIZE"
      using voidgate_host.request_inv [OF assms(1) r assms(3)] assms(2) by blast+
    then show ?thesis using rq Line r len by (simp add: vg_ctl_server_handle_def del: REPLY_SIZE_def)
  qed
  moreover have "ctrl_inv rel pr c' v \<Longrightarrow> vg_ctrl_drops_check (tab c') = 0" for c' v
    using drops_check_rep by (auto simp: ctrl_inv_def ctrl_ok_def tab_ok_def)
  ultimately show ?thesis by blast
qed

theorem connection_safe_witness:
  "\<exists>sent c w. vg_ctl_server_handle ref_kernel (ref_host (\<lambda>_. None) None) (\<lambda>_. ''0'')
      ([Inr ''drop 203.0'', Inl EINTR, Inr (''.113.0/24'' @ [NL])] @ replicate 255 (Inl EWOULDBLOCK)) [] ex_ctrl ex_world =
      Some (sent, c, w) \<and> ctrl_inv True True c (r_view w) \<and> vg_ctrl_drops_check (tab c) = 0"
proof -
  have "REQ_SIZE - 1 \<le> length (filter (\<lambda>r. r \<noteq> Inl EINTR)
      ([Inr ''drop 203.0'', Inl EINTR, Inr (''.113.0/24'' @ [NL])] @ replicate 255 (Inl EWOULDBLOCK)))"
    by simp
  from connection_safe [OF refh.voidgate_host_axioms ref.bpf_kernel_reliable_axioms ex_inv [of True True] this]
  show ?thesis by blast
qed

subsection \<open>Reload\<close>

text \<open>
  C22: After a successful reload no listed prefix has an address in a network the new configuration
  protects, the data plane is armed exactly when the gate is active, and the settings that cannot
  change at run time (the sizes of the maps among them) are those of before.
\<close>

theorem reload_protects:
  assumes "voidgate_host K view H" and "bpf_kernel_reliable K view" and "ctrl_inv rel pr c (view w)"
    and "vg_ctrl_reload K H c w = (0, c', w')"
  shows "ctrl_inv rel True c' (view w') \<and> (\<forall>p \<in> listed c'. cidr_set p \<inter> protected_set (cfg c') = {}) \<and>
    (state c' = VG_ACTIVE \<longleftrightarrow> armed (kcfg (view w')) \<noteq> 0) \<and> maps c' = maps c"
proof -
  note i = voidgate_host.reload_inv [OF assms(1,4,3)]
  have inv: "ctrl_inv rel True c' (view w')" using i(2) assms(2) by blast
  then have "cidr_set p \<inter> protected_set (cfg c') = {}" if "p \<in> listed c'" for p
    using that is_protected_set [of "cfg c'" p] wf_ok [OF listed_wf [OF _ that]]
    by (auto simp: ctrl_inv_def ctrl_ok_def)
  then show ?thesis using inv i(3) by (auto simp: ctrl_inv_def synced_def)
qed

lemma init_fields:
  assumes "vg_ctrl_init mem cf m path ifc = Some (Some c)"
  shows "maps c = m" "cfg_path c = take (VG_CFG_PATH_MAX - 1) path" "iface_override c = take (VG_MAX_IFACE - 1) ifc"
  using assms by (auto simp: vg_ctrl_init_def Let_def split: option.splits prod.splits if_splits)

text \<open>A network is dropped by hand; then the interface gets an address in it and the daemon reloads.\<close>

theorem reload_protects_witness:
  "\<exists>c w c' w'. drop_add ref_kernel ex_ctrl ex_net VG_REASON_MANUAL 0 ex_world = (0, c, w) \<and> ex_net \<in> listed c \<and>
     vg_ctrl_reload ref_kernel (ref_host (\<lambda>_. None) (Some ex_ifs)) c w = (0, c', w') \<and> ex_net \<notin> listed c' \<and>
     ctrl_inv True True c' (r_view w') \<and> maps c' = ex_maps"
proof -
  let ?H = "ref_host (\<lambda>_. None) (Some ex_ifs)" and ?n = "vg_config_defaults\<lparr>local_cidr := [ex_host]\<rparr>"
  obtain c w where d: "drop_add ref_kernel ex_ctrl ex_net VG_REASON_MANUAL 0 ex_world = (0, c, w)" by (rule ex_drop)
  note g = ref.drop_add_good [OF d ex_inv [of True True] ex_net_wf] and f = init_fields [OF ex_ctrl_init]
  have inv: "ctrl_inv True True c (r_view w)" and c: "cfg c = vg_config_defaults" "maps c = ex_maps" "cfg_path c \<noteq> []" "iface_override c = []"
    using g(1) ex_inv [of True True] f ex_ctrl_facts(3) by (simp_all add: good_def others_def)
  have l: "ex_net \<in> listed c" using g(4) by (simp add: listed_def drop_spec_cidrs)
  have kept: "kept_config c vg_config_defaults = vg_config_defaults"
    using c by (simp add: kept_config_def Let_def snprintf_def vg_config_defaults_def)
  have load: "vg_config_load None = Some vg_config_defaults" "auto_local vg_config_defaults"
    by (simp_all add: vg_config_load_def vg_config_defaults_def)
  obtain k c2 w2 where p: "vg_ctrl_prune_protected ref_kernel (c\<lparr>cfg := ?n\<rparr>) w = (k, c2, w2)" by (metis prod_cases3)
  obtain w3 where e: "vg_cfg_commit ref_kernel (if state c2 = VG_ACTIVE then 1 else 0) (cfg c2) w2 = (None, w3)"
    by (simp add: vg_cfg_commit_def ref_kernel_def)
  have "config_ok ?n" using auto_local_ok [OF ex_auto_local(2) defaults_ok(1)] ex_auto_local(3) by simp
  then have "ctrl_inv True False (c\<lparr>cfg := ?n\<rparr>) (r_view w)" using ref.inv_new_config [OF inv] by blast
  from ref.prune_good(1) [OF p this] have n: "cfg c2 = ?n" by (simp add: good_def others_def)
  obtain w4 where r: "vg_ctrl_reload ref_kernel ?H c w = (0, c2, w4)"
    using c(3) by (simp add: vg_ctrl_reload_def ref_host_def load kept ex_auto_local(2,3) p e)
  note t = reload_protects [OF refh.voidgate_host_axioms ref.bpf_kernel_reliable_axioms inv r]
  have "cidr_set ex_net \<inter> protected_set (cfg c2) \<noteq> {}" using ex_overlap by (auto simp: n protected_set_def)
  then have "ex_net \<notin> listed c2" using t by blast
  then show ?thesis using d l r t c(2)
    by (intro exI [of _ c] exI [of _ w] exI [of _ c2] exI [of _ w4]) simp
qed

end
