(* ===== verification/DaemonSpec.thy ===== *)
theory DaemonSpec
  imports Daemon CtlSpec
begin

section \<open>What the daemon promises\<close>

text \<open>
  The daemon as a transition system: between the steps of the event loop (a connection on the
  control socket, the tick) the world may change in anything but the maps that only the daemon
  writes. Every run of the loop is a sequence of these steps, so the invariant of the control plane
  holds in every state the daemon reaches. Start-up, shutdown and \<open>-s stop\<close> follow.
\<close>

inductive sys_step ::
  "'w kern \<Rightarrow> ('w \<Rightarrow> kview) \<Rightarrow> 'w host \<Rightarrow> (real \<Rightarrow> real) \<Rightarrow> (real \<Rightarrow> string) \<Rightarrow> vg_ctrl \<times> 'w \<Rightarrow> vg_ctrl \<times> 'w \<Rightarrow> bool"
  for K view H fl fmt0 where
  sys_conn: "vg_ctl_server_handle K H fmt0 reads sends c w = Some (sent, c', w') \<Longrightarrow>
    sys_step K view H fl fmt0 (c, w) (c', w')"
| sys_tick: "vg_ctrl_tick K fl c w = (x, c', w') \<Longrightarrow> sys_step K view H fl fmt0 (c, w) (c', w')"
| sys_env: "view w' = view w \<Longrightarrow> sys_step K view H fl fmt0 (c, w) (c, w')"

inductive_cases sys_stepE [elim]: "sys_step K view H fl fmt0 s t"

text \<open>The states of the running daemon, from a controller that was just set up.\<close>

inductive sys_reach ::
  "'w kern \<Rightarrow> ('w \<Rightarrow> kview) \<Rightarrow> 'w host \<Rightarrow> (real \<Rightarrow> real) \<Rightarrow> (real \<Rightarrow> string) \<Rightarrow> vg_ctrl \<times> 'w \<Rightarrow> bool"
  for K view H fl fmt0 where
  reach_init: "vg_ctrl_init mem cf m path ifc = Some (Some c) \<Longrightarrow> config_ok cf \<Longrightarrow> keys_ok (view w) \<Longrightarrow>
    armed (kcfg (view w)) = 0 \<Longrightarrow> ents (view w) Drop_v4 = Map.empty \<Longrightarrow> ents (view w) Drop_v6 = Map.empty \<Longrightarrow>
    sys_reach K view H fl fmt0 (c, w)"
| reach_step: "sys_reach K view H fl fmt0 s \<Longrightarrow> sys_step K view H fl fmt0 s t \<Longrightarrow> sys_reach K view H fl fmt0 t"

context voidgate_host
begin

lemma step_inv:
  assumes "sys_step K view H fl fmt0 s t" "ctrl_inv rel pr (fst s) (view (snd s))" "bpf_kernel_reliable K view"
  shows "ctrl_inv rel pr (fst t) (view (snd t))"
  using assms(1)
proof cases
  case (sys_conn reads sends c w sent c' w')
  then show ?thesis using handle_inv [OF sys_conn(3)] assms(2,3) by simp
next
  case (sys_tick c w x c' w')
  then show ?thesis using tick_good [OF sys_tick(3), of rel pr] assms(2,3) by (simp add: good_def)
next
  case (sys_env w' w c)
  then show ?thesis using assms(2) by simp
qed

lemma init_inv:
  assumes "vg_ctrl_init mem cf m path ifc = Some (Some c)" "config_ok cf" "keys_ok v"
    "armed (kcfg v) = 0" "ents v Drop_v4 = Map.empty" "ents v Drop_v6 = Map.empty"
  shows "ctrl_inv rel pr c v"
proof -
  have "ents v (drop_map f) = Map.empty" for f using assms(5,6) drop_map_cases [of f] by auto
  then show ?thesis using config_ctrl_ok [OF assms(1,2)] assms(3,4) by (simp add: ctrl_inv_def synced_def)
qed

lemma reach_inv:
  assumes "sys_reach K view H fl fmt0 s" "bpf_kernel_reliable K view"
  shows "ctrl_inv True True (fst s) (view (snd s))"
  using assms(1)
proof (induction rule: sys_reach.induct)
  case (reach_init mem cf m path ifc c w)
  then show ?case using init_inv by simp
next
  case (reach_step s t)
  then show ?case using step_inv assms(2) by blast
qed

lemma steps_inv:
  assumes "(sys_step K view H fl fmt0)\<^sup>*\<^sup>* s t" "ctrl_inv rel pr (fst s) (view (snd s))" "bpf_kernel_reliable K view"
  shows "ctrl_inv rel pr (fst t) (view (snd t))"
  using assms by (induction rule: rtranclp_induct) (simp_all add: step_inv)

subsection \<open>The loop runs steps\<close>

lemma env_steps: "view w' = view w \<Longrightarrow> (sys_step K view H fl fmt0)\<^sup>*\<^sup>* (c, w) (c, w')"
  by (intro r_into_rtranclp sys_env)

lemma http_view: "vg_http_handle K fmt0 d c w = (sent, w') \<Longrightarrow> view w' = view w"
  using metrics_read_view [of "maps c" w]
  by (auto simp: vg_http_handle_def Let_def split: option.splits if_splits prod.splits)

lemma serve_steps:
  "serve_loop K H fmt0 ctl_fd rd fds c w = Some (c', w') \<Longrightarrow> (sys_step K view H fl fmt0)\<^sup>*\<^sup>* (c, w) (c', w')"
proof (induction fds arbitrary: c w)
  case (Cons fd fds)
  show ?case
  proof (cases "rd_ready rd fd \<and> \<not> rd_accept rd fd < 0")
    case True
    show ?thesis
    proof (cases "fd = ctl_fd")
      case True
      then obtain sent c1 w1 where h: "vg_ctl_server_handle K H fmt0 (rd_reads rd) (rd_sends rd) c w = Some (sent, c1, w1)"
        using Cons.prems \<open>rd_ready rd fd \<and> _\<close> by (auto split: option.splits)
      then have "(sys_step K view H fl fmt0)\<^sup>*\<^sup>* (c1, w1) (c', w')"
        using Cons True \<open>rd_ready rd fd \<and> _\<close> by simp
      moreover have "sys_step K view H fl fmt0 (c, w) (c1, w1)" by (rule sys_conn [OF h])
      ultimately show ?thesis by (rule converse_rtranclp_into_rtranclp [rotated])
    next
      case False
      obtain sent w1 where h: "vg_http_handle K fmt0 (rd_http rd) c w = (sent, w1)" by fastforce
      then have "(sys_step K view H fl fmt0)\<^sup>*\<^sup>* (c, w1) (c', w')"
        using Cons False \<open>rd_ready rd fd \<and> _\<close> by simp
      moreover have "sys_step K view H fl fmt0 (c, w) (c, w1)" by (rule sys_env) (rule http_view [OF h])
      ultimately show ?thesis by (rule converse_rtranclp_into_rtranclp [rotated])
    qed
  next
    case False
    then have "serve_loop K H fmt0 ctl_fd rd fds c w = Some (c', w')" using Cons.prems by (auto split: if_splits)
    then show ?thesis by (rule Cons.IH)
  qed
qed simp

lemma round_steps:
  assumes "main_round K H fl fmt0 ctl_fd http_fd rd c lt w = Some (go, c', lt', w')"
  shows "(sys_step K view H fl fmt0)\<^sup>*\<^sup>* (c, w) (c', w')"
proof -
  obtain now w1 where m: "k_monotonic K w = (now, w1)" by fastforce
  have s1: "(sys_step K view H fl fmt0)\<^sup>*\<^sup>* (c, w) (c, w1)" using env_steps monotonic_view [of w] m by simp
  show ?thesis
  proof (cases "rd_poll rd (wait_ms (cfg c) now lt)")
    case (Inl e)
    then show ?thesis using assms m s1 by (auto simp: main_round_def split: if_splits)
  next
    case (Inr pr)
    obtain c2 w2 where sv: "(if pr > 0 then serve_loop K H fmt0 ctl_fd rd (poll_fds ctl_fd http_fd) c w1 else Some (c, w1)) = Some (c2, w2)"
      using assms m Inr by (auto simp: main_round_def split: option.splits)
    then have s2: "(sys_step K view H fl fmt0)\<^sup>*\<^sup>* (c, w1) (c2, w2)" using serve_steps by (auto split: if_splits)
    obtain now2 w3 where m2: "k_monotonic K w2 = (now2, w3)" by fastforce
    have s3: "(sys_step K view H fl fmt0)\<^sup>*\<^sup>* (c2, w2) (c2, w3)" using env_steps monotonic_view [of w2] m2 by simp
    obtain x c4 w4 where t: "vg_ctrl_tick K fl c2 w3 = (x, c4, w4)" by (metis prod_cases3)
    have "(c', w') = (c2, w3) \<or> (c', w') = (c4, w4)"
      using assms unfolding main_round_def Let_def m prod.case Inr sum.case sv option.case m2 t by (auto split: if_splits)
    then show ?thesis using rtranclp_trans [OF s1 rtranclp_trans [OF s2 s3]] sys_tick [OF t] by (auto intro: rtranclp.rtrancl_into_rtrancl)
  qed
qed

lemma loop_steps:
  "main_loop K H fl fmt0 ctl_fd http_fd rds c lt w = Some (c', lt', w') \<Longrightarrow> (sys_step K view H fl fmt0)\<^sup>*\<^sup>* (c, w) (c', w')"
proof (induction rds arbitrary: c lt w)
  case (Cons rd rds)
  then obtain go c1 lt1 w1 where r: "main_round K H fl fmt0 ctl_fd http_fd rd c lt w = Some (go, c1, lt1, w1)"
    by (auto split: option.splits)
  show ?case using Cons round_steps [OF r] r by (cases go) (auto intro: rtranclp_trans)
qed simp

end

subsection \<open>The map handle stays\<close>

context voidgate_host
begin

lemma drop_maps:
  assumes "ctl_drop K c args w = (reply, c', w')" "ctrl_inv rel pr c (view w)"
  shows "maps c' = maps c"
  using assms(1)
proof (cases rule: ctl_drop_cases)
  case (2 p ttl x)
  have wf: "cidr_wf p" using 2(1) by (rule parse_len_wf)
  obtain t w1 where t: "k_time K w = (t, w1)" by fastforce
  have inv: "ctrl_inv rel pr c (view w1)" using assms(2) time_step [OF t] by simp
  have g: "maps c2 = maps c" if "drop_add K c p rsn ex v = (y, c2, w2)" "v = w \<or> v = w1" for rsn ex v y c2 w2
    using drop_add_good(1) [OF that(1) _ wf, of rel pr] that(2) inv assms(2) by (auto simp: good_def others_def)
  show ?thesis using 2(2) g t by (auto simp: vg_ctrl_drop_def vg_ctrl_drop_ttl_def split: if_splits)
qed simp

lemma undrop_maps:
  assumes "ctl_undrop K c args w = (reply, c', w')" "ctrl_inv rel pr c (view w)"
  shows "maps c' = maps c"
proof (cases "vg_parse_cidr args")
  case None
  then show ?thesis using assms by (simp add: ctl_undrop_def)
next
  case (Some p)
  obtain x c1 w1 where d: "vg_ctrl_undrop K c p w = (x, c1, w1)" by (metis prod_cases3)
  show ?thesis using assms Some d undrop_good(1) [OF d assms(2) parse_cidr_wf [OF Some]]
    by (simp add: ctl_undrop_def good_def others_def)
qed

lemma command_maps:
  assumes "(name, pf, h) \<in> set (vg_ctl_commands K H fmt0)" "h c args w = (reply, c', w')"
    "ctrl_inv rel pr c (view w)" "bpf_kernel_reliable K view"
  shows "maps c' = maps c"
proof -
  obtain x c1 w1 where arm: "vg_ctrl_arm K c w = (x, c1, w1)" by (metis prod_cases3)
  obtain y c2 w2 where dis: "vg_ctrl_disarm K c w = (y, c2, w2)" by (metis prod_cases3)
  obtain z c3 w3 where rel: "vg_ctrl_reload K H c w = (z, c3, w3)" by (metis prod_cases3)
  have m: "maps c1 = maps c" "maps c2 = maps c" "maps c3 = maps c"
    using arm_good(1) [OF arm, of rel pr] disarm_good(1) [OF dis _ assms(3)] assms(4) reload_inv(3) [OF rel assms(3)]
    by (simp_all add: good_def others_def)
  consider "h = ctl_status fmt0" | "h = ctl_stats K fmt0" | "h = ctl_drops K" | "h = ctl_arm K" | "h = ctl_disarm K"
    | "h = ctl_drop K" | "h = ctl_undrop K" | "h = ctl_reload K H"
    using assms(1) by (auto simp: vg_ctl_commands_def)
  then show ?thesis using assms(2) m arm dis rel
  proof cases
    case 3
    then show ?thesis using assms(2) ctl_drops_same by metis
  next
    case 6
    then show ?thesis using assms(2,3) drop_maps by metis
  next
    case 7
    then show ?thesis using assms(2,3) undrop_maps by metis
  qed (auto simp: ctl_status_def ctl_stats_def ctl_arm_def ctl_disarm_def ctl_reload_def split: prod.splits option.splits)
qed

lemma handle_maps:
  assumes "vg_ctl_server_handle K H fmt0 reads sends c w = Some (sent, c', w')" "ctrl_inv rel pr c (view w)"
    "bpf_kernel_reliable K view"
  shows "maps c' = maps c"
proof -
  have "maps (fst (snd (run_request K H fmt0 req c w))) = maps c" for req
  proof (cases "find (command_matches req) (vg_ctl_commands K H fmt0)")
    case (Some cmd)
    obtain name pf h where cmd: "cmd = (name, pf, h)" by (metis prod_cases3)
    have "(name, pf, h) \<in> set (vg_ctl_commands K H fmt0)" using Some cmd by (auto simp: find_Some_iff)
    from command_maps [OF this _ assms(2,3)] show ?thesis using Some cmd
      by (simp add: run_request_def) (metis prod.exhaust_sel)
  qed (simp add: run_request_def)
  then show ?thesis using assms(1)
    by (auto simp: vg_ctl_server_handle_def split: option.splits request.splits prod.splits) (metis fst_conv snd_conv)
qed

lemma steps_maps:
  assumes "(sys_step K view H fl fmt0)\<^sup>*\<^sup>* s t" "ctrl_inv rel pr (fst s) (view (snd s))" "bpf_kernel_reliable K view"
  shows "maps (fst t) = maps (fst s)"
  using assms(1)
proof (induction rule: rtranclp_induct)
  case (step t u)
  have inv: "ctrl_inv rel pr (fst t) (view (snd t))" using steps_inv [OF step(1) assms(2,3)] .
  have "maps (fst u) = maps (fst t)"
    using step(2)
  proof cases
    case (sys_conn reads sends c w sent c' w')
    then show ?thesis using handle_maps [OF sys_conn(3)] inv assms(3) by simp
  next
    case (sys_tick c w x c' w')
    then show ?thesis using tick_good [OF sys_tick(3), of rel pr] inv assms(3) by (simp add: good_def others_def)
  qed simp
  then show ?case using step by simp
qed simp

end

subsection \<open>Start-up\<close>

lemma detach_off: "attached m \<Longrightarrow> nic = Some (attach_flags m) \<Longrightarrow> b_detach S = 0 \<Longrightarrow> snd (vg_maps_close S m nic) = None"
  by (simp add: vg_maps_close_def vg_xdp_detach_def Let_def)

lemma detach_result:
  "attached m \<Longrightarrow> nic = Some (attach_flags m) \<Longrightarrow> snd (vg_maps_close S m nic) = (if b_detach S = 0 then None else nic)"
  by (simp add: vg_maps_close_def vg_xdp_detach_def Let_def)

lemma detach_none: "snd (vg_maps_close S m None) = None"
  by (simp add: vg_maps_close_def vg_xdp_detach_def Let_def)

lemma open_detached: "vg_maps_open S cf = Some (m, sz) \<Longrightarrow> \<not> attached m \<and> skel m"
  by (auto simp: vg_maps_open_def Let_def split: if_splits)

lemma attach_cases:
  assumes "vg_xdp_attach S cf m nic = (rc, m', nic')" "\<not> attached m"
  shows "rc < 0 \<and> m' = m \<and> nic' = nic \<or> rc = 0 \<and> attached m' \<and> nic' = Some (attach_flags m')"
  using assms by (auto simp: vg_xdp_attach_def Let_def split: if_splits prod.splits)

text \<open>How loading ends: without the program on the interface, or with it in \<open>main_serve\<close>.\<close>

context bpf_kernel
begin

lemma load_cases:
  assumes run: "main_load K B op cf ready_fd s = Some r" and cf: "config_ok cf" and k: "keys_ok (view (m_w s))"
    and nic: "m_nic s = None"
  obtains n s' where "r = Inl (n, s')" "b_detach (bt_bpf B) = 0 \<Longrightarrow> m_nic s' = None"
  | c s' where "r = main_serve B c ready_fd s'" "attached (maps c)" "m_nic s' = Some (attach_flags (maps c))"
      "cfg c = cf" "state c = VG_IDLE" "\<And>rel pr. ents (view (m_w s)) Drop_v4 = Map.empty \<Longrightarrow>
        ents (view (m_w s)) Drop_v6 = Map.empty \<Longrightarrow> ctrl_inv rel pr c (view (m_w s'))"
proof (cases "vg_maps_open (bt_bpf B) cf")
  case None
  then show ?thesis using run that(1) [of 1 s] nic by (simp add: main_load_def)
next
  case (Some ms)
  obtain m sz where ms: "ms = (m, sz)" by fastforce
  let ?w2 = "vg_populate_local K cf (vg_populate_allow K cf (m_w s))"
  obtain e w3 where e: "vg_cfg_commit K 0 cf ?w2 = (e, w3)" by fastforce
  obtain rc m4 nic4 where a: "vg_xdp_attach (bt_bpf B) cf m (m_nic s) = (rc, m4, nic4)" by (metis prod_cases3)
  note at = attach_cases [OF a] and op = open_detached [of "bt_bpf B" cf m sz]
  note st = run [unfolded main_load_def Some ms option.case prod.case Let_def e]
  show ?thesis
  proof (cases "e = None \<and> rc = 0")
    case False
    have off: "\<exists>n s'. die_closed B m' s1 = (n, s') \<and> m_nic s' = None" if "m_nic s1 = None" for m' and s1 :: "'w machine"
      using that detach_none by (simp add: die_closed_def)
    have "r = Inl (die_closed B m (s\<lparr>m_w := w3\<rparr>)) \<or> r = Inl (die_closed B m4 (s\<lparr>m_w := w3, m_nic := nic4\<rparr>)) \<and> nic4 = None"
      using False st a at op nic Some ms by (cases e) (auto split: if_splits)
    then show ?thesis
      using off [of "s\<lparr>m_w := w3\<rparr>" m] off [of "s\<lparr>m_w := w3, m_nic := nic4\<rparr>" m4] that(1) nic by auto
  next
    case True
    let ?s = "s\<lparr>m_w := w3, m_nic := nic4\<rparr>" and ?i = "vg_ctrl_init (bt_mem B) cf m4 (o_cfg_path op) (case o_iface op of None \<Rightarrow> [] | Some i \<Rightarrow> i)"
    have on: "attached m4" "nic4 = Some (attach_flags m4)" using at op Some ms True by auto
    have v: "view w3 = (view ?w2)\<lparr>kcfg := mk_cfg 0 cf\<rparr>" using commit_view [OF e] True by simp
    have r: "r = (case the ?i of None \<Rightarrow> Inl (die_closed B m4 ?s) | Some c \<Rightarrow> main_serve B c ready_fd ?s)" "?i \<noteq> None"
      using st a True by (auto split: option.splits)
    show ?thesis
    proof (cases "the ?i")
      case None
      then show ?thesis using r that(1) detach_off [OF on] by (simp add: die_closed_def)
    next
      case (Some c)
      then have i: "?i = Some (Some c)" using r(2) by auto
      note p = populate_config [OF k cf]
      have "ctrl_inv rel pr c (view w3)" if "ents (view (m_w s)) Drop_v4 = Map.empty" "ents (view (m_w s)) Drop_v6 = Map.empty" for rel pr
      proof -
        have "ents (view w3) (drop_map f) = Map.empty" for f using p(3) [of f] that drop_map_cases [of f] v by auto
        moreover have "keys_ok (view w3)" using p(1) v by (simp add: keys_ok_def)
        ultimately show ?thesis using config_ctrl_ok [OF i cf] v by (simp add: ctrl_inv_def synced_def)
      qed
      then show ?thesis using that(2) [of c ?s] r Some on init_fields(1) [OF i] config_ctrl_ok(2,3) [OF i cf] by simp
    qed
  qed
qed

end

text \<open>The system takes the whole pid.\<close>

definition pid_written :: "boot_sys \<Rightarrow> bool" where
  "pid_written B \<longleftrightarrow> bt_trunc B \<ge> 0 \<and> bt_pwrite B = int (length (dec_string (bt_pid B) @ [NL]))"

lemma unlink_pid_fields [simp]:
  "m_nic (unlink_pid B s) = m_nic s" "m_sock (unlink_pid B s) = m_sock s" "m_w (unlink_pid B s) = m_w s"
  "m_pid (unlink_pid B s) = (if bt_unlink_pid B < 0 then m_pid s else None)"
  by (simp_all add: unlink_pid_def)

lemma serve_cases:
  "main_serve B c fd s = Inl (n, s') \<Longrightarrow> \<not> pid_written B \<and> m_nic s' = m_nic s"
  "main_serve B c fd s = Inr d \<Longrightarrow> d_ctrl d = c \<and> m_nic d = m_nic s \<and> m_w d = m_w s \<and>
     m_pid d = Some (dec_string (bt_pid B) @ [NL])"
  by (auto simp: main_serve_def write_pidfile_def pid_written_def Let_def split: prod.splits if_splits)

context voidgate_host
begin

lemma prepare_cases:
  assumes run: "main_prepare K H B op cf pid_fd s = Some r" and cf: "config_ok cf"
  obtains n s' where "r = Inl (n, s')" "m_nic s' = m_nic s"
  | cf' fd s1 where "main_load K B op cf' fd s1 = Some r" "config_ok cf'" "view (m_w s1) = view (m_w s)" "m_nic s1 = m_nic s"
proof -
  let ?cf = "case o_iface op of None \<Rightarrow> cf | Some i \<Rightarrow> cf\<lparr>interface := snprintf VG_MAX_IFACE i\<rparr>"
  obtain sock conn where al: "bt_alive B = (sock, conn)" by fastforce
  obtain ifs w where i: "(if auto_local ?cf then h_ifaddrs H (m_w s) else (None, m_w s)) = (ifs, w)" by fastforce
  have v: "view w = view (m_w s)" and ok: "\<And>ps. ifs = Some ps \<Longrightarrow> ifaddrs_ok ps"
    using i ifaddrs_view [of "m_w s"] ifaddrs_len [of "m_w s"] by (auto split: if_splits)
  have c: "config_ok ?cf" using cf by (auto simp: config_ok_def split: option.splits)
  note st = run [unfolded main_prepare_def al prod.case Let_def i]
  show ?thesis
  proof (cases "fst (vg_ctl_server_alive sock conn [pid_fd]) \<or> b_ifindex (bt_bpf B) (interface ?cf) = 0")
    case True
    then show ?thesis using st that(1) [of 1 "unlink_pid B s"] that(1) [of 1 s] by (auto split: if_splits)
  next
    case False
    show ?thesis
    proof (cases "vg_config_auto_local ifs ?cf")
      case None
      then show ?thesis using st False that(1) [of 1 "s\<lparr>m_w := w\<rparr>"] by simp
    next
      case (Some cf')
      note cf' = auto_local_ok [OF Some c ok]
      show ?thesis
      proof (cases "bt_log_fd B < 0 \<or> (\<exists>n. main_background B op = Some (Inl n))")
        case True
        then show ?thesis using st False Some that(1) [of _ "s\<lparr>m_w := w\<rparr>"] by (auto split: if_splits)
      next
        case bg: False
        then obtain fd where "main_background B op = Some (Inr fd)"
          using st False Some by (auto split: option.splits sum.splits)
        then show ?thesis using st False Some bg v cf' that(2) [of cf' fd "s\<lparr>m_w := w\<rparr>"] by simp
      qed
    qed
  qed
qed

lemma start_cases:
  assumes run: "main_start K H B opts s = Some r"
  obtains n s' where "r = Inl (n, s')" "m_nic s' = m_nic s"
  | op cf fd s1 where "main_load K B op cf fd s1 = Some r" "config_ok cf" "view (m_w s1) = view (m_w s)"
      "m_nic s1 = m_nic s" "bt_flock B = None"
proof (cases "options_loop opts default_options")
  case None
  then show ?thesis using run that(1) [of 1 s] by (simp add: main_start_def)
next
  case (Some op)
  obtain f w where f: "h_config H (o_cfg_path op) (m_w s) = (f, w)" by fastforce
  have v: "view w = view (m_w s)" using config_view [of "o_cfg_path op" "m_w s"] f by simp
  note st = run [unfolded main_start_def Some option.case f prod.case Let_def]
  show ?thesis
  proof (cases "vg_config_load f")
    case None
    then show ?thesis using st that(1) [of 1 "s\<lparr>m_w := w\<rparr>"] by simp
  next
    case (Some cf)
    have cf: "config_ok cf" using load_config_fits [OF Some] by (simp add: config_fits_def)
    have "\<exists>n s'. r = Inl (n, s') \<and> m_nic s' = m_nic s" if "o_stop op \<or> (\<exists>n. pid_lock (bt_pid_fd B) (bt_flock B) = Inl n)"
      using st Some that by (auto split: prod.splits if_splits)
    moreover have "\<exists>fd s1. main_prepare K H B op cf fd s1 = Some r \<and> bt_flock B = None \<and> m_nic s1 = m_nic s \<and> m_w s1 = w"
      if "\<not> o_stop op" "pid_lock (bt_pid_fd B) (bt_flock B) = Inr fd" for fd
      using st Some that(1) unfolding that(2)
      by (intro exI [of _ fd] exI [of _ "if m_pid s = None then s\<lparr>m_w := w, m_pid := Some []\<rparr> else s\<lparr>m_w := w\<rparr>"])
        (use that(2) in \<open>auto simp: pid_lock_def split: if_splits option.splits\<close>)
    ultimately consider (early) n s' where "r = Inl (n, s')" "m_nic s' = m_nic s"
      | (late) fd s1 where "main_prepare K H B op cf fd s1 = Some r" "bt_flock B = None" "m_nic s1 = m_nic s" "m_w s1 = w"
      by (cases "pid_lock (bt_pid_fd B) (bt_flock B)") blast+
    then show ?thesis
    proof cases
      case early
      then show ?thesis using that(1) by blast
    next
      case late
      from late(1) cf show ?thesis
        by (cases rule: prepare_cases) (use that late v in \<open>simp_all\<close>)
    qed
  qed
qed

end

text \<open>The maps of a program that was just loaded.\<close>

definition fresh_maps :: "kview \<Rightarrow> bool" where
  "fresh_maps v \<longleftrightarrow> keys_ok v \<and> ents v Drop_v4 = Map.empty \<and> ents v Drop_v6 = Map.empty"

lemma start_facts:
  assumes "voidgate_host K view H" and "main_start K H B opts s = Some (Inr d)" and "m_nic s = None"
    and "fresh_maps (view (m_w s))"
  shows "bt_flock B = None \<and> m_pid d = Some (dec_string (bt_pid B) @ [NL]) \<and>
    attached (maps (d_ctrl d)) \<and> m_nic d = Some (attach_flags (maps (d_ctrl d))) \<and>
    state (d_ctrl d) = VG_IDLE \<and> armed (kcfg (view (m_w d))) = 0 \<and> ctrl_inv True True (d_ctrl d) (view (m_w d))"
  using voidgate_host.start_cases [OF assms(1,2)]
proof cases
  case (2 op cf fd s1)
  have k: "bpf_kernel K view" using assms(1) by (simp add: voidgate_host_def)
  have f: "fresh_maps (view (m_w s1))" "m_nic s1 = None" using 2 assms(3,4) by simp_all
  from f have kk: "keys_ok (view (m_w s1))" by (simp add: fresh_maps_def)
  show ?thesis
    using bpf_kernel.load_cases [OF k 2(1,2) kk f(2)]
  proof cases
    case (2 c s')
    note d = serve_cases(2) [OF 2(1) [symmetric]]
    have "ctrl_inv True True c (view (m_w s'))" using 2(6) f(1) by (simp add: fresh_maps_def)
    then show ?thesis using d 2 \<open>bt_flock B = None\<close> by (auto simp: ctrl_inv_def synced_def)
  qed simp
qed simp

text \<open>
  C23: The daemon enters its event loop only when it holds the lock on the pid file, which then names
  it; at that moment its program is on the interface, the data plane is not armed, nothing is listed
  and the invariant of the control plane holds.
\<close>

theorem daemon_starts:
  assumes "voidgate_host K view H" and "main_start K H B opts s = Some (Inr d)" and "m_nic s = None"
    and "fresh_maps (view (m_w s))"
  shows "bt_flock B = None \<and> m_pid d = Some (dec_string (bt_pid B) @ [NL]) \<and>
    attached (maps (d_ctrl d)) \<and> m_nic d = Some (attach_flags (maps (d_ctrl d))) \<and>
    state (d_ctrl d) = VG_IDLE \<and> armed (kcfg (view (m_w d))) = 0 \<and> ctrl_inv True True (d_ctrl d) (view (m_w d))"
  by (rule start_facts [OF assms])

text \<open>
  C24: A start that fails leaves no program on the interface, whatever else goes wrong, provided that
  the pid file can be written and that detaching the program, where the start got that far, succeeds.
  (Without the first a program stays: \<open>unwritten_pidfile_leaks\<close>.)
\<close>

theorem failed_start_clean:
  assumes "voidgate_host K view H" and "main_start K H B opts s = Some (Inl (n, s'))" and "m_nic s = None"
    and "keys_ok (view (m_w s))" and "pid_written B" and "b_detach (bt_bpf B) = 0"
  shows "m_nic s' = None"
  using voidgate_host.start_cases [OF assms(1,2)]
proof cases
  case (2 op cf fd s1)
  have k: "bpf_kernel K view" using assms(1) by (simp add: voidgate_host_def)
  have "keys_ok (view (m_w s1))" "m_nic s1 = None" using 2 assms(3,4) by simp_all
  from bpf_kernel.load_cases [OF k 2(1,2) this] show ?thesis
  proof cases
    case (2 c s2)
    then show ?thesis using serve_cases(1) [OF 2(1) [symmetric]] assms(5) by simp
  qed (use assms(6) in simp)
qed (use assms(3) in simp)

text \<open>What a start becomes when nothing can be written to the pid file: everything up to there is the same.\<close>

definition unwritten :: "boot_sys \<Rightarrow> 'w daemon \<Rightarrow> int \<times> 'w machine + 'w daemon" where
  "unwritten B d = Inl (1, unlink_pid B \<lparr>m_nic = m_nic d, m_sock = m_sock d, m_pid = Some [], m_w = m_w d\<rparr>)"

lemma serve_unwritten: "main_serve B c fd s = Inr d \<Longrightarrow> main_serve (B\<lparr>bt_pwrite := - 1\<rparr>) c fd s = unwritten B d"
  by (auto simp: main_serve_def write_pidfile_def unwritten_def unlink_pid_def Let_def split: prod.splits if_splits)

lemma load_unwritten:
  "main_load K B op cf fd s = Some (Inr d) \<Longrightarrow> main_load K (B\<lparr>bt_pwrite := - 1\<rparr>) op cf fd s = Some (unwritten B d)"
  by (auto simp: main_load_def serve_unwritten Let_def split: option.splits prod.splits if_splits)

lemma start_unwritten:
  assumes "main_start K H B opts s = Some (Inr d)"
  shows "main_start K H (B\<lparr>bt_pwrite := - 1\<rparr>) opts s = Some (unwritten B d)"
proof -
  have b: "main_background (B\<lparr>bt_pwrite := - 1\<rparr>) op = main_background B op" for op by (simp add: main_background_def)
  have "main_prepare K H (B\<lparr>bt_pwrite := - 1\<rparr>) op cf fd t = Some (unwritten B d)"
    if "main_prepare K H B op cf fd t = Some (Inr d)" for op cf fd t
    using that by (auto simp: main_prepare_def load_unwritten b Let_def split: option.splits prod.splits sum.splits if_splits)
  then show ?thesis using assms
    by (auto simp: main_start_def Let_def split: option.splits prod.splits sum.splits if_splits)
qed

text \<open>
  When the pid file cannot be written at the end of a start that would otherwise succeed, the
  process exits with status 1 and its program stays on the interface.
\<close>

theorem unwritten_pidfile_leaks:
  assumes "main_start K H B opts s = Some (Inr d)"
  shows "\<exists>s'. main_start K H (B\<lparr>bt_pwrite := - 1\<rparr>) opts s = Some (Inl (1, s')) \<and> m_nic s' = m_nic d"
  using start_unwritten [OF assms] by (simp add: unwritten_def)

subsection \<open>The whole run\<close>

definition rounds_end :: "round list \<Rightarrow> bool" where
  "rounds_end rds \<longleftrightarrow> (\<forall>rd \<in> set rds. REQ_SIZE - 1 \<le> length (filter (\<lambda>r. r \<noteq> Inl EINTR) (rd_reads rd)))"

lemma serve_ends:
  assumes "REQ_SIZE - 1 \<le> length (filter (\<lambda>r. r \<noteq> Inl EINTR) (rd_reads rd))"
  shows "serve_loop K H fmt0 ctl_fd rd fds c w \<noteq> None"
proof (induction fds arbitrary: c w)
  case (Cons fd fds)
  obtain sent c' w' where "vg_ctl_server_handle K H fmt0 (rd_reads rd) (rd_sends rd) c w = Some (sent, c', w')"
    using handle_ends [OF assms, of K H fmt0 "rd_sends rd" c w] by (metis not_None_eq prod_cases3)
  then show ?case using Cons by (auto split: prod.splits)
qed simp

lemma round_ends:
  assumes "REQ_SIZE - 1 \<le> length (filter (\<lambda>r. r \<noteq> Inl EINTR) (rd_reads rd))"
  shows "main_round K H fl fmt0 ctl_fd http_fd rd c lt w \<noteq> None"
  using serve_ends [OF assms, of K H fmt0 ctl_fd "poll_fds ctl_fd http_fd" c "snd (k_monotonic K w)"]
  by (auto simp: main_round_def Let_def split: prod.splits sum.splits option.splits if_splits)

lemma loop_ends: "rounds_end rds \<Longrightarrow> main_loop K H fl fmt0 ctl_fd http_fd rds c lt w \<noteq> None"
proof (induction rds arbitrary: c lt w)
  case (Cons rd rds)
  then have "main_round K H fl fmt0 ctl_fd http_fd rd c lt w \<noteq> None" by (intro round_ends) (simp add: rounds_end_def)
  then obtain go c1 lt1 w1 where "main_round K H fl fmt0 ctl_fd http_fd rd c lt w = Some (go, c1, lt1, w1)"
    by (metis not_None_eq prod_cases4)
  then show ?case using Cons by (simp add: rounds_end_def)
qed simp

context voidgate_host
begin

lemma run_ends:
  assumes inv: "ctrl_inv True pr (d_ctrl d) (view (m_w d))" and rel: "bpf_kernel_reliable K view" and e: "rounds_end rds"
  obtains c w where "main_run K H B fl fmt0 rds d = Some (main_exit K B (d\<lparr>d_ctrl := c, m_w := w\<rparr>))"
    "ctrl_inv True pr c (view w)" "maps c = maps (d_ctrl d)"
proof -
  obtain lt w1 where m: "k_monotonic K (m_w d) = (lt, w1)" by fastforce
  have i1: "ctrl_inv True pr (d_ctrl d) (view w1)" using inv monotonic_view [of "m_w d"] m by simp
  show ?thesis
  proof (cases "d_stop d")
    case True
    then show ?thesis using that [of w1 "d_ctrl d"] i1 m by (simp add: main_run_def)
  next
    case False
    obtain c lt' w where l: "main_loop K H fl fmt0 (d_ctl_fd d) (d_http_fd d) rds (d_ctrl d) lt w1 = Some (c, lt', w)"
      using loop_ends [OF e, of K H fl fmt0 "d_ctl_fd d" "d_http_fd d" "d_ctrl d" lt w1] by (metis not_None_eq prod_cases3)
    note st = loop_steps [OF l]
    show ?thesis using that [of w c] False m l steps_inv [OF st _ rel, of True pr] steps_maps [OF st _ rel, of True pr] i1
      by (simp add: main_run_def)
  qed
qed

end

lemma disarm_live:
  assumes "bpf_kernel_room K view"
  shows "fst (vg_ctrl_disarm K c w) = 0"
proof -
  have "fst (vg_cfg_commit K 0 (cfg c) v) = None" for v
    using bpf_kernel_room.cfg_room [OF assms, of "mk_cfg 0 (cfg c)" v] by (simp add: vg_cfg_commit_def)
  then show ?thesis by (auto simp: vg_ctrl_disarm_def Let_def split: prod.splits) (metis fst_conv option.distinct(1))
qed

text \<open>
  C14: A daemon that started runs until it is told to stop and cleans up after itself, over a kernel
  that takes every write to its maps. Whatever its clients send, as long as every read of a connection
  returns (the sockets have a timeout), the event loop comes back to its test of \<open>g_stop\<close>. Afterwards the
  data plane is unarmed and both drop maps are empty. The program is off the interface if
  \<open>bpf_xdp_detach\<close> succeeded and otherwise stays, since its result is not looked at; the pid file is gone
  if its \<open>unlink\<close> succeeded; and the control socket is gone if its \<open>unlink\<close> succeeded and the daemon served
  it. A socket file on which \<open>listen\<close> failed at the start is not removed.
\<close>

theorem daemon_run_clean:
  assumes "voidgate_host K view H" and "bpf_kernel_room K view" and "main_start K H B opts s = Some (Inr d)"
    and "m_nic s = None" and "fresh_maps (view (m_w s))" and "rounds_end rds"
  shows "\<exists>s'. main_run K H B fl fmt0 rds d = Some (d_result d, s') \<and>
    m_nic s' = (if b_detach (bt_bpf B) = 0 then None else m_nic d) \<and>
    m_pid s' = (if bt_unlink_pid B < 0 then m_pid d else None) \<and>
    m_sock s' = (if d_ctl_fd d < 0 \<or> bt_unlink_sock B < 0 then m_sock d else None) \<and> armed (kcfg (view (m_w s'))) = 0 \<and>
    ents (view (m_w s')) Drop_v4 = Map.empty \<and> ents (view (m_w s')) Drop_v6 = Map.empty"
proof -
  have k: "bpf_kernel K view" and r: "bpf_kernel_reliable K view"
    using assms(1,2) by (simp_all add: voidgate_host_def bpf_kernel_room_def)
  have st: "attached (maps (d_ctrl d))" "m_nic d = Some (attach_flags (maps (d_ctrl d)))"
    "ctrl_inv True True (d_ctrl d) (view (m_w d))"
    using start_facts [OF assms(1,3-5)] by blast+
  obtain w c where run: "main_run K H B fl fmt0 rds d = Some (main_exit K B (d\<lparr>d_ctrl := c, m_w := w\<rparr>))"
    and inv: "ctrl_inv True True c (view w)" and mp: "maps c = maps (d_ctrl d)"
    using voidgate_host.run_ends [OF assms(1) st(3) r assms(6)] by blast
  obtain x c' w' where d: "vg_ctrl_disarm K c w = (x, c', w')" by (metis prod_cases3)
  have "x = 0" using disarm_live [OF assms(2), of c w] d by simp
  note g = bpf_kernel.disarm_good [OF k d _ inv]
  have i: "ctrl_inv True True c' (view w')" "drops (tab c') = []" "state c' = VG_IDLE" "maps c' = maps c"
    using g r inv \<open>x = 0\<close> by (simp_all add: good_def others_def)
  have "dom (ents (view w') (drop_map f)) = {}" for f
    using i(1,2) unfolding ctrl_inv_def synced_def listed_def by auto
  from this [of AF_INET] this [of AF_INET6] have "ents (view w') Drop_v4 = Map.empty" "ents (view w') Drop_v6 = Map.empty"
    by (simp_all add: drop_map_def)
  moreover have "armed (kcfg (view w')) = 0" using i(1,3) by (simp add: ctrl_inv_def synced_def)
  ultimately show ?thesis using run d detach_result [OF st(1,2)] i(4) mp by (simp add: main_exit_def)
qed

subsection \<open>Stopping a daemon\<close>

lemma strtol_dec:
  assumes "n < 2 ^ 63"
  shows "strtol (dec_string n @ [NL]) = int n"
proof -
  obtain ch r where ch: "dec_string n = ch # r" using dec_string_nonempty [of n] by (cases "dec_string n") auto
  have dg: "\<forall>x \<in> set (dec_string n). is_digit x" using dec_string_digits by blast
  have first: "\<not> isspace ch" "ch \<noteq> CHR ''-''" "ch \<noteq> CHR ''+''"
    using dg ch digit_not_space [of ch] by (auto simp: is_digit_def)
  have "\<not> is_digit NL" by (simp add: is_digit_def)
  then have "takeWhile is_digit (dec_string n @ [NL]) = dec_string n" using dg by (simp add: takeWhile_append2)
  then show ?thesis using first assms dec_value_dec_string [of n] ch by (simp add: strtol_def Let_def)
qed

text \<open>What \<open>daemon_stop\<close> makes of the text that \<open>write_pidfile\<close> wrote.\<close>

lemma stop_pid:
  assumes "pid < 2 ^ 31"
  shows "strtol (takeWhile (\<lambda>ch. ch \<noteq> NUL) (take 31 (dec_string pid @ [NL]))) = int pid" "pid_t (int pid) = int pid"
proof -
  let ?buf = "dec_string pid @ [NL]"
  have "length (dec_string pid) \<le> 10" using dec_string_length [of pid 9] assms by simp
  then have t: "take 31 ?buf = ?buf" by simp
  have "\<forall>ch \<in> set (dec_string pid). ch \<noteq> NUL" using dec_string_digits [where n = pid] by (force simp: is_digit_def)
  then have "takeWhile (\<lambda>ch. ch \<noteq> NUL) ?buf = ?buf" by (simp add: takeWhile_append2)
  then show "strtol (takeWhile (\<lambda>ch. ch \<noteq> NUL) (take 31 ?buf)) = int pid" using t strtol_dec [of pid] assms by simp
  show "pid_t (int pid) = int pid"
    using assms by (simp add: pid_t_def signed_of_nat signed_take_bit_int_eq_self)
qed

lemma stop_loop_acts:
  assumes "stop_loop n i kill0 pid = (acts, r)"
  shows "(\<forall>a \<in> set acts. a = Kill (pid_t pid) 0 \<or> a = Unlink_pid) \<and> length acts \<le> Suc n \<and>
    (r = Inr () \<longrightarrow> Unlink_pid \<in> set acts \<and> (\<exists>j. i \<le> j \<and> j < i + n \<and> kill0 j = Some ESRCH))"
  using assms
proof (induction n arbitrary: i acts r)
  case (Suc n)
  obtain a1 r1 where l: "stop_loop n (Suc i) kill0 pid = (a1, r1)" by fastforce
  note IH = Suc.IH [OF l]
  show ?case
  proof (cases "kill0 i")
    case None
    then have "acts = Kill (pid_t pid) 0 # a1" "r = r1" using Suc.prems by (simp_all add: l)
    then show ?thesis using IH by auto (metis Suc_leD)
  next
    case (Some e)
    then show ?thesis using Suc.prems by (auto split: if_splits)
  qed
qed simp

text \<open>
  C25: \<open>voidgate -s stop\<close> signals no process but the daemon that wrote the pid file, and none at all when
  it can take the lock on it; it ends after at most 201 signals, and it reports success only after
  the daemon is gone and the pid file was unlinked.
\<close>

theorem stop_signals_daemon:
  assumes "0 < pid" and "pid < 2 ^ 31"
    and "daemon_stop fd (Some (dec_string pid @ [NL])) flock term kill0 = (acts, r)"
  shows "(\<forall>p sig. Kill p sig \<in> set acts \<longrightarrow> flock \<noteq> None \<and> p = int pid \<and> sig \<in> {0, 15}) \<and> length acts \<le> 203 \<and>
    (r = Inr () \<longrightarrow> Unlink_pid \<in> set acts \<and> (\<exists>i < 200. kill0 i = Some ESRCH))"
proof -
  note n = stop_pid [OF assms(2)]
  obtain a1 r1 where l: "stop_loop 200 0 kill0 (int pid) = (a1, r1)" by fastforce
  note sl = stop_loop_acts [OF l]
  show ?thesis
    using assms(1,3) sl l n
    by (auto simp: daemon_stop_def Let_def simp del: stop_loop.simps split: if_splits option.splits)
qed

theorem stop_signals_daemon_witness:
  "\<exists>acts. daemon_stop 3 (Some (dec_string 4711 @ [NL])) (Some EWOULDBLOCK) None (\<lambda>i. if i < 2 then None else Some ESRCH) = (acts, Inr ()) \<and>
     Kill 4711 15 \<in> set acts \<and> Unlink_pid \<in> set acts"
proof -
  let ?k = "\<lambda>i. if i < 2 then None else Some ESRCH"
  have d: "daemon_stop 3 (Some (dec_string 4711 @ [NL])) (Some EWOULDBLOCK) None ?k =
      ([Close_fd, Kill 4711 15, Kill 4711 0, Kill 4711 0, Kill 4711 0, Unlink_pid], Inr ())"
    using stop_pid [of 4711]
    by (simp add: daemon_stop_def Let_def stop_loop.simps(2) [of 199, simplified] stop_loop.simps(2) [of 198, simplified]
        stop_loop.simps(2) [of 197, simplified])
  show ?thesis using stop_signals_daemon [OF _ _ d] d by simp
qed

text \<open>A pid file that holds a number beyond 32 bits is not refused: the signal goes to every process.\<close>

lemma stop_wraps_pid:
  "Kill (- 1) 15 \<in> set (fst (daemon_stop 3 (Some (''4294967295'' @ [NL])) (Some EWOULDBLOCK) None (\<lambda>_. Some ESRCH)))"
  by code_simp

subsection \<open>An example run\<close>

definition ex_boot :: boot_sys where
  "ex_boot = \<lparr>bt_stop = (- 1, None, None, None, \<lambda>_. None), bt_pid_fd = 3, bt_flock = None, bt_alive = (- 1, - 1),
     bt_log_fd = 4, bt_dup2_log = 2,
     bt_fork = \<lparr>f_pipe = 0, f_write_end = 6, f_fork = 0, f_reads = [], f_dup2_log = 2, f_setsid = 1, f_null = 7,
       f_dup2_in = 0, f_dup2_out = 1\<rparr>,
     bt_bpf = ex_sys, bt_mem = (True, True, True),
     bt_listen = \<lparr>l_unlink = 0, l_socket = 8, l_bind = 0, l_mode = 493, l_chmod = 0, l_getgrnam = (\<lambda>_. None), l_chown = 0, l_listen = 0\<rparr>,
     bt_http = (9, 0, 0), bt_pid = 4711, bt_trunc = 0, bt_pwrite = 5, bt_ready = True,
     bt_unlink_pid = 0, bt_unlink_sock = 0\<rparr>"

definition ex_machine :: "rkernel machine" where
  "ex_machine = \<lparr>m_nic = None, m_sock = None, m_pid = None, m_w = ex_world\<rparr>"

abbreviation ex_host_sys :: "rkernel host" where
  "ex_host_sys \<equiv> ref_host (\<lambda>_. None) (Some [])"

lemma ex_fresh: "fresh_maps (r_view (m_w ex_machine))"
  by (simp add: fresh_maps_def keys_ok_def r_view_def ex_machine_def ex_world_def)

lemma ex_start_load:
  "main_start ref_kernel ex_host_sys (ex_boot\<lparr>bt_mem := mem\<rparr>) [] ex_machine =
     main_load ref_kernel (ex_boot\<lparr>bt_mem := mem\<rparr>) default_options vg_config_defaults (- 1) (ex_machine\<lparr>m_pid := Some []\<rparr>)"
proof -
  have "vg_config_auto_local (Some []) vg_config_defaults = Some vg_config_defaults" "auto_local vg_config_defaults"
    by (simp_all add: vg_config_auto_local_def local_cidr_from_nic_def vg_config_defaults_def)
  then show ?thesis
    by (simp add: main_start_def main_prepare_def default_options_def ref_host_def vg_config_load_def pid_lock_def ex_boot_def
        vg_ctl_server_alive_def ex_sys_def main_background_def redirect_log_def ifaddrs_ok_def ex_machine_def)
qed

text \<open>The run of the example up to the controller's set-up.\<close>

lemma ex_load:
  obtains m t where "main_load ref_kernel (ex_boot\<lparr>bt_mem := mem\<rparr>) op vg_config_defaults fd s =
    (case vg_ctrl_init mem vg_config_defaults m (o_cfg_path op) (case o_iface op of None \<Rightarrow> [] | Some i \<Rightarrow> i) of
       None \<Rightarrow> None
     | Some None \<Rightarrow> Some (Inl (die_closed ex_boot m t))
     | Some (Some c) \<Rightarrow> Some (main_serve (ex_boot\<lparr>bt_mem := mem\<rparr>) c fd t))"
proof -
  obtain m sz where m: "vg_maps_open ex_sys vg_config_defaults = Some (m, sz)" by (simp add: vg_maps_open_def ex_sys_def Let_def)
  obtain m2 nic where a: "vg_xdp_attach ex_sys vg_config_defaults m (m_nic s) = (0, m2, nic)"
    using open_detached [OF m] by (simp add: vg_xdp_attach_def ex_sys_def vg_config_defaults_def)
  obtain w where c: "vg_cfg_commit ref_kernel 0 vg_config_defaults (vg_populate_local ref_kernel vg_config_defaults
      (vg_populate_allow ref_kernel vg_config_defaults (m_w s))) = (None, w)"
    by (simp add: vg_cfg_commit_def ref_kernel_def)
  have B: "bt_bpf (ex_boot\<lparr>bt_mem := mem\<rparr>) = ex_sys" "bt_mem (ex_boot\<lparr>bt_mem := mem\<rparr>) = mem" "bt_bpf ex_boot = ex_sys"
    by (simp_all add: ex_boot_def)
  show ?thesis
    by (rule that [of m2 "s\<lparr>m_w := w, m_nic := nic\<rparr>"])
      (simp add: main_load_def die_closed_def B m Let_def c a split: option.split)
qed

lemma ex_boot_mem: "ex_boot\<lparr>bt_mem := (True, True, True)\<rparr> = ex_boot"
  by (simp add: ex_boot_def)

lemma ex_pid_length: "length (dec_string 4711) = 4"
  by code_simp

lemma ex_start: "\<exists>d. main_start ref_kernel ex_host_sys ex_boot [] ex_machine = Some (Inr d) \<and> d_ctl_fd d = 8"
proof -
  have sv: "\<exists>d. main_serve ex_boot c fd s = Inr d \<and> d_ctl_fd d = 8" for c fd and s :: "rkernel machine"
    by (auto simp: main_serve_def ex_boot_def write_pidfile_def vg_ctl_server_listen_def ex_pid_length Let_def split: prod.splits)
  obtain m t where l: "main_load ref_kernel ex_boot default_options vg_config_defaults (- 1) (ex_machine\<lparr>m_pid := Some []\<rparr>) =
    (case vg_ctrl_init (True, True, True) vg_config_defaults m (o_cfg_path default_options) (case o_iface default_options of None \<Rightarrow> [] | Some i \<Rightarrow> i) of
       None \<Rightarrow> None | Some None \<Rightarrow> Some (Inl (die_closed ex_boot m t)) | Some (Some c) \<Rightarrow> Some (main_serve ex_boot c (- 1) t))"
    using ex_load [of "(True, True, True)"] unfolding ex_boot_mem by blast
  obtain c where "vg_ctrl_init (True, True, True) vg_config_defaults m (o_cfg_path default_options) (case o_iface default_options of None \<Rightarrow> [] | Some i \<Rightarrow> i) = Some (Some c)"
    using init_defaults by blast
  then show ?thesis using l sv [of c "- 1" t] ex_start_load [of "(True, True, True)"] by (simp add: ex_boot_mem)
qed

theorem daemon_starts_witness:
  "\<exists>d. main_start ref_kernel ex_host_sys ex_boot [] ex_machine = Some (Inr d) \<and> m_pid d = Some (dec_string 4711 @ [NL]) \<and>
     m_nic d \<noteq> None \<and> armed (kcfg (r_view (m_w d))) = 0"
proof -
  obtain d where d: "main_start ref_kernel ex_host_sys ex_boot [] ex_machine = Some (Inr d)" using ex_start by blast
  show ?thesis using daemon_starts [OF refh.voidgate_host_axioms d _ ex_fresh] d by (simp add: ex_machine_def ex_boot_def)
qed

theorem failed_start_clean_witness:
  "\<exists>s. main_start ref_kernel ex_host_sys (ex_boot\<lparr>bt_mem := (True, True, False)\<rparr>) [] ex_machine = Some (Inl (1, s)) \<and> m_nic s = None"
proof -
  let ?B = "ex_boot\<lparr>bt_mem := (True, True, False)\<rparr>"
  obtain m t where l: "main_load ref_kernel ?B default_options vg_config_defaults (- 1) (ex_machine\<lparr>m_pid := Some []\<rparr>) =
    (case vg_ctrl_init (True, True, False) vg_config_defaults m (o_cfg_path default_options) (case o_iface default_options of None \<Rightarrow> [] | Some i \<Rightarrow> i) of
       None \<Rightarrow> None | Some None \<Rightarrow> Some (Inl (die_closed ex_boot m t)) | Some (Some c) \<Rightarrow> Some (main_serve ?B c (- 1) t))"
    using ex_load by blast
  obtain nb where "nbuckets_loop (drop_cap vg_config_defaults) 1024 = Some nb"
    using nbuckets_ends [OF drop_cap_bound [OF defaults_ok(2)], of 10] by auto
  then have r: "main_start ref_kernel ex_host_sys ?B [] ex_machine = Some (Inl (1, snd (die_closed ex_boot m t)))"
    using l ex_start_load [of "(True, True, False)"] by (simp add: vg_ctrl_init_def die_closed_def)
  show ?thesis using failed_start_clean [OF refh.voidgate_host_axioms r] ex_fresh r
    by (simp add: fresh_maps_def ex_machine_def ex_boot_def ex_sys_def pid_written_def ex_pid_length)
qed

theorem unwritten_pidfile_leaks_witness:
  "\<exists>s. main_start ref_kernel ex_host_sys (ex_boot\<lparr>bt_pwrite := - 1\<rparr>) [] ex_machine = Some (Inl (1, s)) \<and> m_nic s \<noteq> None"
proof -
  obtain d where d: "main_start ref_kernel ex_host_sys ex_boot [] ex_machine = Some (Inr d)" using ex_start by blast
  have "m_nic d \<noteq> None" using start_facts [OF refh.voidgate_host_axioms d _ ex_fresh] by (simp add: ex_machine_def)
  then show ?thesis using unwritten_pidfile_leaks [OF d] by auto
qed

theorem daemon_run_clean_witness:
  "\<exists>d s. main_start ref_kernel ex_host_sys ex_boot [] ex_machine = Some (Inr d) \<and>
     main_run ref_kernel ex_host_sys ex_boot (\<lambda>x. x) (\<lambda>_. ''0'')
       [\<lparr>rd_poll = (\<lambda>_. Inr 1), rd_ready = (\<lambda>fd. fd = d_ctl_fd d), rd_accept = (\<lambda>_. 10),
         rd_reads = [Inr ''arm'', Inr [NL]] @ replicate 255 (Inl EWOULDBLOCK), rd_sends = [Inr 3], rd_http = None\<rparr>] d =
       Some (d_result d, s) \<and> m_nic s = None \<and> m_pid s = None \<and> m_sock s = None \<and> armed (kcfg (r_view (m_w s))) = 0"
proof -
  obtain d where d: "main_start ref_kernel ex_host_sys ex_boot [] ex_machine = Some (Inr d)" "d_ctl_fd d = 8" using ex_start by blast
  have b: "b_detach (bt_bpf ex_boot) = 0" "bt_unlink_pid ex_boot = 0" "bt_unlink_sock ex_boot = 0" by (simp_all add: ex_boot_def ex_sys_def)
  let ?rds = "[\<lparr>rd_poll = (\<lambda>_. Inr 1), rd_ready = (\<lambda>fd. fd = d_ctl_fd d), rd_accept = (\<lambda>_. 10),
      rd_reads = [Inr ''arm'', Inr [NL]] @ replicate 255 (Inl EWOULDBLOCK), rd_sends = [Inr 3], rd_http = None\<rparr>] :: round list"
  have e: "rounds_end ?rds" by (simp add: rounds_end_def)
  show ?thesis
    using daemon_run_clean [OF refh.voidgate_host_axioms refr.bpf_kernel_room_axioms d(1) _ ex_fresh e] d b
    by (simp add: ex_machine_def) blast
qed

end
