(* ===== verification/Client.thy ===== *)
theory Client
  imports CtlInv IpText
begin

section \<open>The command line client: voidgatectl.c\<close>

text \<open>
  \<open>voidgatectl\<close> joins its arguments to a command line in a buffer of 256 bytes, sends it, prints the
  reply and reports by its exit status whether the command was refused. The results of the system
  calls are arguments: whether the socket connects and the write succeeds, and the data of the
  successive reads up to the end of the stream.
\<close>

definition CMD_SIZE :: nat where [simp]: "CMD_SIZE = 256"

text \<open>\<open>strncat(cmd, s, sizeof(cmd) - strlen(cmd) - 1)\<close>.\<close>

definition cmd_cat :: "string \<Rightarrow> string \<Rightarrow> string" where
  "cmd_cat cmd s = cmd @ take (CMD_SIZE - length cmd - 1) s"

fun cmd_args :: "string \<Rightarrow> bool \<Rightarrow> string list \<Rightarrow> string" where
  "cmd_args cmd start [] = cmd"
| "cmd_args cmd start (a # as) =
     (let cmd = (if \<not> start then cmd_cat cmd '' '' else cmd)
      in cmd_args (cmd_cat cmd a) False as)"

definition build_cmd :: "string list \<Rightarrow> string" where
  "build_cmd args = cmd_cat (cmd_args [] True args) [NL]"

text \<open>The read loop: \<open>failed\<close> is decided by the first piece of the reply.\<close>

fun reply_loop :: "string list \<Rightarrow> bool \<Rightarrow> bool \<Rightarrow> bool \<times> bool" where
  "reply_loop [] failed replied = (failed, replied)"
| "reply_loop (b # bs) failed replied =
     (let failed = (if \<not> replied \<and> take 5 (takeWhile (\<lambda>ch. ch \<noteq> NUL) b) = ''error'' then True else failed)
      in reply_loop bs failed True)"

text \<open>
  The exit status and, when it got that far, what was sent: \<open>write\<close> may take only a part of the
  command. \<open>args\<close> is \<open>argv\<close> without the program name.
\<close>

definition ctl_main :: "string list \<Rightarrow> bool \<Rightarrow> bool \<Rightarrow> errno + nat \<Rightarrow> string list \<Rightarrow> int \<times> string option" where
  "ctl_main args sock_ok connect_ok write_res replies =
     (if args = [] then (1, None)
      else
        (let cmd = build_cmd args in
         if \<not> sock_ok then (1, None)
         else if \<not> connect_ok then (1, None)
         else case write_res of
           Inl e \<Rightarrow> (1, None)
         | Inr n \<Rightarrow>
             (let (failed, replied) = reply_loop replies False False
              in (if failed \<or> \<not> replied then 1 else 0, Some (take n cmd)))))"

subsection \<open>The command line\<close>

definition join :: "string list \<Rightarrow> string" where
  "join args = concat (map (\<lambda>a. '' '' @ a) args)"

definition command_line :: "string list \<Rightarrow> string" where
  "command_line args = drop 1 (join args)"

lemma cmd_cat_take: "cmd_cat (take (CMD_SIZE - 1) s) t = take (CMD_SIZE - 1) (s @ t)"
  by (simp add: cmd_cat_def min_def)

lemma cmd_args_take:
  "cmd_args (take (CMD_SIZE - 1) s) False as = take (CMD_SIZE - 1) (s @ join as)"
proof (induction as arbitrary: s)
  case (Cons a as)
  have "cmd_args (take (CMD_SIZE - 1) s) False (a # as) = cmd_args (take (CMD_SIZE - 1) ((s @ '' '') @ a)) False as"
    using cmd_cat_take [of s "'' ''"] cmd_cat_take [of "s @ '' ''" a] by (simp add: Let_def del: CMD_SIZE_def)
  then show ?case using Cons.IH [of "(s @ '' '') @ a"] by (simp add: join_def del: CMD_SIZE_def)
qed (simp add: join_def)

text \<open>What is sent is the command line with a newline, cut to 255 characters.\<close>

lemma build_cmd_take:
  assumes "args \<noteq> []"
  shows "build_cmd args = take (CMD_SIZE - 1) (command_line args @ [NL])"
proof -
  obtain a as where args: "args = a # as" using assms by (cases args) auto
  have "cmd_cat [] a = take (CMD_SIZE - 1) a" by (simp add: cmd_cat_def)
  then have "cmd_args [] True args = take (CMD_SIZE - 1) (a @ join as)"
    using cmd_args_take [of a as] by (simp add: args del: CMD_SIZE_def)
  moreover have "command_line args = a @ join as" by (simp add: command_line_def join_def args)
  ultimately show ?thesis using cmd_cat_take [of "command_line args" "[NL]"] by (simp add: build_cmd_def del: CMD_SIZE_def)
qed

subsection \<open>What the server reads\<close>

text \<open>Pieces without a newline are collected until the buffer of 255 characters is full.\<close>

lemma read_pieces:
  assumes "\<forall>d \<in> set ds. d \<noteq> [] \<and> NL \<notin> set d \<and> NUL \<notin> set d" and "length req + length (concat ds) < REQ_SIZE - 1"
  shows "read_request (map Inr ds @ rs) req = read_request rs (req @ concat ds)"
  using assms
proof (induction ds arbitrary: req)
  case (Cons d ds)
  then show ?case using split_at_none [of NL d] by (auto simp: Let_def)
qed simp

lemma read_pieces_full:
  assumes "\<forall>d \<in> set ds. d \<noteq> [] \<and> NL \<notin> set d \<and> NUL \<notin> set d" and "length req + length (concat ds) = REQ_SIZE - 1"
    and "length req < REQ_SIZE - 1"
  shows "read_request (map Inr ds @ rs) req = Some (Rejected (''error: command too long'' @ [NL]))"
  using assms
proof (induction ds arbitrary: req)
  case (Cons d ds)
  show ?case
  proof (cases "length (req @ d) = REQ_SIZE - 1")
    case True
    then show ?thesis using Cons.prems split_at_none [of NL d] by (simp add: Let_def)
  next
    case False
    have "read_request (map Inr ds @ rs) (req @ d) = Some (Rejected (''error: command too long'' @ [NL]))"
      using Cons.prems False by (intro Cons.IH) auto
    then show ?thesis using Cons.prems False split_at_none [of NL d] by (simp add: Let_def)
  qed
qed simp

text \<open>A piece that ends with the newline completes the request.\<close>

lemma read_last_piece:
  assumes "d = a @ [NL]" "NL \<notin> set a" "NUL \<notin> set a" "length req + length d \<le> REQ_SIZE - 1"
  shows "read_request (Inr d # rs) req = Some (Line (req @ a))"
  using assms split_at_some [of NL a "[]"] by (simp add: Let_def)

lemma pieces_of_line:
  assumes "concat ds = s @ [NL]" "\<forall>d \<in> set ds. d \<noteq> []" "NL \<notin> set s"
  shows "\<exists>ds' a. ds = ds' @ [a @ [NL]] \<and> s = concat ds' @ a"
proof -
  obtain ds' d where ds: "ds = ds' @ [d]" using assms(1) by (cases ds rule: rev_cases) auto
  then obtain a x where d: "d = a @ [x]" using assms(2) by (cases d rule: rev_cases) auto
  then show ?thesis using assms(1) ds by auto
qed

text \<open>A line that fits the buffer arrives whole, however it is cut.\<close>

lemma line_arrives:
  assumes "concat ds = s @ [NL]" "\<forall>d \<in> set ds. d \<noteq> []" "NL \<notin> set s" "NUL \<notin> set s" "length s < REQ_SIZE - 1"
  shows "read_request (map Inr ds @ rs) [] = Some (Line s)"
proof -
  obtain ds' a where ds: "ds = ds' @ [a @ [NL]]" "s = concat ds' @ a" using pieces_of_line [OF assms(1-3)] by blast
  have "read_request (map Inr ds' @ [Inr (a @ [NL])] @ rs) [] = read_request ([Inr (a @ [NL])] @ rs) ([] @ concat ds')"
    using assms(2-5) ds by (intro read_pieces) auto
  also have "\<dots> = Some (Line (concat ds' @ a))"
    using read_last_piece [of "a @ [NL]" a "concat ds'" rs] assms(3-5) ds(2) by simp
  finally show ?thesis using ds by simp
qed

text \<open>
  C30: However the command is cut into pieces on the way, the server runs exactly the command line
  that was typed, or refuses it: a command line of at most 254 characters arrives whole, and a
  longer one, which the client cuts, is answered \<open>command too long\<close> and never run in part.
\<close>

theorem command_arrives_whole:
  assumes "args \<noteq> []" and "NL \<notin> set (command_line args)" and "NUL \<notin> set (command_line args)"
    and "concat ds = build_cmd args" and "\<forall>d \<in> set ds. d \<noteq> []"
  shows "read_request (map Inr ds @ [Inr []]) [] =
    Some (if length (command_line args) < CMD_SIZE - 1 then Line (command_line args)
          else Rejected (''error: command too long'' @ [NL]))"
proof (cases "length (command_line args) < CMD_SIZE - 1")
  case True
  then have "concat ds = command_line args @ [NL]" using assms(4) build_cmd_take [OF assms(1)] by simp
  then show ?thesis using line_arrives [OF _ assms(5,2,3), of "[Inr []]"] True by simp
next
  case False
  then have c: "concat ds = take (CMD_SIZE - 1) (command_line args)"
    using assms(4) build_cmd_take [OF assms(1)] by simp
  have "NL \<notin> set (concat ds)" "NUL \<notin> set (concat ds)" using assms(2,3) unfolding c by (auto dest: in_set_takeD)
  moreover have "length (concat ds) = REQ_SIZE - 1" using False unfolding c by simp
  ultimately show ?thesis using read_pieces_full [of ds "[]" "[Inr []]"] assms(5) False by auto
qed

theorem command_arrives_whole_witness:
  "read_request [Inr ''dro'', Inr ''p 192.0.2.1'', Inr [NL], Inr []] [] = Some (Line ''drop 192.0.2.1'')"
proof -
  have cl: "command_line [''drop'', ''192.0.2.1''] = ''drop 192.0.2.1''" by (simp add: command_line_def join_def)
  have "concat [''dro'', ''p 192.0.2.1'', [NL]] = build_cmd [''drop'', ''192.0.2.1'']"
    using build_cmd_take [of "[''drop'', ''192.0.2.1'']"] cl by simp
  then show ?thesis
    using command_arrives_whole [of "[''drop'', ''192.0.2.1'']" "[''dro'', ''p 192.0.2.1'', [NL]]"] cl by simp
qed

end
