(* ===== verification/LuaClient.thy ===== *)
theory LuaClient
  imports DaemonSpec Client
begin

section \<open>The Lua client: lua/resty/voidgate.lua\<close>

text \<open>
  The OpenResty client of the daemon. Values of Lua are \<open>lua\<close>; a number is a real or one of the values
  a double has besides. A pair \<open>nil, err\<close> is \<open>Inl err\<close>. What nginx and the socket answer is in the record
  \<open>cosock\<close>, \<open>None\<close> for success: creating the socket, \<open>connect\<close> to an address, \<open>send\<close> of a text, and what
  \<open>receive\<close> reads up to the end of the stream after a text was sent. \<open>num\<close> is \<open>tonumber\<close> on strings. The
  module's own functions call the methods on a default client.
\<close>

datatype lnum = Fin real | PosInf | NegInf | NaN

datatype lua = LNil | LBool bool | LNum lnum | LStr string | LObj

record cosock =
  s_tcp :: "string option"
  s_connect :: "string \<Rightarrow> string option"
  s_send :: "string \<Rightarrow> string option"
  s_receive :: "string \<Rightarrow> string + string"

record lua_client =
  path :: string
  timeout :: real

definition MAX_TTL :: int where [simp]: "MAX_TTL = 31536000"

definition counters :: "string list" where
  "counters = [''rx_pkts'', ''rx_bytes'', ''passed'', ''dropped'', ''non_ip'', ''map_full'', ''parse_err'']"

subsection \<open>Requests\<close>

text \<open>
  \<open>request\<close> gives the text it sent, if it came to that, and its result. \<open>settimeout\<close> shows only in what
  \<open>connect\<close>, \<open>send\<close> and \<open>receive\<close> answer. The text is the one handed to \<open>send\<close>; when \<open>send\<close> fails, the
  daemon may have got less of it.
\<close>

definition request_lua :: "cosock \<Rightarrow> lua_client \<Rightarrow> string \<Rightarrow> string option \<times> (string + string)" where
  "request_lua S self cmd =
     (case s_tcp S of
        Some e \<Rightarrow> (None, Inl (''no cosocket in this phase, use ban(): '' @ e))
      | None \<Rightarrow>
          (case s_connect S (''unix:'' @ path self) of
             Some e \<Rightarrow> (None, Inl e)
           | None \<Rightarrow>
               (let text = cmd @ [NL] in
                (Some text,
                 case s_send S text of
                   Some e \<Rightarrow> Inl e
                 | None \<Rightarrow>
                     (case s_receive S text of
                        Inl e \<Rightarrow> Inl e
                      | Inr data \<Rightarrow>
                          if take 5 data = ''error'' then Inl (rev (dropWhile (\<lambda>ch. ch = NL) (rev data)))
                          else Inr data)))))"

definition wordch :: "char \<Rightarrow> bool" where
  "wordch ch \<longleftrightarrow> is_digit ch \<or> ch = CHR ''_'' \<or>
     (let n = of_char ch :: nat in 65 \<le> n \<and> n \<le> 90 \<or> 97 \<le> n \<and> n \<le> 122)"

abbreviation nonspace :: "char \<Rightarrow> bool" where
  "nonspace ch \<equiv> \<not> isspace ch"

text \<open>The matches of \<open>([%w_]+)=(%S+)\<close>.\<close>

function kv_pairs :: "string \<Rightarrow> (string \<times> string) list" where
  "kv_pairs s =
     (if s = [] then []
      else
        (let k = takeWhile wordch s; r = dropWhile wordch s; v = takeWhile nonspace (drop 1 r) in
         if k \<noteq> [] \<and> take 1 r = ''='' \<and> v \<noteq> []
         then (k, v) # kv_pairs (dropWhile nonspace (drop 1 r))
         else kv_pairs (tl s)))"
  by auto

termination
proof (relation "measure length")
  fix s :: string and k r v
  assume "s \<noteq> []" "r = dropWhile wordch s" "k \<noteq> [] \<and> take 1 r = ''='' \<and> v \<noteq> []"
  moreover have "length (dropWhile nonspace (drop 1 r)) \<le> length (drop 1 r)" by (rule length_dropWhile_le)
  moreover have "length (dropWhile wordch s) \<le> length s" by (rule length_dropWhile_le)
  ultimately have "length (dropWhile nonspace (drop 1 r)) \<le> length s - 1" "0 < length s" by auto
  then have "length (dropWhile nonspace (drop 1 r)) < length s" by linarith
  then show "(dropWhile nonspace (drop 1 r), s) \<in> measure length" by simp
qed auto

declare kv_pairs.simps [simp del]

definition tonumber :: "(string \<Rightarrow> lnum option) \<Rightarrow> lua \<Rightarrow> lnum option" where
  "tonumber num v = (case v of LNum n \<Rightarrow> Some n | LStr s \<Rightarrow> num s | _ \<Rightarrow> None)"

definition number_or_text :: "(string \<Rightarrow> lnum option) \<Rightarrow> string \<Rightarrow> lua" where
  "number_or_text num v = (case tonumber num (LStr v) of Some n \<Rightarrow> LNum n | None \<Rightarrow> LStr v)"

definition kv :: "(string \<Rightarrow> lnum option) \<Rightarrow> string \<Rightarrow> (string \<rightharpoonup> lua)" where
  "kv num data =
     foldl (\<lambda>t (k, v). t(k \<mapsto>
         (if k \<in> set counters then LStr v
          else if k = ''armed'' then LBool (v = ''1'')
          else number_or_text num v))) Map.empty (kv_pairs data)"

text \<open>Infinities fail the bounds, and NaN differs from itself.\<close>

definition check_ttl :: "(string \<Rightarrow> lnum option) \<Rightarrow> lua \<Rightarrow> int option" where
  "check_ttl num ttl =
     (case tonumber num ttl of
        Some (Fin r) \<Rightarrow> if r \<noteq> of_int \<lfloor>r\<rfloor> \<or> r < 1 \<or> r > of_int MAX_TTL then None else Some \<lfloor>r\<rfloor>
      | _ \<Rightarrow> None)"

subsection \<open>Methods\<close>

definition client_status :: "(string \<Rightarrow> lnum option) \<Rightarrow> cosock \<Rightarrow> lua_client \<Rightarrow> string option \<times> (string + (string \<rightharpoonup> lua))" where
  "client_status num S self =
     (case request_lua S self ''status'' of (t, Inl e) \<Rightarrow> (t, Inl e) | (t, Inr data) \<Rightarrow> (t, Inr (kv num data)))"

definition client_stats :: "(string \<Rightarrow> lnum option) \<Rightarrow> cosock \<Rightarrow> lua_client \<Rightarrow> string option \<times> (string + (string \<rightharpoonup> lua))" where
  "client_stats num S self =
     (case request_lua S self ''stats'' of (t, Inl e) \<Rightarrow> (t, Inl e) | (t, Inr data) \<Rightarrow> (t, Inr (kv num data)))"

text \<open>The matches of \<open>[^\n]+\<close>, and a match of \<open>^(%S+) reason=(%S+) age=(%S+)$\<close>.\<close>

fun newline_runs :: "string \<Rightarrow> string \<Rightarrow> string list" where
  "newline_runs [] cur = (if cur = [] then [] else [cur])"
| "newline_runs (ch # s) cur =
     (if ch = NL then (if cur = [] then newline_runs s [] else cur # newline_runs s [])
      else newline_runs s (cur @ [ch]))"

definition match_text :: "string \<Rightarrow> string \<Rightarrow> string option" where
  "match_text t s = (if take (length t) s = t then Some (drop (length t) s) else None)"

definition match_line :: "string \<Rightarrow> (string \<times> string \<times> string) option" where
  "match_line line =
     (let net = takeWhile nonspace line in
      if net = [] then None
      else case match_text '' reason='' (dropWhile nonspace line) of
        None \<Rightarrow> None
      | Some s \<Rightarrow>
          (let rsn = takeWhile nonspace s in
           if rsn = [] then None
           else case match_text '' age='' (dropWhile nonspace s) of
             None \<Rightarrow> None
           | Some age \<Rightarrow> if age = [] \<or> (\<exists>ch \<in> set age. isspace ch) then None else Some (net, rsn, age)))"

definition drops_of :: "(string \<Rightarrow> lnum option) \<Rightarrow> string \<Rightarrow> (string \<times> lua \<times> lua) list" where
  "drops_of num data =
     map (\<lambda>(net, rsn, age). (net, number_or_text num rsn, number_or_text num age))
       (List.map_filter match_line (newline_runs data []))"

definition client_drops ::
  "(string \<Rightarrow> lnum option) \<Rightarrow> cosock \<Rightarrow> lua_client \<Rightarrow> string option \<times> (string + (string \<times> lua \<times> lua) list)" where
  "client_drops num S self =
     (case request_lua S self ''drops'' of (t, Inl e) \<Rightarrow> (t, Inl e) | (t, Inr data) \<Rightarrow> (t, Inr (drops_of num data)))"

definition commit :: "cosock \<Rightarrow> lua_client \<Rightarrow> string \<Rightarrow> string option \<times> (string + unit)" where
  "commit S self cmd =
     (case request_lua S self cmd of
        (t, Inl e) \<Rightarrow> (t, Inl e)
      | (t, Inr data) \<Rightarrow> (t, if data \<noteq> ''ok'' @ [NL] then Inl ''unexpected response'' else Inr ()))"

definition client_arm :: "cosock \<Rightarrow> lua_client \<Rightarrow> string option \<times> (string + unit)" where
  "client_arm S self = commit S self ''arm''"

definition client_disarm :: "cosock \<Rightarrow> lua_client \<Rightarrow> string option \<times> (string + unit)" where
  "client_disarm S self = commit S self ''disarm''"

definition client_reload :: "cosock \<Rightarrow> lua_client \<Rightarrow> string option \<times> (string + unit)" where
  "client_reload S self = commit S self ''reload''"

text \<open>\<open>type(cidr) ~= "string" or cidr:find("%s")\<close> guards both methods that take a prefix.\<close>

definition cidr_text :: "lua \<Rightarrow> string option" where
  "cidr_text v = (case v of LStr s \<Rightarrow> if \<exists>ch \<in> set s. isspace ch then None else Some s | _ \<Rightarrow> None)"

definition client_drop ::
  "(string \<Rightarrow> lnum option) \<Rightarrow> cosock \<Rightarrow> lua_client \<Rightarrow> lua \<Rightarrow> lua \<Rightarrow> string option \<times> (string + unit)" where
  "client_drop num S self net ttl =
     (case cidr_text net of
        None \<Rightarrow> (None, Inl ''bad cidr'')
      | Some s \<Rightarrow>
          (case check_ttl num ttl of
             None \<Rightarrow> (None, Inl ''bad ttl'')
           | Some n \<Rightarrow> commit S self (''drop '' @ s @ '' ttl='' @ int_string n)))"

definition client_undrop :: "cosock \<Rightarrow> lua_client \<Rightarrow> lua \<Rightarrow> string option \<times> (string + unit)" where
  "client_undrop S self net =
     (case cidr_text net of
        None \<Rightarrow> (None, Inl ''bad cidr'')
      | Some s \<Rightarrow> commit S self (''undrop '' @ s))"

definition M_new :: "string option \<Rightarrow> real option \<Rightarrow> lua_client" where
  "M_new p t = \<lparr>path = (case p of None \<Rightarrow> ''/run/voidgate.sock'' | Some p \<Rightarrow> p),
     timeout = (case t of None \<Rightarrow> 1 | Some t \<Rightarrow> t)\<rparr>"

subsection \<open>Bans\<close>

definition lua_host_cidr :: "lua \<Rightarrow> string option" where
  "lua_host_cidr ip =
     (case ip of
        LStr s \<Rightarrow>
          if s = [] \<or> (\<exists>ch \<in> set s. isspace ch \<or> ch = CHR ''/'') then None
          else Some (s @ (if CHR '':'' \<in> set s then ''/128'' else ''/32''))
      | _ \<Rightarrow> None)"

record ban_opt =
  o_dict :: "string option"
  o_window :: "real option"
  o_client :: "lua_client option"

text \<open>
  \<open>shared\<close> are the shared dictionaries by name, each by the error of \<open>add\<close> of a key for a time, and
  \<open>timer_at\<close> is the error of queueing \<open>ban_timer\<close>. The result comes with the ban that was queued.
\<close>

definition ban ::
  "(string \<Rightarrow> lnum option) \<Rightarrow> (string \<Rightarrow> (string \<Rightarrow> real \<Rightarrow> string option) option) \<Rightarrow>
   (lua_client \<Rightarrow> string \<Rightarrow> int \<Rightarrow> string option) \<Rightarrow> lua \<Rightarrow> lua \<Rightarrow> ban_opt \<Rightarrow>
   (lua_client \<times> string \<times> int) option \<times> (string + unit)" where
  "ban num shared timer_at ip ttl opt =
     (case lua_host_cidr ip of
        None \<Rightarrow> (None, Inl ''bad ip'')
      | Some net \<Rightarrow>
          (case check_ttl num ttl of
             None \<Rightarrow> (None, Inl ''bad ttl'')
           | Some n \<Rightarrow>
               (let c = (case o_client opt of None \<Rightarrow> M_new None None | Some c \<Rightarrow> c);
                    queue = (case timer_at c net n of None \<Rightarrow> (Some (c, net, n), Inr ()) | Some e \<Rightarrow> (None, Inl e))
                in case o_dict opt of
                     None \<Rightarrow> queue
                   | Some d \<Rightarrow>
                       (case shared d of
                          None \<Rightarrow> (None, Inl (''no lua_shared_dict '' @ d))
                        | Some add \<Rightarrow>
                            (case add net (case o_window opt of None \<Rightarrow> 10 | Some x \<Rightarrow> x) of
                               None \<Rightarrow> queue
                             | Some e \<Rightarrow> if e = ''exists'' then (None, Inr ()) else (None, Inl e))))))"

definition ban_timer ::
  "(string \<Rightarrow> lnum option) \<Rightarrow> cosock \<Rightarrow> bool \<Rightarrow> lua_client \<Rightarrow> string \<Rightarrow> int \<Rightarrow> string option \<times> (string + unit)" where
  "ban_timer num S premature c net ttl =
     (if premature then (None, Inr ()) else client_drop num S c (LStr net) (LNum (Fin (of_int ttl))))"

definition ban_now ::
  "(string \<Rightarrow> lnum option) \<Rightarrow> cosock \<Rightarrow> lua \<Rightarrow> lua \<Rightarrow> lua_client option \<Rightarrow> string option \<times> (string + unit)" where
  "ban_now num S ip ttl client =
     (case lua_host_cidr ip of
        None \<Rightarrow> (None, Inl ''bad ip'')
      | Some net \<Rightarrow>
          client_drop num S (case client of None \<Rightarrow> M_new None None | Some c \<Rightarrow> c) (LStr net) ttl)"

subsection \<open>Every drop of Lua is timed\<close>

text \<open>The prefixes that stay until an operator lifts them.\<close>

definition permanent_of :: "vg_drop_rec list \<Rightarrow> vg_cidr set" where
  "permanent_of ds = set (map cidr (filter (\<lambda>d. reason d = VG_REASON_MANUAL) ds))"

lemma permanent_map:
  assumes "\<And>d. reason d = VG_REASON_MANUAL \<Longrightarrow> f d = d" "\<And>d. reason d \<noteq> VG_REASON_MANUAL \<Longrightarrow> reason (f d) \<noteq> VG_REASON_MANUAL"
  shows "permanent_of (map f ds) = permanent_of ds"
  using assms by (induction ds) (auto simp: permanent_of_def)

lemma permanent_spec: "permanent_of (drop_spec cf p VG_REASON_TIMED now ex ds) = permanent_of ds"
proof (cases "p \<in> cidr ` set ds")
  case True
  have "permanent_of (map (\<lambda>d. if cidr d = p then redrop_rec cf VG_REASON_TIMED now ex d else d) ds) = permanent_of ds"
    by (rule permanent_map) (auto simp: redrop_rec_def)
  then show ?thesis using True by (simp add: drop_spec_def del: VG_REASON_TIMED_def)
next
  case False
  then show ?thesis by (simp add: drop_spec_def permanent_of_def)
qed

lemma permanent_eq:
  "map cidr ds = map cidr ds' \<Longrightarrow> map reason ds = map reason ds' \<Longrightarrow> permanent_of ds = permanent_of ds'"
proof (induction ds arbitrary: ds')
  case (Cons d ds)
  then show ?case by (cases ds') (auto simp: permanent_of_def)
qed (simp add: permanent_of_def)

lemma permanent_mono: "set ds \<subseteq> set ds' \<Longrightarrow> permanent_of ds \<subseteq> permanent_of ds'"
  by (auto simp: permanent_of_def)

lemma ttl_word:
  assumes "1 \<le> n" "n \<le> MAX_TTL"
  shows "uint (word_of_int n :: u32) = n"
  using assms by (simp add: unsigned_of_int take_bit_int_eq_self)

lemma ttl_text: "1 \<le> n \<Longrightarrow> n \<le> MAX_TTL \<Longrightarrow> parse_ttl (''ttl='' @ int_string n) = Some (word_of_int n)"
  unfolding ttl_value using ttl_word [of n]
  by (intro exI [of _ "int_string n"])
    (auto simp: int_string_def list_all_iff dec_value_dec_string dest: dec_string_digits)

lemma timed_drop:
  assumes "bpf_kernel K view" and "ctrl_inv rel pr c (view w)" and s: "\<forall>ch \<in> set s. \<not> isspace ch" and n: "1 \<le> n" "n \<le> MAX_TTL"
    and d: "ctl_drop K c (s @ '' ttl='' @ int_string n) w = (reply, c', w')"
  shows "permanent_of (drops (tab c')) = permanent_of (drops (tab c))"
proof -
  have "CHR '' '' \<notin> set s" using s by (auto simp: isspace_def)
  then have sp: "split_at CHR '' '' (s @ '' ttl='' @ int_string n) = (s, Some (''ttl='' @ int_string n))"
    using split_at_some [of "CHR '' ''" s "''ttl='' @ int_string n"] by simp
  have nz: "(word_of_int n :: u32) \<noteq> 0" using ttl_word [OF n] n by auto
  show ?thesis
  proof (cases "vg_parse_cidr_len (s @ '' ttl='' @ int_string n) (length s)")
    case None
    then show ?thesis using d by (simp add: ctl_drop_def sp del: REPLY_SIZE_def append.simps)
  next
    case (Some p)
    then obtain x where "vg_ctrl_drop_ttl K c p (word_of_int n) w = (x, c', w')"
      using d nz ttl_text [OF n] by (auto simp: ctl_drop_def sp simp del: REPLY_SIZE_def append.simps split: prod.splits)
    then obtain t w1 where t: "k_time K w = (t, w1)" and a: "drop_add K c p VG_REASON_TIMED (t + uint (word_of_int n :: u32)) w1 = (x, c', w')"
      by (auto simp: vg_ctrl_drop_ttl_def split: prod.splits)
    have inv: "ctrl_inv rel pr c (view w1)" using assms(2) bpf_kernel.time_step [OF assms(1) t] by simp
    note g = bpf_kernel.drop_add_good [OF assms(1) a inv parse_len_wf [OF Some]]
    show ?thesis using g(2)
    proof
      assume "x = 0"
      then show ?thesis using g(4) permanent_spec by simp
    next
      assume "x = - 1"
      then show ?thesis using g(5,6) permanent_eq by blast
    qed
  qed
qed

text \<open>The calls of the module that talk to the daemon, and what each of them sends.\<close>

datatype lua_call = Status | Stats | Drops | Arm | Disarm | Reload | Drop lua lua | Undrop lua | Ban_now lua lua

definition call_text :: "(string \<Rightarrow> lnum option) \<Rightarrow> cosock \<Rightarrow> lua_client \<Rightarrow> lua_call \<Rightarrow> string option" where
  "call_text num S self call =
     (case call of
        Status \<Rightarrow> fst (client_status num S self)
      | Stats \<Rightarrow> fst (client_stats num S self)
      | Drops \<Rightarrow> fst (client_drops num S self)
      | Arm \<Rightarrow> fst (client_arm S self)
      | Disarm \<Rightarrow> fst (client_disarm S self)
      | Reload \<Rightarrow> fst (client_reload S self)
      | Drop net ttl \<Rightarrow> fst (client_drop num S self net ttl)
      | Undrop net \<Rightarrow> fst (client_undrop S self net)
      | Ban_now ip ttl \<Rightarrow> fst (ban_now num S ip ttl (Some self)))"

definition drop_cmd :: "string \<Rightarrow> int \<Rightarrow> string" where
  "drop_cmd s n = ''drop '' @ s @ '' ttl='' @ int_string n"

lemma request_text: "fst (request_lua S self cmd) = Some text \<Longrightarrow> text = cmd @ [NL]"
  by (auto simp: request_lua_def Let_def split: option.splits)

lemma commit_text: "fst (commit S self cmd) = Some text \<Longrightarrow> text = cmd @ [NL]"
  using request_text [of S self cmd "text"] by (auto simp: commit_def split: prod.splits sum.splits)

lemma query_text:
  "fst (client_status num S self) = fst (request_lua S self ''status'')"
  "fst (client_stats num S self) = fst (request_lua S self ''stats'')"
  "fst (client_drops num S self) = fst (request_lua S self ''drops'')"
  by (simp_all add: client_status_def client_stats_def client_drops_def split: prod.splits sum.splits)

lemma check_ttl_range: "check_ttl num v = Some n \<Longrightarrow> 1 \<le> n \<and> n \<le> MAX_TTL"
  by (auto simp: check_ttl_def le_floor_iff floor_le_iff not_less split: option.splits lnum.splits if_splits)

lemma drop_text:
  assumes "fst (client_drop num S self net ttl) = Some text"
  obtains s n where "net = LStr s" "text = drop_cmd s n @ [NL]" "\<forall>ch \<in> set s. \<not> isspace ch" "check_ttl num ttl = Some n"
    "client_drop num S self net ttl = commit S self (drop_cmd s n)"
proof -
  obtain s n where "net = LStr s" "\<forall>ch \<in> set s. \<not> isspace ch" "check_ttl num ttl = Some n"
    "client_drop num S self net ttl = commit S self (drop_cmd s n)"
    using assms by (auto simp: client_drop_def cidr_text_def drop_cmd_def split: option.splits lua.splits if_splits)
  then show ?thesis using that assms commit_text by metis
qed

lemma call_cases:
  assumes call: "call_text num S self call = Some text"
  obtains (query) cmd where "text = cmd @ [NL]" "cmd \<in> {''status'', ''stats'', ''drops'', ''arm'', ''disarm'', ''reload''}"
  | (timed) s n where "text = drop_cmd s n @ [NL]" "\<forall>ch \<in> set s. \<not> isspace ch" "1 \<le> n" "n \<le> MAX_TTL"
  | (lift) s where "text = (''undrop '' @ s) @ [NL]" "\<forall>ch \<in> set s. \<not> isspace ch"
proof -
  have q: ?thesis if "fst (request_lua S self cmd) = Some text \<or> fst (commit S self cmd) = Some text"
    "cmd \<in> {''status'', ''stats'', ''drops'', ''arm'', ''disarm'', ''reload''}" for cmd
  proof -
    have "text = cmd @ [NL]" using that(1) request_text commit_text by blast
    then show ?thesis using that(2) by (rule query)
  qed
  have td: ?thesis if t: "fst (client_drop num S self net ttl) = Some text" for net ttl
  proof -
    obtain s n where sn: "text = drop_cmd s n @ [NL]" "\<forall>ch \<in> set s. \<not> isspace ch" "check_ttl num ttl = Some n"
      by (rule drop_text [OF t])
    show ?thesis using timed [OF sn(1,2)] check_ttl_range [OF sn(3)] by blast
  qed
  note d = call_text_def query_text client_arm_def client_disarm_def client_reload_def
  show ?thesis
  proof (cases call)
    case (Drop net ttl)
    then have "fst (client_drop num S self net ttl) = Some text" using call by (simp add: call_text_def)
    then show ?thesis by (rule td)
  next
    case (Ban_now ip ttl)
    then obtain net where "fst (client_drop num S self (LStr net) ttl) = Some text"
      using call by (auto simp: call_text_def ban_now_def split: option.splits)
    then show ?thesis by (rule td)
  next
    case (Undrop net)
    then obtain s where "\<forall>ch \<in> set s. \<not> isspace ch" "fst (commit S self (''undrop '' @ s)) = Some text"
      using call by (auto simp: call_text_def client_undrop_def cidr_text_def split: option.splits lua.splits if_splits)
    then show ?thesis using lift [OF commit_text] by blast
  next
    case Status
    then show ?thesis using call q [of "''status''"] by (simp add: d)
  next
    case Stats
    then show ?thesis using call q [of "''stats''"] by (simp add: d)
  next
    case Drops
    then show ?thesis using call q [of "''drops''"] by (simp add: d)
  next
    case Arm
    then show ?thesis using call q [of "''arm''"] by (simp add: d)
  next
    case Disarm
    then show ?thesis using call q [of "''disarm''"] by (simp add: d)
  next
    case Reload
    then show ?thesis using call q [of "''reload''"] by (simp add: d)
  qed
qed

lemma run_drop: "run_request K H fmt0 (''drop '' @ args) c w = ctl_drop K c args w"
  by (simp add: run_request_def vg_ctl_commands_def command_matches_def)

lemma run_undrop: "run_request K H fmt0 (''undrop '' @ args) c w = ctl_undrop K c args w"
  by (simp add: run_request_def vg_ctl_commands_def command_matches_def)

context voidgate_host
begin

lemma query_lists:
  assumes run: "run_request K H fmt0 cmd c w = (reply, c', w')" and inv: "ctrl_inv rel pr c (view w)"
    and R: "bpf_kernel_reliable K view" and cmd: "cmd \<in> {''status'', ''stats'', ''drops'', ''arm'', ''disarm'', ''reload''}"
  shows "set (drops (tab c')) \<subseteq> set (drops (tab c))"
proof -
  note r = run_request_def vg_ctl_commands_def command_matches_def
  have "cmd = ''status'' \<or> cmd = ''stats'' \<or> cmd = ''drops'' \<or> cmd = ''arm'' \<or> cmd = ''disarm'' \<or> cmd = ''reload''"
    using cmd by (simp only: insert_iff empty_iff simp_thms)
  then show ?thesis
  proof (elim disjE)
    assume q: "cmd = ''status''"
    show ?thesis using q run by (simp add: r ctl_status_def del: REPLY_SIZE_def)
  next
    assume q: "cmd = ''stats''"
    have "ctl_stats K fmt0 c [] w = (reply, c', w')" using q run by (simp add: r)
    then have "c' = c" by (simp add: ctl_stats_def del: REPLY_SIZE_def split: prod.splits option.splits)
    then show ?thesis by simp
  next
    assume q: "cmd = ''drops''"
    have d: "ctl_drops K c [] w = (reply, c', w')" using q run by (simp add: r)
    show ?thesis using ctl_drops_same [OF d] by simp
  next
    assume q: "cmd = ''arm''"
    obtain x c1 w1 where a: "vg_ctrl_arm K c w = (x, c1, w1)" by (metis prod_cases3)
    then show ?thesis using q run arm_good(4) [OF a] by (simp add: r ctl_arm_def del: REPLY_SIZE_def)
  next
    assume q: "cmd = ''disarm''"
    obtain x c1 w1 where a: "vg_ctrl_disarm K c w = (x, c1, w1)" by (metis prod_cases3)
    then show ?thesis using q run disarm_good(2) [OF a R inv] by (simp add: r ctl_disarm_def del: REPLY_SIZE_def)
  next
    assume q: "cmd = ''reload''"
    obtain x c1 w1 where a: "vg_ctrl_reload K H c w = (x, c1, w1)" by (metis prod_cases3)
    then have c1: "c' = c1" using q run by (simp add: r ctl_reload_def del: REPLY_SIZE_def)
    show ?thesis using a
    proof (cases rule: reload_cases)
      case (2 n w2 k w3 e w4)
      have "ctrl_inv rel False (c\<lparr>cfg := n\<rparr>) (view w2)" using inv_new_config [OF inv 2(1)] 2(2) by simp
      then show ?thesis using prune_good(3) [OF 2(3)] c1 by simp
    qed (simp add: c1)
  qed
qed

lemma lua_permanent:
  assumes "call_text num S self call = Some text" and "run_request K H fmt0 (butlast text) c w = (reply, c', w')"
    and inv: "ctrl_inv rel pr c (view w)" and R: "bpf_kernel_reliable K view"
  shows "permanent_of (drops (tab c')) \<subseteq> permanent_of (drops (tab c))"
  using assms(1)
proof (cases rule: call_cases)
  case (query cmd)
  then show ?thesis using query_lists [OF _ inv R, of fmt0 cmd] assms(2) permanent_mono by simp
next
  case (timed s n)
  have "ctl_drop K c (s @ '' ttl='' @ int_string n) w = (reply, c', w')"
    using assms(2) unfolding timed(1) butlast_snoc drop_cmd_def run_drop .
  then show ?thesis using timed_drop [OF bpf_kernel_axioms inv timed(2-4)] by blast
next
  case (lift s)
  have u: "ctl_undrop K c s w = (reply, c', w')"
    using assms(2) unfolding lift(1) butlast_snoc run_undrop .
  show ?thesis
  proof (cases "vg_parse_cidr s")
    case None
    then show ?thesis using u by (simp add: ctl_undrop_def del: REPLY_SIZE_def)
  next
    case (Some p)
    obtain x c1 w1 where d: "vg_ctrl_undrop K c p w = (x, c1, w1)" by (metis prod_cases3)
    then have "c' = c1" using u Some by (simp add: ctl_undrop_def del: REPLY_SIZE_def)
    moreover have "set (drops (tab c1)) \<subseteq> set (drops (tab c))"
      using undrop_good(2-4) [OF d inv parse_cidr_wf [OF Some]] by auto
    ultimately show ?thesis using permanent_mono by simp
  qed
qed

end

text \<open>
  C15: Lua cannot install a permanent drop. Whatever method of the client is called, with whatever
  arguments, in any state the daemon can reach, what is sent is one line, and after the daemon has run
  that whole line no prefix is dropped permanently that was not before.
\<close>

theorem lua_never_permanent:
  assumes "voidgate_host K view H" and "bpf_kernel_reliable K view" and "sys_reach K view H fl fmt0 (c, w)"
    and "call_text num S self call = Some text" and "run_request K H fmt0 (butlast text) c w = (reply, c', w')"
  shows "last text = NL \<and> NL \<notin> set (butlast text) \<and>
    permanent_of (drops (tab c')) \<subseteq> permanent_of (drops (tab c))"
proof -
  have sp: "NL \<notin> set s" if "\<forall>ch \<in> set s. \<not> isspace ch" for s using that by (auto simp: isspace_def)
  have dg: "NL \<notin> set (int_string k)" for k
    using dec_string_digits [of NL] by (auto simp: int_string_def is_digit_def)
  have "\<exists>cmd. text = cmd @ [NL] \<and> NL \<notin> set cmd"
    using assms(4)
  proof (cases rule: call_cases)
    case (query cmd)
    then show ?thesis by auto
  next
    case (timed s n)
    then show ?thesis using sp dg by (intro exI [of _ "drop_cmd s n"]) (simp add: drop_cmd_def)
  next
    case (lift s)
    then show ?thesis using sp by (intro exI [of _ "''undrop '' @ s"]) simp
  qed
  then have "last text = NL \<and> NL \<notin> set (butlast text)" by auto
  moreover have "ctrl_inv True True c (view w)" using voidgate_host.reach_inv [OF assms(1,3,2)] by simp
  ultimately show ?thesis using voidgate_host.lua_permanent [OF assms(1,4,5) _ assms(2)] by blast
qed

subsection \<open>A ban that is confirmed is in force\<close>

lemma parse_len_take: "vg_parse_cidr_len (s @ t) (length s) = vg_parse_cidr s"
  by (simp add: vg_parse_cidr_def vg_parse_cidr_len_def)

lemma split_at_mem: "ch \<in> set s \<Longrightarrow> snd (split_at ch s) \<noteq> None"
  by (induction s) (auto split: prod.splits)

lemma parse_plen:
  assumes "vg_parse_cidr net = Some p" "split_at CHR ''/'' net = (s, Some t)" "plen_loop 0 t = Some l" "t \<noteq> []" "0 \<le> l" "l \<le> 128"
  shows "int (plen p) = l" "family p = (if CHR '':'' \<in> set s then AF_INET6 else AF_INET)"
  using assms split_at_mem [of "CHR '':''" s] split_at_none [of "CHR '':''" s]
  by (auto simp: vg_parse_cidr_def vg_parse_cidr_len_def Let_def vg_cidr_mask_def plen_def uint_nat [symmetric]
      unsigned_of_int take_bit_int_eq_self split: option.splits if_splits)

lemma host_plen:
  assumes "lua_host_cidr ip = Some net" "vg_parse_cidr net = Some p"
  shows "plen p = width (family p)"
proof -
  obtain s where ip: "ip = LStr s" using assms(1) by (cases ip) (simp_all add: lua_host_cidr_def)
  have "\<not> (s = [] \<or> (\<exists>ch \<in> set s. isspace ch \<or> ch = CHR ''/''))"
    using assms(1) unfolding ip lua_host_cidr_def lua.case by (metis option.distinct(1))
  then have net: "net = s @ (if CHR '':'' \<in> set s then ''/128'' else ''/32'')" and s: "CHR ''/'' \<notin> set s"
    using assms(1) unfolding ip lua_host_cidr_def lua.case by simp_all blast
  have pl: "plen_loop 0 ''32'' = Some 32" "plen_loop 0 ''128'' = Some 128" by (simp_all add: digit_val_def is_digit_def)
  show ?thesis
  proof (cases "CHR '':'' \<in> set s")
    case True
    then have sp: "split_at CHR ''/'' net = (s, Some ''128'')" using net split_at_some [OF s, of "''128''"] by simp
    show ?thesis using parse_plen [OF assms(2) sp pl(2)] True by (simp add: width_def)
  next
    case False
    then have sp: "split_at CHR ''/'' net = (s, Some ''32'')" using net split_at_some [OF s, of "''32''"] by simp
    show ?thesis using parse_plen [OF assms(2) sp pl(1)] False by (simp add: width_def)
  qed
qed

lemma commit_ok:
  assumes "commit S self cmd = (t, Inr ())"
  shows "s_receive S (cmd @ [NL]) = Inr (''ok'' @ [NL])"
  using assms by (auto simp: commit_def request_lua_def Let_def split: option.splits sum.splits if_splits)

text \<open>
  C16: A ban that \<open>ban_now\<close> confirms is in force: when the answer it read is the daemon's, and it returns
  true, then the address is listed as a single host, the gate is active, and the address is not
  protected.
\<close>

theorem ban_now_blocks:
  assumes "bpf_kernel K view" and "ctrl_inv rel pr c (view w)"
    and "run_request K H fmt0 (butlast text) c w = (reply, c', w')" and "s_receive S text = Inr reply"
    and "ban_now num S ip ttl client = (Some text, Inr ())"
  shows "\<exists>net p. lua_host_cidr ip = Some net \<and> vg_parse_cidr net = Some p \<and> plen p = width (family p) \<and>
    p \<in> listed c' \<and> state c' = VG_ACTIVE \<and> cidr_set p \<inter> protected_set (cfg c) = {}"
proof -
  let ?cl = "case client of None \<Rightarrow> M_new None None | Some c \<Rightarrow> c"
  obtain net where net: "lua_host_cidr ip = Some net" and d: "client_drop num S ?cl (LStr net) ttl = (Some text, Inr ())"
    using assms(5) by (auto simp: ban_now_def split: option.splits)
  have dt: "fst (client_drop num S ?cl (LStr net) ttl) = Some text" using d by simp
  obtain s n where sn: "LStr net = LStr s" "text = drop_cmd s n @ [NL]" "\<forall>ch \<in> set s. \<not> isspace ch"
    "client_drop num S ?cl (LStr net) ttl = commit S ?cl (drop_cmd s n)"
    by (rule drop_text [OF dt])
  have t: "text = drop_cmd net n @ [NL]" and sp: "\<forall>ch \<in> set net. \<not> isspace ch"
    and cm: "commit S ?cl (drop_cmd net n) = (Some text, Inr ())"
    using sn d by simp_all
  let ?args = "net @ '' ttl='' @ int_string n"
  have r: "ctl_drop K c ?args w = (''ok'' @ [NL], c', w')"
    using assms(3,4) commit_ok [OF cm] unfolding t butlast_snoc drop_cmd_def run_drop by simp
  have "CHR '' '' \<notin> set net" using sp by (auto simp: isspace_def)
  then have "split_at CHR '' '' ?args = (net, Some (''ttl='' @ int_string n))"
    using split_at_some [of "CHR '' ''" net "''ttl='' @ int_string n"] by simp
  then obtain p where "vg_parse_cidr net = Some p" "p \<in> listed c'" "state c' = VG_ACTIVE" "cidr_set p \<inter> protected_set (cfg c) = {}"
    using drop_reply [OF assms(1,2) r] parse_len_take [of net] by auto
  then show ?thesis using net host_plen [OF net] by blast
qed

subsection \<open>What the client reads is what the daemon printed\<close>

lemma newline_runs_line:
  "NL \<notin> set b \<Longrightarrow> cur @ b \<noteq> [] \<Longrightarrow> newline_runs (b @ NL # rest) cur = (cur @ b) # newline_runs rest []"
  by (induction b arbitrary: cur) auto

lemma match_line_fields:
  assumes "\<forall>ch \<in> set (a @ b @ e). \<not> isspace ch" "a \<noteq> []" "b \<noteq> []" "e \<noteq> []"
  shows "match_line (a @ '' reason='' @ b @ '' age='' @ e) = Some (a, b, e)"
  using assms by (simp add: match_line_def match_text_def takeWhile_append2 dropWhile_append2 isspace_def)

lemma digits_nonspace: "ch \<in> set (dec_string n) \<Longrightarrow> \<not> isspace ch"
  using digit_not_space dec_string_digits by blast

lemma hex_nonspace: "ch \<in> set (hex_string n) \<Longrightarrow> \<not> isspace ch"
proof (induction n rule: hex_string.induct)
  case (1 n)
  have "\<not> isspace (hex_digit (k mod 16))" for k
  proof -
    have "k mod 16 < 16" by simp
    then show ?thesis by (auto simp: hex_digit_def isspace_def Let_def)
  qed
  from this [of n] show ?case using 1 by (subst (asm) hex_string.simps) (auto split: if_splits)
qed

lemma ntop_nonspace: "ch \<in> set (inet_ntop fam a) \<Longrightarrow> \<not> isspace ch"
proof -
  have v4: "ch \<in> set (inet_ntop4 b) \<Longrightarrow> \<not> isspace ch" for b
    using inet_ntop4_chars [of ch b] digit_not_space by (auto simp: isspace_def)
  have loop: "ch \<in> set (ntop6_loop a all bl i gs) \<Longrightarrow> \<not> isspace ch" for all bl i gs
    using v4 hex_nonspace
    by (induction a all bl i gs rule: ntop6_loop.induct) (auto simp: isspace_def split: if_splits)
  show "ch \<in> set (inet_ntop fam a) \<Longrightarrow> \<not> isspace ch"
    using v4 loop by (auto simp: inet_ntop_def inet_ntop6_def Let_def split: if_splits)
qed

lemma cidr_text_nonspace: "\<forall>ch \<in> set (vg_cidr_to_str p 80). \<not> isspace ch" "vg_cidr_to_str p 80 \<noteq> []"
  using ntop_nonspace digits_nonspace
  by (auto simp: vg_cidr_to_str_def isspace_def dest!: in_set_takeD)

lemma int_nonspace: "\<forall>ch \<in> set (int_string i). \<not> isspace ch" "int_string i \<noteq> []"
  using digits_nonspace by (auto simp: int_string_def isspace_def)

lemma word_nonspace: "\<forall>ch \<in> set (word_string x). \<not> isspace ch" "word_string x \<noteq> []"
  using digits_nonspace by (auto simp: word_string_def)

lemma runs_drop_line:
  "newline_runs (drop_line t d @ rest) [] =
     (vg_cidr_to_str (cidr d) 80 @ '' reason='' @ word_string (reason d) @ '' age='' @ int_string (t - inserted d)) # newline_runs rest []"
proof -
  let ?b = "vg_cidr_to_str (cidr d) 80 @ '' reason='' @ word_string (reason d) @ '' age='' @ int_string (t - inserted d)"
  have "isspace NL" by (simp add: isspace_def)
  then have "NL \<notin> set ?b" using cidr_text_nonspace(1) [of "cidr d"] word_nonspace(1) [of "reason d"] int_nonspace(1) [of "t - inserted d"] by auto
  then show ?thesis using newline_runs_line [of ?b "[]" rest] by (simp add: drop_line_def)
qed

text \<open>
  C31: \<open>client:drops\<close> reads back what \<open>drops\<close> prints: from the text of any list of drops it recovers every
  prefix, reason and age, in order and nothing else, and no entry from the text for an empty list.
\<close>

theorem lua_drops_listing:
  "drops_of num (listing ts ds) =
     map2 (\<lambda>t d. (vg_cidr_to_str (cidr d) 80, number_or_text num (word_string (reason d)),
       number_or_text num (int_string (t - inserted d)))) ts ds \<and>
   drops_of num (''(none)'' @ [NL]) = []"
proof
  show "drops_of num (listing ts ds) = map2 (\<lambda>t d. (vg_cidr_to_str (cidr d) 80, number_or_text num (word_string (reason d)),
       number_or_text num (int_string (t - inserted d)))) ts ds"
  proof (induction ts ds rule: list_induct2')
    case (4 t ts d ds)
    have "match_line (vg_cidr_to_str (cidr d) 80 @ '' reason='' @ word_string (reason d) @ '' age='' @ int_string (t - inserted d)) =
        Some (vg_cidr_to_str (cidr d) 80, word_string (reason d), int_string (t - inserted d))"
      using cidr_text_nonspace word_nonspace [of "reason d"] int_nonspace by (intro match_line_fields) auto
    then show ?case using 4 runs_drop_line [of t d "listing ts ds"]
      by (simp add: drops_of_def listing_def List.map_filter_simps del: append.simps append_assoc)
  qed (simp_all add: drops_of_def listing_def List.map_filter_simps)
  show "drops_of num (''(none)'' @ [NL]) = []"
    by (simp add: drops_of_def match_line_def match_text_def List.map_filter_simps isspace_def)
qed

text \<open>One \<open>key=value\<close> of a reply and the white space after it.\<close>

definition field :: "string \<Rightarrow> string \<Rightarrow> char \<Rightarrow> string \<Rightarrow> string" where
  "field k v sp rest = k @ ''='' @ v @ sp # rest"

lemma kv_pairs_field:
  assumes "k \<noteq> []" "list_all wordch k" "v \<noteq> []" "\<forall>ch \<in> set v. \<not> isspace ch" "isspace sp"
  shows "kv_pairs (field k v sp rest) = (k, v) # kv_pairs rest"
proof -
  have e: "\<not> wordch CHR ''=''" by (simp add: wordch_def is_digit_def)
  have ns: "\<not> wordch sp" using assms(5) by (auto simp: wordch_def isspace_def is_digit_def Let_def)
  have "kv_pairs (field k v sp rest) = (k, v) # kv_pairs (sp # rest)"
    using assms e unfolding field_def list_all_iff
    by (subst kv_pairs.simps) (simp add: takeWhile_append2 dropWhile_append2)
  also have "kv_pairs (sp # rest) = kv_pairs rest" using ns by (subst kv_pairs.simps) simp
  finally show ?thesis .
qed

definition stats_text :: "vg_metrics \<Rightarrow> string \<Rightarrow> string \<Rightarrow> string \<Rightarrow> string \<Rightarrow> string" where
  "stats_text m pps bps st n =
     field ''rx_pkts'' (word_string (rx_pkts m)) CHR '' '' (field ''rx_bytes'' (word_string (rx_bytes m)) CHR '' ''
       (field ''passed'' (word_string (passed m)) CHR '' '' (field ''dropped'' (word_string (dropped m)) CHR '' ''
         (field ''non_ip'' (word_string (non_ip m)) CHR '' '' (field ''map_full'' (word_string (map_full m)) CHR '' ''
           (field ''parse_err'' (word_string (parse_err m)) NL (field ''rx_pps'' pps CHR '' ''
             (field ''rx_bps'' bps CHR '' '' (field ''state'' st CHR '' '' (field ''prefixes'' n NL []))))))))))"

lemma stats_reply:
  assumes "vg_metrics_read K (maps c) w = (Some m, w')"
    and "\<forall>x. length (fmt0 x) \<le> 320" and "- (2 ^ 31) \<le> drop_count (tab c)" and "drop_count (tab c) < 2 ^ 31"
  shows "fst (ctl_stats K fmt0 c args w) = stats_text m (fmt0 (rx_pps c)) (fmt0 (rx_bps c)) (state_name (state c)) (int_string (drop_count (tab c)))"
proof -
  let ?t = "stats_text m (fmt0 (rx_pps c)) (fmt0 (rx_bps c)) (state_name (state c)) (int_string (drop_count (tab c)))"
  have "length (state_name (state c)) \<le> 6" by (simp add: state_name_def)
  then have "length ?t < REPLY_SIZE"
    using u64_string_length [of "rx_pkts m"] u64_string_length [of "rx_bytes m"] u64_string_length [of "passed m"]
      u64_string_length [of "dropped m"] u64_string_length [of "non_ip m"] u64_string_length [of "map_full m"]
      u64_string_length [of "parse_err m"] int_string_length [OF assms(3,4)] spec [OF assms(2), of "rx_pps c"] spec [OF assms(2), of "rx_bps c"]
    by (simp add: stats_text_def field_def)
  moreover have "fst (ctl_stats K fmt0 c args w) = snprintf REPLY_SIZE ?t"
    using assms(1) by (simp add: ctl_stats_def stats_text_def field_def del: REPLY_SIZE_def)
  ultimately show ?thesis by (simp add: snprintf_def)
qed

text \<open>
  C32: \<open>client:stats\<close> loses nothing of the daemon's answer: each of the seven 64-bit counters reaches Lua
  as its exact decimal text, however large, next to the rates, the state and the number of listed
  prefixes, as long as the rates are printed as \<open>%.0f\<close> does, without white space and in at most 320
  characters.
\<close>

theorem lua_stats_exact:
  assumes "vg_metrics_read K (maps c) w = (Some m, w')"
    and "\<forall>x. fmt0 x \<noteq> [] \<and> length (fmt0 x) \<le> 320 \<and> (\<forall>ch \<in> set (fmt0 x). \<not> isspace ch)"
    and "- (2 ^ 31) \<le> drop_count (tab c)" and "drop_count (tab c) < 2 ^ 31"
  shows "kv num (fst (ctl_stats K fmt0 c args w)) =
    [''rx_pkts'' \<mapsto> LStr (word_string (rx_pkts m)), ''rx_bytes'' \<mapsto> LStr (word_string (rx_bytes m)),
     ''passed'' \<mapsto> LStr (word_string (passed m)), ''dropped'' \<mapsto> LStr (word_string (dropped m)),
     ''non_ip'' \<mapsto> LStr (word_string (non_ip m)), ''map_full'' \<mapsto> LStr (word_string (map_full m)),
     ''parse_err'' \<mapsto> LStr (word_string (parse_err m)), ''rx_pps'' \<mapsto> number_or_text num (fmt0 (rx_pps c)),
     ''rx_bps'' \<mapsto> number_or_text num (fmt0 (rx_bps c)), ''state'' \<mapsto> number_or_text num (state_name (state c)),
     ''prefixes'' \<mapsto> number_or_text num (int_string (drop_count (tab c)))]"
proof -
  have st: "state_name (state c) \<noteq> []" "\<forall>ch \<in> set (state_name (state c)). \<not> isspace ch"
    by (simp_all add: state_name_def isspace_def)
  have sp: "isspace CHR '' ''" "isspace NL" "kv_pairs [] = []" by (simp_all add: isspace_def kv_pairs.simps)
  have t: "fst (ctl_stats K fmt0 c args w) = stats_text m (fmt0 (rx_pps c)) (fmt0 (rx_bps c)) (state_name (state c)) (int_string (drop_count (tab c)))"
    using assms by (intro stats_reply) auto
  show ?thesis
    unfolding t stats_text_def kv_def
    using assms(2) by (simp add: kv_pairs_field wordch_def is_digit_def word_nonspace int_nonspace st sp counters_def)
qed

subsection \<open>An example\<close>

text \<open>A client that bans 192.0.2.2 for a minute at the daemon of the other examples.\<close>

lemma commit_sends:
  assumes "s_tcp S = None" "\<And>a. s_connect S a = None"
  shows "fst (commit S self cmd) = Some (cmd @ [NL])"
  using assms by (auto simp: commit_def request_lua_def Let_def split: option.splits sum.splits)

definition ex_run :: "string \<Rightarrow> string \<times> vg_ctrl \<times> rkernel" where
  "ex_run req = run_request ref_kernel (ref_host (\<lambda>_. None) None) (\<lambda>_. ''0'') req ex_ctrl ex_world"

definition ex_sock :: cosock where
  "ex_sock = \<lparr>s_tcp = None, s_connect = (\<lambda>_. None), s_send = (\<lambda>_. None), s_receive = (\<lambda>t. Inr (fst (ex_run (butlast t))))\<rparr>"

abbreviation ex_ban :: "string option \<times> (string + unit)" where
  "ex_ban \<equiv> ban_now (\<lambda>_. None) ex_sock (LStr ''192.0.2.2'') (LNum (Fin 60)) None"

lemma ex_ban_commit: "ex_ban = commit ex_sock (M_new None None) (''drop '' @ ''192.0.2.2/32 ttl=60'')"
proof -
  have "check_ttl (\<lambda>_. None) (LNum (Fin 60)) = Some 60" by (simp add: check_ttl_def tonumber_def)
  moreover have "int_string 60 = ''60''" by code_simp
  ultimately show ?thesis by (simp add: ban_now_def lua_host_cidr_def client_drop_def cidr_text_def isspace_def)
qed

lemma ex_ban_sends: "fst ex_ban = Some ((''drop '' @ ''192.0.2.2/32 ttl=60'') @ [NL])"
  unfolding ex_ban_commit by (rule commit_sends) (simp_all add: ex_sock_def)

lemma ex_ban_run:
  obtains c w where "ex_run (''drop '' @ ''192.0.2.2/32 ttl=60'') = (''ok'' @ [NL], c, w)"
proof -
  let ?h = "host_cidr AF_INET [192, 0, 2, 2]"
  have sp: "split_at CHR '' '' ''192.0.2.2/32 ttl=60'' = (''192.0.2.2/32'', Some ''ttl=60'')" by code_simp
  have p: "vg_parse_cidr_len ''192.0.2.2/32 ttl=60'' (length ''192.0.2.2/32'') = Some ?h" by code_simp
  have t: "parse_ttl ''ttl=60'' = Some 60" by code_simp
  have k: "k_time ref_kernel ex_world = (1000, ex_world)" by (simp add: ref_kernel_def ex_world_def)
  have room: "has_room ex_ctrl (r_view ex_world) ?h" using ex_room by (simp add: has_room_def of_family_def host_cidr_def ex_net_def)
  obtain x c w where d: "drop_add ref_kernel ex_ctrl ?h VG_REASON_TIMED 1060 ex_world = (x, c, w)" by (metis prod_cases3)
  have "x = 0" using d room ex_flooder_free
      refr.drop_add_live [OF ex_inv [of True True] parse_len_wf [OF p], of VG_REASON_TIMED 1060] by (simp add: ex_ctrl_facts(3))
  then have "ctl_drop ref_kernel ex_ctrl ''192.0.2.2/32 ttl=60'' ex_world = (''ok'' @ [NL], c, w)"
    unfolding ctl_drop_def sp Let_def prod.case p option.case t
    using d ok_reply by (simp add: vg_ctrl_drop_ttl_def k del: REPLY_SIZE_def)
  then show ?thesis using that unfolding ex_run_def run_drop by blast
qed

theorem lua_never_permanent_witness:
  "\<exists>reply c w. ex_run (''drop '' @ ''192.0.2.2/32 ttl=60'') = (reply, c, w) \<and> permanent_of (drops (tab c)) = {}"
proof -
  have reach: "sys_reach ref_kernel r_view (ref_host (\<lambda>_. None) None) (\<lambda>x. x) (\<lambda>_. ''0'') (ex_ctrl, ex_world)"
    by (rule reach_init [OF ex_ctrl_init defaults_ok(1)]) (auto simp: keys_ok_def r_view_def ex_world_def)
  have t: "call_text (\<lambda>_. None) ex_sock (M_new None None) (Ban_now (LStr ''192.0.2.2'') (LNum (Fin 60))) =
      Some ((''drop '' @ ''192.0.2.2/32 ttl=60'') @ [NL])"
  proof -
    have "ban_now (\<lambda>_. None) ex_sock (LStr ''192.0.2.2'') (LNum (Fin 60)) (Some (M_new None None)) = ex_ban"
      unfolding ban_now_def option.case ..
    then show ?thesis using ex_ban_sends by (simp add: call_text_def)
  qed
  obtain reply c w where r: "ex_run (butlast ((''drop '' @ ''192.0.2.2/32 ttl=60'') @ [NL])) = (reply, c, w)" by (metis prod_cases3)
  show ?thesis
    using lua_never_permanent [OF refh.voidgate_host_axioms ref.bpf_kernel_reliable_axioms reach t r [unfolded ex_run_def]] r
    by (simp add: ex_listed permanent_of_def)
qed

theorem ban_now_blocks_witness:
  "\<exists>c w. ex_run (''drop '' @ ''192.0.2.2/32 ttl=60'') = (''ok'' @ [NL], c, w) \<and> snd ex_ban = Inr () \<and>
     host_cidr AF_INET [192, 0, 2, 2] \<in> listed c \<and> state c = VG_ACTIVE"
proof -
  obtain c w where r: "ex_run (''drop '' @ ''192.0.2.2/32 ttl=60'') = (''ok'' @ [NL], c, w)" by (rule ex_ban_run)
  have b: "ex_ban = (Some ((''drop '' @ ''192.0.2.2/32 ttl=60'') @ [NL]), Inr ())"
    unfolding ex_ban_commit using r by (simp add: commit_def request_lua_def ex_sock_def)
  have p: "lua_host_cidr (LStr ''192.0.2.2'') = Some ''192.0.2.2/32''" "vg_parse_cidr ''192.0.2.2/32'' = Some (host_cidr AF_INET [192, 0, 2, 2])"
    by code_simp+
  have v: "run_request ref_kernel (ref_host (\<lambda>_. None) None) (\<lambda>_. ''0'') (butlast ((''drop '' @ ''192.0.2.2/32 ttl=60'') @ [NL]))
      ex_ctrl ex_world = (''ok'' @ [NL], c, w)"
    using r unfolding ex_run_def butlast_snoc .
  have s: "s_receive ex_sock ((''drop '' @ ''192.0.2.2/32 ttl=60'') @ [NL]) = Inr (''ok'' @ [NL])"
    using r unfolding ex_sock_def cosock.simps butlast_snoc by (simp only: fst_conv)
  show ?thesis using ban_now_blocks [OF ref.bpf_kernel_axioms ex_inv [of True True] v s b] r b p by auto
qed

theorem lua_stats_exact_witness:
  "kv (\<lambda>_. None) (fst (ctl_stats ref_kernel (\<lambda>_. ''0'') ex_ctrl [] ex_world)) ''rx_bytes'' = Some (LStr ''150'')"
proof -
  have m: "maps ex_ctrl = ex_maps" using init_fields [OF ex_ctrl_init] by simp
  have b: "word_string (150 :: u64) = ''150''" by code_simp
  have r: "vg_metrics_read ref_kernel (maps ex_ctrl) ex_world =
      (Some \<lparr>rx_pkts = 3, rx_bytes = 150, passed = 3, dropped = 0, non_ip = 0, map_full = 0, parse_err = 0\<rparr>, ex_world)"
    by (simp add: m ex_maps_def vg_metrics_read_def vg_sum_percpu_def ref_kernel_def r_percpu_lookup_def ex_world_def
        add_row_def to_metrics_def numeral_nat)
  have "drop_count (tab ex_ctrl) = 0"
    using ex_ctrl_facts(1) [of True] ex_ctrl_facts(4) tab_facts(3) by (simp add: ctrl_ok_def)
  then show ?thesis using lua_stats_exact [OF r, of "\<lambda>_. ''0''" "\<lambda>_. None" "[]"] b by (simp add: isspace_def)
qed

end
