(* ===== verification/Spec2Isabelle.thy ===== *)
theory Spec2Isabelle
  imports IntrusiveList XdpFragment XdpCount LuaClient
begin

text \<open>
  voidGate is a packet gate for a Linux host. An XDP program in the kernel (\<open>src/src/bpf/voidgate.bpf.c\<close>)
  drops packets from or to listed prefixes; a daemon (\<open>src/src/voidgate.c\<close>) decides what is listed, by
  commands on a Unix socket and by a policy on traffic rates, and writes it into BPF maps that the
  program reads. Two clients talk to the socket: \<open>voidgatectl\<close> and a Lua module for OpenResty. This
  library models all of them and proves what each part promises and what they promise together.

  \<^bold>\<open>Theories.\<close> In the order of the imports:

  \<^item> \<open>VG_Prelude\<close>, \<open>Libc\<close>: integer widths, bits of byte arrays, the named collections; the C library
    routines the sources use (\<open>inet_pton\<close>, \<open>inet_ntop\<close>, \<open>strtoull\<close>, decimal output).
  \<^item> \<open>IpAddr\<close>, \<open>IpText\<close>: \<open>ipaddr.c\<close>. A prefix denotes a set of addresses (\<open>cidr_set\<close>); containment and
    overlap decide inclusion and intersection of these sets, and IPv4 text is read back.
  \<^item> \<open>IntrusiveList\<close>: \<open>list.h\<close> on an explicit store of links, refined to lists by a representation predicate.
  \<^item> \<open>Shared\<close>, \<open>Config\<close>, \<open>ConfigFile\<close>: \<open>bpf/voidgate.h\<close> and \<open>config.c\<close>; what a configuration file is read to,
    that an accepted one fits the fixed arrays, and that the interface's own addresses are protected.
  \<^item> \<open>Kernel\<close>: the BPF maps and the clock as a parameter, the record \<open>kern\<close> of the calls the sources make on
    a state \<open>'w\<close> of the world. The locales \<open>bpf_kernel\<close>, \<open>bpf_kernel_reliable\<close> (deleting a present entry
    succeeds) and \<open>bpf_kernel_room\<close> (an update fails only on a full map) state what is relied on, over an
    abstract view \<open>kview\<close>; \<open>ref_kernel\<close> is a kernel on association lists that satisfies all of it.
  \<^item> \<open>Maps\<close>, \<open>Attach\<close>: \<open>maps.c\<close>, the run-time operations, and opening, attaching and closing.
  \<^item> \<open>DropTable\<close>, \<open>Snap\<close>: the two hash tables of \<open>policy.c\<close>, pool, buckets and chains, refined to lists.
  \<^item> \<open>Policy\<close>: every routine of \<open>policy.c\<close> on the record \<open>vg_ctrl\<close>. \<open>PolicyInv\<close> has the invariant \<open>ctrl_inv\<close>
    between the controller and the kernel's maps and that each operation keeps it, \<open>PolicyRun\<close> the walks,
    the expiry and the tick, \<open>PolicyInit\<close> when set-up ends, and \<open>PolicySpec\<close> the contract as theorems
    over the list of drops.
  \<^item> \<open>CtlServer\<close>, \<open>CtlInv\<close>, \<open>CtlSpec\<close>: \<open>ctl_server.c\<close>, commands, connections and reload. The locale
    \<open>voidgate_host\<close> adds the files and interfaces of the host.
  \<^item> \<open>Http\<close>: \<open>http.c\<close>. \<open>Client\<close>: \<open>voidgatectl.c\<close>. \<open>LuaClient\<close>: \<open>lua/resty/voidgate.lua\<close>, with the theorems that
    Lua can never make a drop permanent and that it reads what the daemon printed.
  \<^item> \<open>Xdp\<close>: the XDP program in the option monad, where a load outside the packet is \<open>None\<close>. \<open>XdpSpec\<close> shows
    that this never happens and gives a specification without loads; \<open>XdpFrame\<close> gives the verdict on
    well-formed frames in terms of what the sender encoded, \<open>XdpFragment\<close> the one on later fragments and
    long header chains, whose ports the program does not see; \<open>XdpCount\<close> has the counters.
  \<^item> \<open>Daemon\<close>, \<open>DaemonSpec\<close>: options, pid file, start-up, event loop, shutdown and \<open>-s stop\<close>; the daemon as a
    step relation \<open>sys_step\<close>, with the invariant in every reachable state (\<open>sys_reach\<close>).
  \<^item> This theory joins the control plane to the data plane: what the program sees of the maps the daemon
    wrote (\<open>env_of\<close>), and so what happens to packets in every state the daemon can reach.

  \<^bold>\<open>Correspondence.\<close> Definitions carry the names of the functions they model. A struct is a record, and
  stateful code takes and returns the state; the control plane's state is \<open>vg_ctrl\<close> (\<open>struct vg_ctrl\<close>) with
  \<open>tab\<close> (\<open>drop_tab\<close>) and \<open>snap\<close> (\<open>snap_tab\<close>) grouping its fields for the two tables. Errors are \<open>None\<close>, \<open>Inl\<close> or
  the negative return value of the source. The results of system calls are arguments or lists of
  results, one per call. Words have the width of the C type; \<open>double\<close> arithmetic is on \<open>real\<close> with
  every rounding an application of a function \<open>fl\<close>, and \<open>fmt0\<close> is the output of \<open>%.0f\<close>. On IPv4 and IPv6
  alike an address is a list of bytes in network order.

  \<^bold>\<open>Loops.\<close> List walks take the fuel \<open>Suc drop_used\<close>, one more than the records in use, which the invariant
  shows to be enough; flushing a map takes one more than the entries it can hold; \<open>daemon_stop\<close> polls 200
  times as the source does; a connection ends after at most 255 reads that are not interrupted. The
  bucket loop of \<open>vg_ctrl_init\<close> is a \<open>partial_function\<close>, because it does not end for every size: both
  the sizes for which it ends and those for which it does not are proved. The waits that depend only on
  the environment (the reads of a connection, the ready pipe, the rounds of the event loop) recurse over
  the list of results, and \<open>None\<close> is a list that is too short.

  \<^bold>\<open>Bounds of the theorems.\<close> The exact verdicts on frames are for at most \<open>VG_MAX_VLANS\<close> (2) VLAN tags, and
  in IPv6 at most \<open>VG_MAX_IPV6_EXT\<close> (8) extension headers, with a transport header that is complete and in
  the same packet; \<open>XdpFragment\<close> covers packets whose transport header is in another fragment or behind more
  headers. Frames with more tags and cut headers are covered by the theorems on any packet (no load outside,
  drops only for listed addresses, counting). The protection of the interface's addresses is for at most
  \<open>VG_MAX_CIDR_LIST\<close> (256) of them. Clean-up at the end of the daemon and after a failed start depends on
  the results of \<open>bpf_xdp_detach\<close> and \<open>unlink\<close>, which the code does not look at and the statements name.

  \<^bold>\<open>Not modelled.\<close> Log output (\<open>log.c\<close>, \<open>log.h\<close> and the calls of it), which no decision depends on.
  \<open>vg_ctrl_free\<close> and the release of memory at exit. The libbpf skeleton, the verifier and the kernel's
  map types, which are the parameter \<open>kern\<close>. Concurrent runs of the XDP program on several CPUs: a
  packet is one step on the counters of its CPU. nginx, its timers and its shared dictionaries, which
  are arguments of the Lua client. Timeouts of sockets are not times: one that
  passes is an error among the results of the calls. A line that a client could send only in part: the
  theorems on the Lua client are about lines that arrive whole, while the server also runs an unterminated
  line at the end of the stream. The tests under \<open>src/t\<close>, the web site under \<open>src/docs\<close> and the
  service and configuration samples are not part of the program.
\<close>

section \<open>From commands to verdicts\<close>

text \<open>
  The two halves of the program meet in the kernel's maps: the control plane writes them, the XDP
  program reads them. \<open>env_of\<close> is what the program sees of the kernel in the world \<open>w\<close>; \<open>ins\<close> is the
  insertion into the traffic counters.
\<close>

definition env_of ::
  "'w kern \<Rightarrow> (cnt_map \<Rightarrow> bytes \<Rightarrow> (bytes \<rightharpoonup> host_counters) \<Rightarrow> (bytes \<rightharpoonup> host_counters)) \<Rightarrow> 'w \<Rightarrow> xdp_env" where
  "env_of K ins w = \<lparr>e_lpm = (\<lambda>m k. k_lpm_lookup K m k w \<noteq> None), e_cfg = k_cfg_lookup K w, e_insert = ins\<rparr>"

text \<open>An address that lies in a listed prefix.\<close>

definition covered :: "vg_ctrl \<Rightarrow> family \<Rightarrow> bytes \<Rightarrow> bool" where
  "covered c fam a \<longleftrightarrow> (\<exists>p \<in> listed c. (fam, a) \<in> cidr_set p)"

lemma set_family: "(fam, a) \<in> cidr_set p \<Longrightarrow> fam = family p"
  by (simp add: cidr_set_def)

context bpf_kernel
begin

lemma lookup_listed:
  assumes inv: "ctrl_inv True pr c (view w)" and len: "length a = nbytes fam"
  shows "k_lpm_lookup K (drop_map fam) \<lparr>kplen = of_nat (8 * nbytes fam), kdata = a\<rparr> w \<noteq> None \<longleftrightarrow> covered c fam a"
proof -
  have mb: "map_bytes (drop_map fam) = nbytes fam" by (cases fam) (simp_all add: drop_map_def nbytes_def)
  have ok: "\<forall>k \<in> dom (ents (view w) (drop_map fam)). key_ok (drop_map fam) k"
    using inv by (simp add: ctrl_inv_def synced_def keys_ok_def)
  have wf: "cidr_wf p" if "p \<in> listed c" for p using inv that listed_wf by (auto simp: ctrl_inv_def)
  have "(\<exists>k \<in> dom (ents (view w) (drop_map fam)). key_covers k a) \<longleftrightarrow> (\<exists>p \<in> listed c. family p = fam \<and> key_covers (cidr_key p) a)"
    using inv unfolding ctrl_inv_def synced_def by (metis (no_types))
  also have "\<dots> \<longleftrightarrow> covered c fam a"
    using key_covers_iff [OF wf] len set_family unfolding covered_def by metis
  finally show ?thesis using lookup [OF _ ok, of a] len mb by simp
qed

lemma env_drop:
  assumes "ctrl_inv True pr c (view w)"
  shows "length a = 4 \<Longrightarrow> v4_in_lpm (env_of K ins w) Drop_v4 a \<longleftrightarrow> covered c AF_INET a"
    and "length a = 16 \<Longrightarrow> v6_in_lpm (env_of K ins w) Drop_v6 a \<longleftrightarrow> covered c AF_INET6 a"
  using lookup_listed [OF assms, of a AF_INET] lookup_listed [OF assms, of a AF_INET6]
  by (simp_all add: v4_in_lpm_def v6_in_lpm_def env_of_def drop_map_def nbytes_def)

lemma env_armed:
  assumes "ctrl_inv True pr c (view w)"
  shows "e_cfg (env_of K ins w) = Some (kcfg (view w))" "armed (kcfg (view w)) \<noteq> 0 \<longleftrightarrow> state c = VG_ACTIVE"
    and "env_ok (env_of K ins w)"
  using assms cfg_lookup by (auto simp: env_of_def ctrl_inv_def synced_def env_ok_def)

end

subsection \<open>Any packet\<close>

text \<open>The addresses of a packet as the XDP program reads them.\<close>

definition packet_addrs :: "bytes \<Rightarrow> (family \<times> bytes \<times> bytes) option" where
  "packet_addrs pkt =
     (case l3_of pkt of
        L3_v4 ip \<Rightarrow> Some (AF_INET, slice (ip + 12) 4 pkt, slice (ip + 16) 4 pkt)
      | L3_v6 ip \<Rightarrow> Some (AF_INET6, slice (ip + 8) 16 pkt, slice (ip + 24) 16 pkt)
      | _ \<Rightarrow> None)"

lemma l3_room:
  "l3_of pkt = L3_v4 ip \<Longrightarrow> ip + 20 \<le> length pkt" "l3_of pkt = L3_v6 ip \<Longrightarrow> ip + 40 \<le> length pkt"
  by (auto simp: l3_of_def Let_def simp del: VG_MAX_VLANS_def split: if_splits option.splits prod.splits)

lemma reach_facts:
  assumes "voidgate_host K view H" "bpf_kernel_reliable K view" "sys_reach K view H fl fmt0 (c, w)"
  shows "bpf_kernel K view" "ctrl_inv True True c (view w)"
  using assms voidgate_host.reach_inv [OF assms(1,3,2)] by (simp_all add: voidgate_host_def)

lemma listed_unprotected:
  assumes "ctrl_inv rel True c v" "p \<in> listed c"
  shows "cidr_set p \<inter> protected_set (cfg c) = {}"
  using assms is_protected_set [of "cfg c" p] wf_ok [OF listed_wf] by (auto simp: ctrl_inv_def ctrl_ok_def)

lemma drop_covered:
  assumes "bpf_kernel K view" "ctrl_inv True True c (view w)" "voidgate_xdp (env_of K ins w) pkt s = Some (XDP_DROP, s')"
  obtains fam src dst where "state c = VG_ACTIVE" "packet_addrs pkt = Some (fam, src, dst)" "covered c fam src \<or> covered c fam dst"
proof -
  let ?e = "env_of K ins w"
  obtain g ip where g: "e_cfg ?e = Some g" "armed g \<noteq> 0"
    and ip: "l3_of pkt = L3_v4 ip \<and> (v4_in_lpm ?e Drop_v4 (slice (ip + 12) 4 pkt) \<or> v4_in_lpm ?e Drop_v4 (slice (ip + 16) 4 pkt)) \<or>
      l3_of pkt = L3_v6 ip \<and> (v6_in_lpm ?e Drop_v6 (slice (ip + 8) 16 pkt) \<or> v6_in_lpm ?e Drop_v6 (slice (ip + 24) 16 pkt))"
    using drop_only_listed [OF assms(3)] by (auto simp: Let_def)
  have act: "state c = VG_ACTIVE"
    using bpf_kernel.env_armed(1) [OF assms(1,2), of ins] bpf_kernel.env_armed(2) [OF assms(1,2)] g by simp
  note d = bpf_kernel.env_drop [OF assms(1,2)]
  consider (v4) "l3_of pkt = L3_v4 ip" | (v6) "l3_of pkt = L3_v6 ip" using ip by blast
  then show ?thesis
  proof cases
    case v4
    then have "length (slice (ip + 12) 4 pkt) = 4" "length (slice (ip + 16) 4 pkt) = 4"
      using l3_room(1) [OF v4] by (simp_all add: slice_def)
    then show ?thesis using ip d(1) act v4 by (intro that) (auto simp: packet_addrs_def)
  next
    case v6
    then have "length (slice (ip + 8) 16 pkt) = 16" "length (slice (ip + 24) 16 pkt) = 16"
      using l3_room(2) [OF v6] by (simp_all add: slice_def)
    then show ?thesis using ip d(2) act v6 by (intro that) (auto simp: packet_addrs_def)
  qed
qed

text \<open>
  C1: In every state the daemon can reach, whatever packet arrives, the XDP program drops it only when
  the gate is active and an address of the packet lies in a prefix that is listed at that moment and
  that has no address in a protected network.
\<close>

theorem gate_safe:
  assumes "voidgate_host K view H" and "bpf_kernel_reliable K view" and "sys_reach K view H fl fmt0 (c, w)"
    and "voidgate_xdp (env_of K ins w) pkt s = Some (XDP_DROP, s')"
  shows "state c = VG_ACTIVE \<and> (\<exists>fam src dst p. packet_addrs pkt = Some (fam, src, dst) \<and> p \<in> listed c \<and>
    {(fam, src), (fam, dst)} \<inter> cidr_set p \<noteq> {} \<and> cidr_set p \<inter> protected_set (cfg c) = {})"
proof -
  note r = reach_facts [OF assms(1-3)]
  obtain fam src dst where d: "state c = VG_ACTIVE" "packet_addrs pkt = Some (fam, src, dst)" "covered c fam src \<or> covered c fam dst"
    by (rule drop_covered [OF r assms(4)])
  then obtain p where "p \<in> listed c" "{(fam, src), (fam, dst)} \<inter> cidr_set p \<noteq> {}" by (auto simp: covered_def)
  then show ?thesis using d listed_unprotected [OF r(2)] by blast
qed

text \<open>
  C5: The gate never cuts off what is protected: in every state the daemon can reach, a packet both
  of whose addresses are protected passes, however long the list of drops.
\<close>

theorem gate_protects:
  assumes "voidgate_host K view H" and "bpf_kernel_reliable K view" and "sys_reach K view H fl fmt0 (c, w)"
    and "packet_addrs pkt = Some (fam, src, dst)"
    and "(fam, src) \<in> protected_set (cfg c)" and "(fam, dst) \<in> protected_set (cfg c)"
  shows "\<exists>s'. voidgate_xdp (env_of K ins w) pkt s = Some (XDP_PASS, s')"
proof -
  note r = reach_facts [OF assms(1-3)]
  obtain a s' where x: "voidgate_xdp (env_of K ins w) pkt s = Some (a, s')" by (metis xdp_eq surj_pair)
  have "a \<noteq> XDP_DROP"
  proof
    assume "a = XDP_DROP"
    with x have "covered c fam src \<or> covered c fam dst"
      using drop_covered [OF r, of ins pkt s s'] assms(4) by (metis option.inject prod.inject)
    then show False using listed_unprotected [OF r(2)] assms(5,6) by (auto simp: covered_def)
  qed
  then show ?thesis using x by (cases a) simp_all
qed

subsection \<open>Well-formed frames\<close>

definition exempt4 :: "xdp_env \<Rightarrow> vg_cfg \<Rightarrow> ip4_hdr \<Rightarrow> l4 \<Rightarrow> bool" where
  "exempt4 env g h x \<longleftrightarrow> v4_in_lpm env Allow_v4 (i_src h) \<or> v4_in_lpm env Allow_v4 (i_dst h) \<or>
     port_exempt4 env g (i_src h) (i_dst h) x"

definition exempt6 :: "xdp_env \<Rightarrow> vg_cfg \<Rightarrow> ip6_hdr \<Rightarrow> l4 \<Rightarrow> bool" where
  "exempt6 env g h x \<longleftrightarrow> link_scope (j_src h) \<or> link_scope (j_dst h) \<or>
     v6_in_lpm env Allow_v6 (j_src h) \<or> v6_in_lpm env Allow_v6 (j_dst h) \<or> port_exempt6 env g h x"

context bpf_kernel
begin

lemma verdict4:
  assumes inv: "ctrl_inv True True c (view w)" and "eth_ok macs tags" "ip4_ok h" "l4_ok x"
  shows "\<exists>s'. voidgate_xdp (env_of K ins w) (eth_frame macs tags VG_ETH_P_IP (enc_ip4 h (l4_proto x) (enc_l4 x))) s =
    Some (if state c = VG_ACTIVE \<and> (covered c AF_INET (i_src h) \<or> covered c AF_INET (i_dst h)) \<and>
      \<not> exempt4 (env_of K ins w) (kcfg (view w)) h x then XDP_DROP else XDP_PASS, s')"
proof -
  let ?e = "env_of K ins w"
  have "dropped4 ?e (i_src h) (i_dst h) x \<longleftrightarrow> state c = VG_ACTIVE \<and>
      (covered c AF_INET (i_src h) \<or> covered c AF_INET (i_dst h)) \<and> \<not> exempt4 ?e (kcfg (view w)) h x"
    using env_armed(1,2) [OF inv] env_drop(1) [OF inv, of _ ins] assms(3) by (auto simp: dropped4_def exempt4_def ip4_ok_def)
  then show ?thesis using v4_verdict [OF assms(2-4) env_armed(3) [OF inv], of ins s] by (simp only:)
qed

lemma verdict6:
  assumes inv: "ctrl_inv True True c (view w)" and "eth_ok macs tags" "v6_ok h es x"
  shows "\<exists>s'. voidgate_xdp (env_of K ins w) (eth_frame macs tags VG_ETH_P_IPV6 (enc_v6 h es x)) s =
    Some (if state c = VG_ACTIVE \<and> (covered c AF_INET6 (j_src h) \<or> covered c AF_INET6 (j_dst h)) \<and>
      \<not> exempt6 (env_of K ins w) (kcfg (view w)) h x then XDP_DROP else XDP_PASS, s')"
proof -
  let ?e = "env_of K ins w"
  have "dropped6 ?e h x \<longleftrightarrow> state c = VG_ACTIVE \<and>
      (covered c AF_INET6 (j_src h) \<or> covered c AF_INET6 (j_dst h)) \<and> \<not> exempt6 ?e (kcfg (view w)) h x"
    using env_armed(1,2) [OF inv] env_drop(2) [OF inv, of _ ins] assms(3)
    by (auto simp: dropped6_def exempt6_def v6_ok_def ip6_ok_def)
  then show ?thesis using v6_verdict [OF assms(2,3) env_armed(3) [OF inv], of ins s] by (simp only:)
qed

end

text \<open>
  C2: The exact behaviour of the running gate on IPv4: in every state the daemon can reach, a
  well-formed frame (at most two VLAN tags, any IP options, not a later fragment, a complete transport
  header) is dropped exactly when the gate is active, its source or destination lies in a listed
  prefix, and it is not exempt.
\<close>

theorem gate_verdict_v4:
  assumes "voidgate_host K view H" and "bpf_kernel_reliable K view" and "sys_reach K view H fl fmt0 (c, w)"
    and "eth_ok macs tags" and "ip4_ok h" and "l4_ok x"
  shows "\<exists>s'. voidgate_xdp (env_of K ins w) (eth_frame macs tags VG_ETH_P_IP (enc_ip4 h (l4_proto x) (enc_l4 x))) s =
    Some (if state c = VG_ACTIVE \<and> (covered c AF_INET (i_src h) \<or> covered c AF_INET (i_dst h)) \<and>
      \<not> exempt4 (env_of K ins w) (kcfg (view w)) h x then XDP_DROP else XDP_PASS, s')"
  by (rule bpf_kernel.verdict4 [OF reach_facts [OF assms(1-3)] assms(4-6)])

text \<open>
  C3: The same on IPv6, where link-scope traffic and neighbour discovery are exempt as well. The frame has
  at most two VLAN tags and at most eight extension headers, each complete; a fragment header among them
  is that of a first fragment. (Later fragments and longer chains: \<open>XdpFragment\<close>.)
\<close>

theorem gate_verdict_v6:
  assumes "voidgate_host K view H" and "bpf_kernel_reliable K view" and "sys_reach K view H fl fmt0 (c, w)"
    and "eth_ok macs tags" and "v6_ok h es x"
  shows "\<exists>s'. voidgate_xdp (env_of K ins w) (eth_frame macs tags VG_ETH_P_IPV6 (enc_v6 h es x)) s =
    Some (if state c = VG_ACTIVE \<and> (covered c AF_INET6 (j_src h) \<or> covered c AF_INET6 (j_dst h)) \<and>
      \<not> exempt6 (env_of K ins w) (kcfg (view w)) h x then XDP_DROP else XDP_PASS, s')"
  by (rule bpf_kernel.verdict6 [OF reach_facts [OF assms(1-3)] assms(4,5)])

subsection \<open>From the client's command to the packet\<close>

lemma drop_connection:
  assumes "bpf_kernel K view" and "ctrl_inv rel pr c (view w)" and "read_request reads [] = Some (Line (''drop '' @ args))"
    and "vg_ctl_server_handle K H fmt0 reads sends c w = Some (''ok'' @ [NL], c', w')"
  obtains p where "vg_parse_cidr_len args (length (fst (split_at CHR '' '' args))) = Some p" "p \<in> listed c'"
    "state c' = VG_ACTIVE"
proof -
  obtain reply where d: "ctl_drop K c args w = (reply, c', w')" and t: "take (send_loop sends reply 0) reply = ''ok'' @ [NL]"
    using assms(3,4) run_drop [of K H fmt0 args c w] by (auto simp: vg_ctl_server_handle_def split: prod.splits)
  have "reply = ''ok'' @ [NL]"
  proof (rule ccontr)
    assume "reply \<noteq> ''ok'' @ [NL]"
    then have "take 5 reply = ''error''" using drop_reply [OF assms(1,2) d] by (auto split: if_splits)
    then have "reply ! 0 = CHR ''e''" by (metis nth_Cons_0 nth_take zero_less_numeral)
    moreover have "reply ! 0 = CHR ''o''" using t by (cases reply; cases "send_loop sends reply 0") simp_all
    ultimately show False by simp
  qed
  then show ?thesis using drop_reply [OF assms(1,2) d] that by auto
qed

text \<open>
  C4: What the client is told is what happens on the wire. When the daemon, in any state it can reach,
  answers \<open>ok\<close> to a connection that sent \<open>drop\<close> and a prefix, then from that moment the XDP program
  drops every well-formed frame from the prefix that is not exempt, whatever protocol the frame carries
  (with at most two VLAN tags and, in IPv6, eight extension headers; not a later fragment).
\<close>

theorem command_to_verdict:
  assumes "voidgate_host K view H" and "bpf_kernel_reliable K view" and "sys_reach K view H fl fmt0 (c, w)"
    and "read_request reads [] = Some (Line (''drop '' @ args))"
    and "vg_ctl_server_handle K H fmt0 reads sends c w = Some (''ok'' @ [NL], c', w')"
    and "vg_parse_cidr_len args (length (fst (split_at CHR '' '' args))) = Some p"
    and "eth_ok macs tags"
  shows "(ip4_ok h \<and> l4_ok x \<and> (AF_INET, i_src h) \<in> cidr_set p \<and> \<not> exempt4 (env_of K ins w') (kcfg (view w')) h x \<longrightarrow>
      (\<exists>s'. voidgate_xdp (env_of K ins w') (eth_frame macs tags VG_ETH_P_IP (enc_ip4 h (l4_proto x) (enc_l4 x))) s =
        Some (XDP_DROP, s'))) \<and>
    (v6_ok h6 es x \<and> (AF_INET6, j_src h6) \<in> cidr_set p \<and> \<not> exempt6 (env_of K ins w') (kcfg (view w')) h6 x \<longrightarrow>
      (\<exists>s'. voidgate_xdp (env_of K ins w') (eth_frame macs tags VG_ETH_P_IPV6 (enc_v6 h6 es x)) s = Some (XDP_DROP, s')))"
proof -
  note r = reach_facts [OF assms(1-3)]
  have "sys_step K view H fl fmt0 (c, w) (c', w')" by (rule sys_conn [OF assms(5)])
  then have "sys_reach K view H fl fmt0 (c', w')" by (rule reach_step [OF assms(3)])
  from reach_facts(2) [OF assms(1,2) this] have inv: "ctrl_inv True True c' (view w')" .
  have l: "p \<in> listed c'" and act: "state c' = VG_ACTIVE" using drop_connection [OF r assms(4,5)] assms(6) by auto
  have cov: "(fam, a) \<in> cidr_set p \<Longrightarrow> covered c' fam a" for fam a using l by (auto simp: covered_def)
  show ?thesis
    using act cov bpf_kernel.verdict4 [OF r(1) inv assms(7), of h x ins s] bpf_kernel.verdict6 [OF r(1) inv assms(7), of h6 es x ins s]
    by (intro conjI impI) simp_all
qed

subsection \<open>A run\<close>

text \<open>
  A daemon with the default configuration to which a client sends \<open>drop 203.0.113.0/24\<close>, and frames
  from that network, from elsewhere, and between two loopback addresses.
\<close>

definition ex_reads :: "(errno + string) list" where
  "ex_reads = [Inl EINTR, Inr (''drop 203.0.113.0/24'' @ [NL])]"

definition ex_host_s :: "rkernel host" where
  "ex_host_s = ref_host (\<lambda>_. None) None"

definition ex_src :: "bytes \<Rightarrow> bytes \<Rightarrow> ip4_hdr" where
  "ex_src a b = ex_ip4\<lparr>i_src := a, i_dst := b\<rparr>"

definition ex_pkt :: "bytes \<Rightarrow> bytes \<Rightarrow> bytes" where
  "ex_pkt a b = eth_frame (replicate 12 2) [(VG_ETH_P_8021Q, 5)] VG_ETH_P_IP
     (enc_ip4 (ex_src a b) (l4_proto (Raw 47 [])) (enc_l4 (Raw 47 [])))"

lemma ex_src_ok: "length a = 4 \<Longrightarrow> length b = 4 \<Longrightarrow> ip4_ok (ex_src a b)"
  using ex_ip4_ok by (simp add: ip4_ok_def ex_src_def)

lemma ex_line: "read_request ex_reads [] = Some (Line (''drop '' @ ''203.0.113.0/24''))"
proof -
  have "split_at NL (''drop 203.0.113.0/24'' @ [NL]) = (''drop 203.0.113.0/24'', Some [])" by code_simp
  then show ?thesis by (simp add: ex_reads_def)
qed

lemma ex_host_ok: "voidgate_host ref_kernel r_view ex_host_s"
  unfolding ex_host_s_def by (rule refh.voidgate_host_axioms)

lemma ex_first: "sys_reach ref_kernel r_view ex_host_s (\<lambda>x. x) (\<lambda>_. ''0'') (ex_ctrl, ex_world)"
  by (rule reach_init [OF ex_ctrl_init defaults_ok(1)]) (auto simp: keys_ok_def r_view_def ex_world_def)

text \<open>A connection whose drop succeeds.\<close>

lemma conn_drop:
  assumes "sys_reach ref_kernel r_view ex_host_s (\<lambda>x. x) (\<lambda>_. ''0'') (c0, w0)"
    and "read_request reads [] = Some (Line (''drop '' @ t))" and "split_at CHR '' '' t = (t, None)"
    and "vg_parse_cidr_len t (length t) = Some p" and "drop_add ref_kernel c0 p VG_REASON_MANUAL 0 w0 = (0, c, w)"
  shows "vg_ctl_server_handle ref_kernel ex_host_s (\<lambda>_. ''0'') reads [Inr 3] c0 w0 = Some (''ok'' @ [NL], c, w)"
    and "sys_reach ref_kernel r_view ex_host_s (\<lambda>x. x) (\<lambda>_. ''0'') (c, w)"
proof -
  have r: "ctl_drop ref_kernel c0 t w0 = (''ok'' @ [NL], c, w)"
    unfolding ctl_drop_def assms(3) Let_def prod.case assms(4) option.case
    using assms(5) ok_reply by (simp add: vg_ctrl_drop_def del: REPLY_SIZE_def)
  have "send_loop [Inr 3] (''ok'' @ [NL]) 0 = 3" by (simp add: send_loop.simps)
  then show h: "vg_ctl_server_handle ref_kernel ex_host_s (\<lambda>_. ''0'') reads [Inr 3] c0 w0 = Some (''ok'' @ [NL], c, w)"
    using assms(2) r run_drop [of ref_kernel ex_host_s "\<lambda>_. ''0''" t c0 w0] by (simp add: vg_ctl_server_handle_def)
  show "sys_reach ref_kernel r_view ex_host_s (\<lambda>x. x) (\<lambda>_. ''0'') (c, w)"
    by (rule reach_step [OF assms(1) sys_conn [OF h]])
qed

lemma ex_conn:
  obtains c w where "vg_ctl_server_handle ref_kernel ex_host_s (\<lambda>_. ''0'') ex_reads [Inr 3] ex_ctrl ex_world = Some (''ok'' @ [NL], c, w)"
    "ex_net \<in> listed c" "listed c \<subseteq> {ex_net}" "state c = VG_ACTIVE" "cfg c = vg_config_defaults" "ents (r_view w) Allow_v4 = Map.empty"
    "sys_reach ref_kernel r_view ex_host_s (\<lambda>x. x) (\<lambda>_. ''0'') (c, w)"
proof -
  have sp: "split_at CHR '' '' ''203.0.113.0/24'' = (''203.0.113.0/24'', None)" by code_simp
  have p: "vg_parse_cidr_len ''203.0.113.0/24'' (length ''203.0.113.0/24'') = Some ex_net" by code_simp
  obtain c w where d: "drop_add ref_kernel ex_ctrl ex_net VG_REASON_MANUAL 0 ex_world = (0, c, w)" by (rule ex_drop)
  note h = conn_drop [OF ex_first ex_line sp p d] and g = ref.drop_add_good [OF d ex_inv [of True True] ex_net_wf]
  have "map cidr (drops (tab c)) = [ex_net]" using g(4) by (simp add: drop_spec_def ex_listed)
  then have "listed c = {ex_net}" by (metis listed_def list.set_map list.simps(15) empty_set)
  moreover have "cfg c = vg_config_defaults" "ents (r_view w) Allow_v4 = Map.empty"
    using g(1) ex_ctrl_facts(3) by (auto simp: good_def others_def r_view_def ex_world_def)
  moreover have "state c = VG_ACTIVE" using g(4) by simp
  ultimately show ?thesis using that h by simp
qed

text \<open>A daemon that protects nothing, to which a client sends \<open>drop 2001::/16\<close>.\<close>

definition ex_cf6 :: vg_config where
  "ex_cf6 = vg_config_defaults\<lparr>allow_cidr := []\<rparr>"

definition ex_net6 :: vg_cidr where
  "ex_net6 = \<lparr>family = AF_INET6, addr = 0x20 # 0x01 # replicate 14 0, prefixlen = 16\<rparr>"

lemma ex_conn6:
  obtains c w where "ex_net6 \<in> listed c" "state c = VG_ACTIVE" "ents (r_view w) Allow_v6 = Map.empty"
    "sys_reach ref_kernel r_view ex_host_s (\<lambda>x. x) (\<lambda>_. ''0'') (c, w)"
proof -
  have cf: "config_ok ex_cf6" "drop_cap ex_cf6 = drop_cap vg_config_defaults" "allow_cidr ex_cf6 = []" "local_cidr ex_cf6 = []"
    by (simp_all add: ex_cf6_def config_ok_def drop_cap_def vg_config_defaults_def)
  obtain nb where "nbuckets_loop (drop_cap vg_config_defaults) 1024 = Some nb"
    using nbuckets_ends [OF drop_cap_bound [OF defaults_ok(2)], of 10] by auto
  then obtain c0 where i: "vg_ctrl_init (True, True, True) ex_cf6 ex_maps ''/etc/voidgate.conf'' [] = Some (Some c0)"
    by (simp add: vg_ctrl_init_def cf(2))
  note f = config_ctrl_ok [OF i cf(1)]
  have reach: "sys_reach ref_kernel r_view ex_host_s (\<lambda>x. x) (\<lambda>_. ''0'') (c0, ex_world)"
    by (rule reach_init [OF i cf(1)]) (auto simp: keys_ok_def r_view_def ex_world_def)
  have inv: "ctrl_inv True True c0 (r_view ex_world)"
    by (rule reach_facts(2) [OF ex_host_ok ref.bpf_kernel_reliable_axioms reach])
  have sp: "split_at CHR '' '' ''2001::/16'' = (''2001::/16'', None)" by code_simp
  have p: "vg_parse_cidr_len ''2001::/16'' (length ''2001::/16'') = Some ex_net6" by code_simp
  have "split_at NL (''drop 2001::/16'' @ [NL]) = (''drop 2001::/16'', Some [])" by code_simp
  then have line: "read_request [Inr (''drop 2001::/16'' @ [NL])] [] = Some (Line (''drop '' @ ''2001::/16''))" by simp
  note wf = parse_len_wf [OF p]
  have np: "\<not> vg_cidr_is_protected (cfg c0) ex_net6" using f(3) cf(3,4) by (simp add: is_protected_iff)
  have room: "has_room c0 (r_view ex_world) ex_net6"
    using f(4,5) cf(2) by (simp add: has_room_def of_family_def r_view_def ex_world_def drop_cap_def vg_config_defaults_def)
  obtain x c w where d: "drop_add ref_kernel c0 ex_net6 VG_REASON_MANUAL 0 ex_world = (x, c, w)" by (metis prod_cases3)
  have "x = 0" using refr.drop_add_live [OF inv wf np, of VG_REASON_MANUAL 0] room d by simp
  note h = conn_drop(2) [OF reach line sp p d [unfolded \<open>x = 0\<close>]] and g = ref.drop_add_good [OF d inv wf]
  have "ents (r_view w) Allow_v6 = Map.empty" using g(1) by (auto simp: good_def others_def r_view_def ex_world_def)
  moreover have "ex_net6 \<in> listed c" "state c = VG_ACTIVE" using g(4) \<open>x = 0\<close> by (simp_all add: listed_def drop_spec_cidrs)
  ultimately show ?thesis using that h by blast
qed

lemma ex_in: "(AF_INET, [203, 0, 113, 9]) \<in> cidr_set ex_net" "(AF_INET, [192, 0, 2, 1]) \<notin> cidr_set ex_net" "(AF_INET6, a) \<notin> cidr_set ex_net"
  using agree_bytes [of 3 "addr ex_net" "[203, 0, 113, 9]"] agree_bytes [of 3 "addr ex_net" "[192, 0, 2, 1]"]
  by (auto simp: cidr_set_def ex_net_def nbytes_def plen_def less_Suc_eq numeral_3_eq_3)

lemma ex_not_exempt:
  assumes "ents (r_view w) Allow_v4 = Map.empty"
  shows "\<not> exempt4 (env_of ref_kernel ins w) g h (Raw 47 [])"
  using assms by (auto simp: exempt4_def port_exempt4_def v4_in_lpm_def env_of_def ref_kernel_def r_view_def)

theorem gate_verdict_v4_witness:
  "\<exists>c w s1 s2. sys_reach ref_kernel r_view ex_host_s (\<lambda>x. x) (\<lambda>_. ''0'') (c, w) \<and>
     voidgate_xdp (env_of ref_kernel (\<lambda>_ _ m. m) w) (ex_pkt [203, 0, 113, 9] [198, 51, 100, 7]) ex_state = Some (XDP_DROP, s1) \<and>
     voidgate_xdp (env_of ref_kernel (\<lambda>_ _ m. m) w) (ex_pkt [192, 0, 2, 1] [192, 0, 2, 1]) ex_state = Some (XDP_PASS, s2)"
proof -
  obtain c w where st: "ex_net \<in> listed c" "listed c \<subseteq> {ex_net}" "state c = VG_ACTIVE" "ents (r_view w) Allow_v4 = Map.empty"
    "sys_reach ref_kernel r_view ex_host_s (\<lambda>x. x) (\<lambda>_. ''0'') (c, w)" by (rule ex_conn)
  note v = gate_verdict_v4 [OF ex_host_ok ref.bpf_kernel_reliable_axioms st(5) ex_eth ex_src_ok,
    where x = "Raw 47 []" and ins = "\<lambda>_ _ m. m" and s = ex_state, folded ex_pkt_def]
  have "covered c AF_INET [203, 0, 113, 9]" "\<not> covered c AF_INET [192, 0, 2, 1]" using st(1,2) ex_in by (auto simp: covered_def)
  then show ?thesis
    using st v [of "[203, 0, 113, 9]" "[198, 51, 100, 7]"] v [of "[192, 0, 2, 1]" "[192, 0, 2, 1]"] ex_not_exempt [OF st(4)]
    by (simp add: ex_src_def) blast
qed

theorem gate_verdict_v6_witness:
  "\<exists>c w s1 s2. sys_reach ref_kernel r_view ex_host_s (\<lambda>x. x) (\<lambda>_. ''0'') (c, w) \<and>
     voidgate_xdp (env_of ref_kernel (\<lambda>_ _ m. m) w) (ex_frame6 (Raw 47 [])) ex_state = Some (XDP_DROP, s1) \<and>
     voidgate_xdp (env_of ref_kernel (\<lambda>_ _ m. m) w) (ex_frame6 (Icmp6 135 [0, 0, 0])) ex_state = Some (XDP_PASS, s2)"
proof -
  obtain c w where st: "ex_net6 \<in> listed c" "state c = VG_ACTIVE" "ents (r_view w) Allow_v6 = Map.empty"
    "sys_reach ref_kernel r_view ex_host_s (\<lambda>x. x) (\<lambda>_. ''0'') (c, w)" by (rule ex_conn6)
  let ?e = "env_of ref_kernel (\<lambda>_ _ m. m) w"
  have ok: "v6_ok ex_ip6 ex_exts (Raw 47 [])" "v6_ok ex_ip6 ex_exts (Icmp6 135 [0, 0, 0])" "eth_ok (replicate 12 2) []"
    by (simp_all add: v6_ok_def ip6_ok_def ex_ip6_def ex_exts_def ext_proto_def eth_ok_def)
  note v = gate_verdict_v6 [OF ex_host_ok ref.bpf_kernel_reliable_axioms st(4) ok(3), where ins = "\<lambda>_ _ m. m" and s = ex_state
    and h = ex_ip6 and es = ex_exts, folded ex_frame6_def]
  have "(AF_INET6, j_src ex_ip6) \<in> cidr_set ex_net6"
    using agree_bytes [of 2 "addr ex_net6" "j_src ex_ip6"]
    by (simp add: cidr_set_def ex_net6_def ex_ip6_def nbytes_def plen_def)
  then have cov: "covered c AF_INET6 (j_src ex_ip6)" using st(1) by (auto simp: covered_def)
  have "\<not> v6_in_lpm ?e Allow_v6 a" for a
    using st(3) by (auto simp: v6_in_lpm_def env_of_def ref_kernel_def r_view_def)
  then have ex: "\<not> exempt6 ?e g ex_ip6 (Raw 47 [])" "exempt6 ?e g ex_ip6 (Icmp6 135 [0, 0, 0])" for g
    by (simp_all add: exempt6_def port_exempt6_def link_scope_iff v6_is_linklocal_def v6_is_mcast_link_def ex_ip6_def)
  show ?thesis using v [OF ok(1)] v [OF ok(2)] st(2,4) cov ex by simp blast
qed

theorem gate_safe_witness:
  "\<exists>c w s. voidgate_xdp (env_of ref_kernel (\<lambda>_ _ m. m) w) (ex_pkt [203, 0, 113, 9] [198, 51, 100, 7]) ex_state = Some (XDP_DROP, s) \<and>
     state c = VG_ACTIVE \<and> (\<exists>fam src dst p. packet_addrs (ex_pkt [203, 0, 113, 9] [198, 51, 100, 7]) = Some (fam, src, dst) \<and>
       p \<in> listed c \<and> {(fam, src), (fam, dst)} \<inter> cidr_set p \<noteq> {})"
proof -
  obtain c w where st: "ex_net \<in> listed c" "state c = VG_ACTIVE" "ents (r_view w) Allow_v4 = Map.empty"
    "sys_reach ref_kernel r_view ex_host_s (\<lambda>x. x) (\<lambda>_. ''0'') (c, w)" by (rule ex_conn)
  note r = reach_facts [OF ex_host_ok ref.bpf_kernel_reliable_axioms st(4)]
  have "covered c AF_INET [203, 0, 113, 9]" using st(1) ex_in by (auto simp: covered_def)
  then obtain s where d: "voidgate_xdp (env_of ref_kernel (\<lambda>_ _ m. m) w) (ex_pkt [203, 0, 113, 9] [198, 51, 100, 7]) ex_state = Some (XDP_DROP, s)"
    using ref.verdict4 [OF r(2) ex_eth ex_src_ok, of "[203, 0, 113, 9]" "[198, 51, 100, 7]" "Raw 47 []" "\<lambda>_ _ m. m" ex_state, folded ex_pkt_def]
      st ex_not_exempt [OF st(3)] by (auto simp: ex_src_def)
  show ?thesis using d gate_safe [OF ex_host_ok ref.bpf_kernel_reliable_axioms st(4) d] by blast
qed

theorem gate_protects_witness:
  "\<exists>c w s. ex_net \<in> listed c \<and> state c = VG_ACTIVE \<and>
     voidgate_xdp (env_of ref_kernel (\<lambda>_ _ m. m) w) (ex_pkt [127, 0, 0, 1] [127, 0, 0, 1]) ex_state = Some (XDP_PASS, s)"
proof -
  obtain c w where st: "ex_net \<in> listed c" "state c = VG_ACTIVE" "cfg c = vg_config_defaults"
    "sys_reach ref_kernel r_view ex_host_s (\<lambda>x. x) (\<lambda>_. ''0'') (c, w)" by (rule ex_conn)
  have p: "packet_addrs (ex_pkt [127, 0, 0, 1] [127, 0, 0, 1]) = Some (AF_INET, [127, 0, 0, 1], [127, 0, 0, 1])" by code_simp
  have "parsed ''127.0.0.0/8'' = [\<lparr>family = AF_INET, addr = 127 # replicate 15 0, prefixlen = 8\<rparr>]" by code_simp
  then have l: "(AF_INET, [127, 0, 0, 1]) \<in> protected_set (cfg c)"
    using agree_bytes [of 1 "127 # replicate 15 0" "[127, 0, 0, 1]"]
    by (simp add: st(3) protected_set_def vg_config_defaults_def cidr_set_def nbytes_def plen_def)
  show ?thesis using st gate_protects [OF ex_host_ok ref.bpf_kernel_reliable_axioms st(4) p l l] by blast
qed

theorem command_to_verdict_witness:
  "\<exists>c w s. vg_ctl_server_handle ref_kernel ex_host_s (\<lambda>_. ''0'') ex_reads [Inr 3] ex_ctrl ex_world = Some (''ok'' @ [NL], c, w) \<and>
     voidgate_xdp (env_of ref_kernel (\<lambda>_ _ m. m) w) (ex_pkt [203, 0, 113, 9] [198, 51, 100, 7]) ex_state = Some (XDP_DROP, s)"
proof -
  obtain c w where st: "vg_ctl_server_handle ref_kernel ex_host_s (\<lambda>_. ''0'') ex_reads [Inr 3] ex_ctrl ex_world = Some (''ok'' @ [NL], c, w)"
    "ents (r_view w) Allow_v4 = Map.empty" by (rule ex_conn)
  have p: "vg_parse_cidr_len ''203.0.113.0/24'' (length (fst (split_at CHR '' '' ''203.0.113.0/24''))) = Some ex_net" by code_simp
  show ?thesis
    using st(1) ex_src_ok [of "[203, 0, 113, 9]" "[198, 51, 100, 7]"] ex_in ex_not_exempt [OF st(2)]
      command_to_verdict [OF ex_host_ok ref.bpf_kernel_reliable_axioms ex_first ex_line st(1) p ex_eth,
        of "ex_src [203, 0, 113, 9] [198, 51, 100, 7]" "Raw 47 []" "\<lambda>_ _ m. m" ex_state, folded ex_pkt_def]
    by (simp add: ex_src_def)
qed

end
